(* ===== verification/Veloc_Prelude.thy ===== *)
theory Veloc_Prelude
  imports "HOL-Library.Word" "HOL-Library.AList" "HOL-Library.Char_ord"
begin

text \<open>
  Shared vocabulary of the development: the model's types for C++ integers and byte buffers,
  the outcomes a call can have besides returning a value, ordered association lists for
  \<^verbatim>\<open>std::map\<close>, fixed-width little-endian encodings, and the decimal text that
  \<^verbatim>\<open>std::to_string\<close> and \<^verbatim>\<open>std::stoi\<close> exchange. The target is the LP64 little-endian
  platform the repository builds for: \<open>int\<close> has 4 bytes, \<open>long\<close> and \<open>size_t\<close> have 8.
\<close>

section \<open>Types\<close>

type_synonym byte = "8 word"
type_synonym size_t = "64 word"

text \<open>
  What a call can do instead of returning: \<open>Fatal\<close> is the \<^verbatim>\<open>FATAL\<close> macro
  (\<^verbatim>\<open>exit(-1)\<close>), \<open>OutOfRange\<close> the exception of \<^verbatim>\<open>std::stoi\<close>, \<open>BadFunctionCall\<close> the
  exception of calling an empty \<^verbatim>\<open>std::function\<close>, \<open>RegexUnsupported\<close> a name with regular
  expression operators other than the dot, \<open>Undefined\<close> undefined behaviour of C++.
\<close>

datatype exn = Fatal | OutOfRange | BadFunctionCall | RegexUnsupported | Undefined

type_synonym 'a res = "exn + 'a"

text \<open>
  How a call that may also block forever ends: it returns, it throws (or ends the process),
  or it never comes back.
\<close>

datatype 'a outcome = Ok 'a | Throws exn | Diverges

definition of_res :: "'a res \<Rightarrow> 'a outcome" where
  "of_res r = (case r of Inl e \<Rightarrow> Throws e | Inr a \<Rightarrow> Ok a)"

lemma of_res_simps [simp]: "of_res (Inl e) = Throws e" "of_res (Inr a) = Ok a"
  by (simp_all add: of_res_def)

abbreviation int_max :: int where
  "int_max \<equiv> 2147483647"

definition is_int32 :: "int \<Rightarrow> bool" where
  "is_int32 i \<longleftrightarrow> - 2147483648 \<le> i \<and> i \<le> int_max"

named_theorems omap_simps \<open>laws of the ordered association lists\<close>
named_theorems codec_simps \<open>round trips and widths of the fixed-width encodings\<close>

section \<open>Ordered association lists: std::map\<close>

definition omap_wf :: "('k::linorder \<times> 'v) list \<Rightarrow> bool" where
  "omap_wf m \<longleftrightarrow> sorted_wrt (<) (map fst m)"

text \<open>\<^verbatim>\<open>insert_or_assign\<close> and \<^verbatim>\<open>operator[] =\<close>.\<close>

fun omap_assign :: "'k::linorder \<Rightarrow> 'v \<Rightarrow> ('k \<times> 'v) list \<Rightarrow> ('k \<times> 'v) list" where
  "omap_assign k v [] = [(k, v)]"
| "omap_assign k v ((k', v') # m) =
     (if k < k' then (k, v) # (k', v') # m
      else if k = k' then (k, v) # m
      else (k', v') # omap_assign k v m)"

text \<open>\<^verbatim>\<open>insert\<close>: an existing key keeps its value.\<close>

definition omap_insert :: "'k::linorder \<Rightarrow> 'v \<Rightarrow> ('k \<times> 'v) list \<Rightarrow> ('k \<times> 'v) list" where
  "omap_insert k v m = (case map_of m k of None \<Rightarrow> omap_assign k v m | Some _ \<Rightarrow> m)"

definition omap_erase :: "'k::linorder \<Rightarrow> ('k \<times> 'v) list \<Rightarrow> ('k \<times> 'v) list" where
  "omap_erase k m = filter (\<lambda>e. fst e \<noteq> k) m"

lemma omap_wf_Nil [simp]: "omap_wf []"
  by (simp add: omap_wf_def)

lemma omap_wf_Cons [simp]: "omap_wf ((k, v) # m) \<longleftrightarrow> (\<forall>k' \<in> fst ` set m. k < k') \<and> omap_wf m"
  by (auto simp: omap_wf_def)

lemma omap_wf_distinct: "omap_wf m \<Longrightarrow> distinct (map fst m)"
  by (simp add: omap_wf_def strict_sorted_iff)

lemma fst_omap_assign [omap_simps]: "fst ` set (omap_assign k v m) = insert k (fst ` set m)"
  by (induction k v m rule: omap_assign.induct) auto

lemma omap_wf_assign [omap_simps, intro]: "omap_wf m \<Longrightarrow> omap_wf (omap_assign k v m)"
  by (induction k v m rule: omap_assign.induct) (auto simp: fst_omap_assign)

lemma map_of_omap_assign [omap_simps]:
  "omap_wf m \<Longrightarrow> map_of (omap_assign k v m) = (map_of m)(k \<mapsto> v)"
proof (induction k v m rule: omap_assign.induct)
  case (2 k v k' v' m)
  then show ?case by (auto simp: fun_eq_iff)
qed simp

lemma omap_wf_insert [omap_simps, intro]: "omap_wf m \<Longrightarrow> omap_wf (omap_insert k v m)"
  by (auto simp: omap_insert_def split: option.splits)

lemma map_of_omap_insert [omap_simps]:
  "omap_wf m \<Longrightarrow> map_of (omap_insert k v m) =
     (if map_of m k = None then (map_of m)(k \<mapsto> v) else map_of m)"
  by (auto simp: omap_insert_def map_of_omap_assign split: option.splits)

lemma omap_wf_filter [intro]: "omap_wf m \<Longrightarrow> omap_wf (filter P m)"
  by (simp add: omap_wf_def sorted_wrt_filter sorted_wrt_map)

lemma omap_wf_erase [omap_simps, intro]: "omap_wf m \<Longrightarrow> omap_wf (omap_erase k m)"
  by (auto simp: omap_erase_def)

lemma map_of_omap_erase [omap_simps]: "map_of (omap_erase k m) = (map_of m)(k := None)"
  by (induction m) (auto simp: omap_erase_def fun_eq_iff)

lemma omap_insert_snoc:
  "omap_wf (m @ [(k, v)]) \<Longrightarrow> omap_insert k v m = m @ [(k, v)]"
proof -
  assume wf: "omap_wf (m @ [(k, v)])"
  then have less: "\<forall>k' \<in> fst ` set m. k' < k"
    by (auto simp: omap_wf_def sorted_wrt_append)
  then have "map_of m k = None"
    by (auto simp: map_of_eq_None_iff)
  moreover have "\<forall>k' \<in> fst ` set m. k' < k \<Longrightarrow> omap_assign k v m = m @ [(k, v)]"
    by (induction k v m rule: omap_assign.induct) auto
  ultimately show ?thesis
    using less by (simp add: omap_insert_def)
qed

text \<open>
  The contract of \<^verbatim>\<open>std::map\<close> that the client and the modules rely on, and what follows
  from it for a sequence of registrations.
\<close>

locale ordered_map =
  fixes lookup :: "'m \<Rightarrow> 'k \<Rightarrow> 'v option"
    and assign :: "'k \<Rightarrow> 'v \<Rightarrow> 'm \<Rightarrow> 'm"
    and erase :: "'k \<Rightarrow> 'm \<Rightarrow> 'm"
    and invar :: "'m \<Rightarrow> bool"
  assumes lookup_assign: "invar m \<Longrightarrow> lookup (assign k v m) = (lookup m)(k \<mapsto> v)"
    and lookup_erase: "invar m \<Longrightarrow> lookup (erase k m) = (lookup m)(k := None)"
    and invar_assign: "invar m \<Longrightarrow> invar (assign k v m)"
    and invar_erase: "invar m \<Longrightarrow> invar (erase k m)"
begin

lemma erase_after_assign:
  "invar m \<Longrightarrow> lookup (erase k (assign k v m)) = (lookup m)(k := None)"
  by (simp add: lookup_assign lookup_erase invar_assign)

lemma last_assign_wins:
  "invar m \<Longrightarrow> lookup (assign k v (assign k v' m)) = (lookup m)(k \<mapsto> v)"
  by (simp add: lookup_assign invar_assign)

lemma assign_commute:
  "invar m \<Longrightarrow> k \<noteq> k' \<Longrightarrow>
     lookup (assign k v (assign k' v' m)) = lookup (assign k' v' (assign k v m))"
  by (simp add: lookup_assign invar_assign fun_upd_twist)

lemma invar_fold_assign: "invar m \<Longrightarrow> invar (fold (\<lambda>(k, v). assign k v) kvs m)"
  by (induction kvs arbitrary: m) (auto simp: invar_assign)

lemma lookup_fold_assign:
  "invar m \<Longrightarrow> lookup (fold (\<lambda>(k, v). assign k v) kvs m) = lookup m ++ map_of (rev kvs)"
  by (induction kvs arbitrary: m)
     (auto simp: lookup_assign invar_assign map_add_upd_left map_add_def fun_eq_iff
           split: option.splits)

end

interpretation om: ordered_map map_of omap_assign omap_erase omap_wf
  by unfold_locales (auto simp: omap_simps)

section \<open>Little-endian encodings\<close>

primrec nat_le :: "nat \<Rightarrow> nat \<Rightarrow> byte list" where
  "nat_le 0 k = []"
| "nat_le (Suc n) k = of_nat (k mod 256) # nat_le n (k div 256)"

primrec le_nat :: "byte list \<Rightarrow> nat" where
  "le_nat [] = 0"
| "le_nat (b # bs) = unat b + 256 * le_nat bs"

lemma length_nat_le [simp]: "length (nat_le n k) = n"
  by (induction n arbitrary: k) auto

lemma unat_of_nat_byte: "unat (of_nat (k mod 256) :: byte) = k mod 256"
  by (simp add: unat_of_nat)

lemma le_nat_nat_le: "le_nat (nat_le n k) = k mod 256 ^ n"
proof (induction n arbitrary: k)
  case (Suc n)
  have "k mod 256 + 256 * (k div 256 mod 256 ^ n) = k mod (256 * 256 ^ n)"
    by (simp add: mod_mult2_eq)
  then show ?case
    using Suc.IH by (simp add: unat_of_nat_byte)
qed simp

text \<open>\<open>size_t\<close> (8 bytes), \<open>int\<close> (4 bytes, two's complement) and \<open>long\<close> (8 bytes).\<close>

definition enc_size :: "size_t \<Rightarrow> byte list" where
  "enc_size w = nat_le 8 (unat w)"

definition dec_size :: "byte list \<Rightarrow> size_t" where
  "dec_size bs = of_nat (le_nat bs)"

definition enc_int :: "int \<Rightarrow> byte list" where
  "enc_int i = nat_le 4 (unat (word_of_int i :: 32 word))"

definition dec_int :: "byte list \<Rightarrow> int" where
  "dec_int bs = sint (of_nat (le_nat bs) :: 32 word)"

definition enc_long :: "int \<Rightarrow> byte list" where
  "enc_long i = nat_le 8 (unat (word_of_int i :: 64 word))"

definition dec_long :: "byte list \<Rightarrow> int" where
  "dec_long bs = sint (of_nat (le_nat bs) :: 64 word)"

definition is_long :: "int \<Rightarrow> bool" where
  "is_long i \<longleftrightarrow> - (2 ^ 63) \<le> i \<and> i < 2 ^ 63"

text \<open>
  A fixed-width codec: every value of the domain is written to the same number of bytes and
  read back. A table of such values is then addressed by position.
\<close>

locale byte_codec =
  fixes enc :: "'a \<Rightarrow> byte list"
    and dec :: "byte list \<Rightarrow> 'a"
    and width :: nat
    and dom_ok :: "'a \<Rightarrow> bool"
  assumes length_enc: "length (enc x) = width"
    and dec_enc: "dom_ok x \<Longrightarrow> dec (enc x) = x"
begin

lemma length_table: "length (concat (map enc xs)) = width * length xs"
  by (induction xs) (auto simp: length_enc)

lemma drop_table: "drop (width * i) (concat (map enc xs)) = concat (map enc (drop i xs))"
proof (induction xs arbitrary: i)
  case (Cons x xs)
  show ?case
  proof (cases i)
    case (Suc j)
    have "drop (width * Suc j) (enc x @ concat (map enc xs)) =
        drop (width * j) (concat (map enc xs))"
      by (simp add: length_enc)
    then show ?thesis
      using Cons.IH Suc by simp
  qed simp
qed simp

lemma dec_take: "dom_ok x \<Longrightarrow> dec (take width (enc x @ bs)) = x"
  by (simp add: length_enc dec_enc)

lemma table_nth:
  assumes "i < length xs" and "dom_ok (xs ! i)"
  shows "dec (take width (drop (width * i) (concat (map enc xs)))) = xs ! i"
proof -
  have "drop i xs = xs ! i # drop (Suc i) xs"
    using assms(1) by (simp add: Cons_nth_drop_Suc)
  then show ?thesis
    using assms(2) by (simp add: drop_table length_enc dec_enc)
qed

end

lemma word_of_nat_mod_id: "(of_nat (unat w mod 2 ^ LENGTH('a)) :: 'a::len word) = w"
  by (simp add: mod_less)

lemma dec_size_enc_size [codec_simps]: "dec_size (enc_size w) = w"
  by (simp add: dec_size_def enc_size_def le_nat_nat_le word_of_nat_mod_id [where 'a = 64, simplified])

lemma le_nat_enc_word:
  "(of_nat (le_nat (nat_le n (unat (w :: 'a::len word)))) :: 'a word) = w"
  if "2 ^ LENGTH('a) \<le> (256 :: nat) ^ n"
proof -
  have "unat w < 2 ^ LENGTH('a)"
    by (rule unsigned_less)
  with that have "unat w < 256 ^ n"
    by linarith
  then show ?thesis
    by (simp add: le_nat_nat_le)
qed

lemma dec_int_enc_int [codec_simps]: "is_int32 i \<Longrightarrow> dec_int (enc_int i) = i"
  by (simp add: dec_int_def enc_int_def le_nat_enc_word signed_take_bit_int_eq_self_iff is_int32_def
      sint_sbintrunc')

lemma dec_long_enc_long [codec_simps]: "is_long i \<Longrightarrow> dec_long (enc_long i) = i"
  by (simp add: dec_long_def enc_long_def le_nat_enc_word signed_take_bit_int_eq_self_iff is_long_def
      sint_sbintrunc')

lemma length_enc_size [simp]: "length (enc_size w) = 8"
  by (simp add: enc_size_def)

lemma length_enc_int [simp]: "length (enc_int i) = 4"
  by (simp add: enc_int_def)

lemma length_enc_long [simp]: "length (enc_long i) = 8"
  by (simp add: enc_long_def)

interpretation size_codec: byte_codec enc_size dec_size 8 "\<lambda>_. True"
  by unfold_locales (simp_all add: codec_simps)

interpretation int_codec: byte_codec enc_int dec_int 4 is_int32
  by unfold_locales (simp_all add: codec_simps)

interpretation long_codec: byte_codec enc_long dec_long 8 is_long
  by unfold_locales (simp_all add: codec_simps)

section \<open>Decimal text\<close>

definition is_digit :: "char \<Rightarrow> bool" where
  "is_digit c \<longleftrightarrow> 48 \<le> (of_char c :: nat) \<and> (of_char c :: nat) \<le> 57"

definition digit_char :: "nat \<Rightarrow> char" where
  "digit_char d = char_of (48 + d)"

definition digit_val :: "char \<Rightarrow> nat" where
  "digit_val c = of_char c - 48"

fun nat_text :: "nat \<Rightarrow> string" where
  "nat_text n = (if n < 10 then [digit_char n] else nat_text (n div 10) @ [digit_char (n mod 10)])"

declare nat_text.simps [simp del]

text \<open>\<^verbatim>\<open>std::to_string\<close> of an \<open>int\<close>.\<close>

definition to_string :: "int \<Rightarrow> string" where
  "to_string i = (if i < 0 then CHR ''-'' # nat_text (nat (- i)) else nat_text (nat i))"

definition text_nat :: "string \<Rightarrow> nat" where
  "text_nat s = foldl (\<lambda>n c. 10 * n + digit_val c) 0 s"

text \<open>\<^verbatim>\<open>std::stoi\<close> on a text made of digits only: the exception is its range check.\<close>

definition stoi :: "string \<Rightarrow> int res" where
  "stoi s = (let n = int (text_nat s) in if n \<le> int_max then Inr n else Inl OutOfRange)"

lemma of_char_digit_char: "d < 10 \<Longrightarrow> (of_char (digit_char d) :: nat) = 48 + d"
  by (simp add: digit_char_def of_char_of)

lemma digit_char_digit: "d < 10 \<Longrightarrow> is_digit (digit_char d)"
  by (simp add: is_digit_def of_char_digit_char)

lemma digit_val_digit_char: "d < 10 \<Longrightarrow> digit_val (digit_char d) = d"
  by (simp add: digit_val_def of_char_digit_char)

lemma nat_text_nonempty [simp]: "nat_text n \<noteq> []"
  by (subst nat_text.simps) simp

lemma nat_text_digits: "list_all is_digit (nat_text n)"
proof (induction n rule: nat_text.induct)
  case (1 n)
  then show ?case
    by (subst nat_text.simps) (auto simp: digit_char_digit)
qed

lemma text_nat_nat_text: "text_nat (nat_text n) = n"
proof (induction n rule: nat_text.induct)
  case (1 n)
  show ?case
  proof (cases "n < 10")
    case True
    then show ?thesis
      by (subst nat_text.simps) (simp add: text_nat_def digit_val_digit_char)
  next
    case False
    with "1.IH" have "foldl (\<lambda>n c. 10 * n + digit_val c) 0 (nat_text (n div 10)) = n div 10"
      by (simp add: text_nat_def)
    with False show ?thesis
      by (subst nat_text.simps) (simp add: text_nat_def digit_val_digit_char)
  qed
qed

lemma nat_text_inject [simp]: "nat_text m = nat_text n \<longleftrightarrow> m = n"
  using text_nat_nat_text by metis

lemma stoi_to_string: "0 \<le> i \<Longrightarrow> i \<le> int_max \<Longrightarrow> stoi (to_string i) = Inr i"
  by (simp add: stoi_def to_string_def text_nat_nat_text Let_def)

lemma to_string_digits: "0 \<le> i \<Longrightarrow> list_all is_digit (to_string i)"
  by (simp add: to_string_def nat_text_digits)

lemma to_string_nonempty [simp]: "to_string i \<noteq> []"
  by (simp add: to_string_def)

lemma is_digit_dash [simp]: "\<not> is_digit CHR ''-''"
  by (simp add: is_digit_def)

lemma is_digit_dot [simp]: "\<not> is_digit CHR ''.''"
  by (simp add: is_digit_def)

lemma is_digit_slash [simp]: "\<not> is_digit CHR ''/''"
  by (simp add: is_digit_def)

lemma to_string_inject [simp]: "to_string i = to_string j \<longleftrightarrow> i = j"
proof
  assume eq: "to_string i = to_string j"
  have sign: "(hd (to_string k) = CHR ''-'') = (k < 0)" for k
  proof (cases "k < 0")
    case False
    then have "list_all is_digit (to_string k)"
      by (simp add: to_string_digits)
    then have "is_digit (hd (to_string k))"
      using to_string_nonempty [of k] by (cases "to_string k") auto
    with False show ?thesis by auto
  qed (simp add: to_string_def)
  have "(i < 0) = (j < 0)"
    using sign [of i] sign [of j] eq by simp
  with eq show "i = j"
    by (auto simp: to_string_def split: if_splits)
qed simp

text \<open>Splitting a text at the end of its leading run of digits.\<close>

lemma takeWhile_digits: "list_all is_digit ds \<Longrightarrow> \<not> is_digit c \<Longrightarrow>
    takeWhile is_digit (ds @ c # s) = ds \<and> dropWhile is_digit (ds @ c # s) = c # s"
  by (induction ds) auto

end
