(* ===== verification/Posix_Fs.thy ===== *)
theory Posix_Fs
  imports Veloc_Prelude
begin

text \<open>
  The POSIX file interface the sources call through libc: \<^verbatim>\<open>open\<close>, \<^verbatim>\<open>pread\<close>, \<^verbatim>\<open>pwrite\<close>,
  \<^verbatim>\<open>stat\<close>, \<^verbatim>\<open>access\<close>, \<^verbatim>\<open>unlink\<close>, \<^verbatim>\<open>symlink\<close>, \<^verbatim>\<open>mkdir\<close>, \<^verbatim>\<open>readdir\<close>, \<^verbatim>\<open>copy_file_range\<close>, and the
  part of \<^verbatim>\<open>std::fstream\<close> that works on whole files. A file system is a finite table from
  absolute paths to nodes. Besides the table its state carries the environment's choices, so
  that every error path of the sources can be taken: paths whose opening for reading or
  writing is refused, paths whose data transfers fail, and how many bytes the kernel moves
  per request (at least one when there is something to move). Symbolic links are followed
  in the last component only, at most 40 times. The root directory is the empty parent of
  \<^verbatim>\<open>/x\<close>; no call succeeds on the empty path itself. A descriptor is the resolved path it was opened on. The record is
  left open, so that a component with state of its own beside the files (a key-value store,
  say) extends it; every operation here is polymorphic in that extension.
\<close>

section \<open>The state\<close>

datatype node = Reg "byte list" | Lnk string | Dir

record fsys =
  nodes :: "(string \<times> node) list"
  deny_read :: "string \<Rightarrow> bool"
  deny_write :: "string \<Rightarrow> bool"
  io_error :: "string \<Rightarrow> bool"
  rd_chunk :: "nat \<Rightarrow> nat"
  wr_chunk :: "nat \<Rightarrow> nat"

text \<open>A file system without faults that moves every byte it is asked to.\<close>

definition healthy :: "(string \<times> node) list \<Rightarrow> fsys" where
  "healthy ns = \<lparr>nodes = ns, deny_read = (\<lambda>_. False), deny_write = (\<lambda>_. False),
     io_error = (\<lambda>_. False), rd_chunk = (\<lambda>n. n), wr_chunk = (\<lambda>n. n)\<rparr>"

definition node_at :: "'x fsys_scheme \<Rightarrow> string \<Rightarrow> node option" where
  "node_at fs p = map_of (nodes fs) p"

definition set_node :: "string \<Rightarrow> node \<Rightarrow> 'x fsys_scheme \<Rightarrow> 'x fsys_scheme" where
  "set_node p n fs = fs\<lparr>nodes := AList.update p n (nodes fs)\<rparr>"

definition del_node :: "string \<Rightarrow> 'x fsys_scheme \<Rightarrow> 'x fsys_scheme" where
  "del_node p fs = fs\<lparr>nodes := AList.delete p (nodes fs)\<rparr>"

definition contents :: "'x fsys_scheme \<Rightarrow> string \<Rightarrow> byte list" where
  "contents fs p = (case node_at fs p of Some (Reg bs) \<Rightarrow> bs | _ \<Rightarrow> [])"

definition plain :: "'x fsys_scheme \<Rightarrow> string \<Rightarrow> bool" where
  "plain fs p = (case node_at fs p of Some (Lnk _) \<Rightarrow> False | _ \<Rightarrow> True)"

definition dirname :: "string \<Rightarrow> string" where
  "dirname p = rev (tl (dropWhile (\<lambda>c. c \<noteq> CHR ''/'') (rev p)))"

definition is_dir :: "'x fsys_scheme \<Rightarrow> string \<Rightarrow> bool" where
  "is_dir fs d \<longleftrightarrow> d = '''' \<or> node_at fs d = Some Dir"

primrec resolve :: "nat \<Rightarrow> 'x fsys_scheme \<Rightarrow> string \<Rightarrow> string option" where
  "resolve 0 fs p = None"
| "resolve (Suc n) fs p = (case node_at fs p of Some (Lnk t) \<Rightarrow> resolve n fs t | _ \<Rightarrow> Some p)"

definition real_path :: "'x fsys_scheme \<Rightarrow> string \<Rightarrow> string option" where
  "real_path fs p = resolve 41 fs p"

section \<open>System calls\<close>

definition sys_open_rd :: "'x fsys_scheme \<Rightarrow> string \<Rightarrow> string option" where
  "sys_open_rd fs p =
     (case real_path fs p of
        None \<Rightarrow> None
      | Some q \<Rightarrow> (case node_at fs q of
            Some (Reg _) \<Rightarrow> if deny_read fs q then None else Some q
          | _ \<Rightarrow> None))"

text \<open>\<^verbatim>\<open>O_CREAT\<close>, with or without \<^verbatim>\<open>O_TRUNC\<close>.\<close>

definition sys_open_wr :: "bool \<Rightarrow> 'x fsys_scheme \<Rightarrow> string \<Rightarrow> (string \<times> 'x fsys_scheme) option" where
  "sys_open_wr trunc fs p =
     (case real_path fs p of
        None \<Rightarrow> None
      | Some q \<Rightarrow>
          if deny_write fs q then None
          else (case node_at fs q of
              Some (Reg _) \<Rightarrow> Some (q, if trunc then set_node q (Reg []) fs else fs)
            | None \<Rightarrow> if q \<noteq> '''' \<and> is_dir fs (dirname q) then Some (q, set_node q (Reg []) fs) else None
            | _ \<Rightarrow> None))"

definition clip :: "(nat \<Rightarrow> nat) \<Rightarrow> nat \<Rightarrow> nat" where
  "clip f k = (if k = 0 then 0 else max 1 (min k (f k)))"

definition write_at :: "byte list \<Rightarrow> nat \<Rightarrow> byte list \<Rightarrow> byte list" where
  "write_at c off bs =
     (if bs = [] then c
      else take off c @ replicate (off - length c) 0 @ bs @ drop (off + length bs) c)"

definition sys_pread :: "'x fsys_scheme \<Rightarrow> string \<Rightarrow> nat \<Rightarrow> nat \<Rightarrow> byte list option" where
  "sys_pread fs q n off =
     (if io_error fs q then None
      else let av = drop off (contents fs q); k = min n (length av)
           in Some (take (clip (rd_chunk fs) k) av))"

definition sys_pwrite :: "'x fsys_scheme \<Rightarrow> string \<Rightarrow> byte list \<Rightarrow> nat \<Rightarrow> (nat \<times> 'x fsys_scheme) option" where
  "sys_pwrite fs q bs off =
     (if io_error fs q then None
      else let k = clip (wr_chunk fs) (length bs)
           in Some (k, set_node q (Reg (write_at (contents fs q) off (take k bs))) fs))"

definition sys_copy_file_range ::
    "'x fsys_scheme \<Rightarrow> string \<Rightarrow> nat \<Rightarrow> string \<Rightarrow> nat \<Rightarrow> nat \<Rightarrow> (nat \<times> 'x fsys_scheme) option" where
  "sys_copy_file_range fs q soff q' doff n =
     (if io_error fs q \<or> io_error fs q' then None
      else let av = drop soff (contents fs q); k = clip (rd_chunk fs) (min n (length av))
           in Some (k, set_node q' (Reg (write_at (contents fs q') doff (take k av))) fs))"

text \<open>Size of a regular file; other nodes are not asked for their size.\<close>

definition sys_stat :: "'x fsys_scheme \<Rightarrow> string \<Rightarrow> nat option" where
  "sys_stat fs p =
     (case real_path fs p of
        None \<Rightarrow> None
      | Some q \<Rightarrow> (case node_at fs q of Some (Reg bs) \<Rightarrow> Some (length bs) | _ \<Rightarrow> None))"

text \<open>\<^verbatim>\<open>access(p, R_OK) == 0\<close>.\<close>

definition sys_access :: "'x fsys_scheme \<Rightarrow> string \<Rightarrow> bool" where
  "sys_access fs p =
     (case real_path fs p of
        None \<Rightarrow> False
      | Some q \<Rightarrow> node_at fs q \<noteq> None \<and> \<not> deny_read fs q)"

text \<open>\<^verbatim>\<open>unlink\<close>, and \<^verbatim>\<open>remove\<close> on a file: \<open>True\<close> is the return value 0. Links are not followed.\<close>

definition sys_unlink :: "'x fsys_scheme \<Rightarrow> string \<Rightarrow> bool \<times> 'x fsys_scheme" where
  "sys_unlink fs p =
     (case node_at fs p of
        Some (Reg _) \<Rightarrow> if deny_write fs p then (False, fs) else (True, del_node p fs)
      | Some (Lnk _) \<Rightarrow> if deny_write fs p then (False, fs) else (True, del_node p fs)
      | _ \<Rightarrow> (False, fs))"

definition sys_symlink :: "'x fsys_scheme \<Rightarrow> string \<Rightarrow> string \<Rightarrow> bool \<times> 'x fsys_scheme" where
  "sys_symlink fs target p =
     (if p \<noteq> '''' \<and> node_at fs p = None \<and> is_dir fs (dirname p) \<and> \<not> deny_write fs p
      then (True, set_node p (Lnk target) fs) else (False, fs))"

definition sys_mkdir :: "'x fsys_scheme \<Rightarrow> string \<Rightarrow> 'x fsys_scheme" where
  "sys_mkdir fs p =
     (if p \<noteq> '''' \<and> node_at fs p = None \<and> is_dir fs (dirname p) \<and> \<not> deny_write fs p
      then set_node p Dir fs else fs)"

definition sys_opendir :: "'x fsys_scheme \<Rightarrow> string \<Rightarrow> bool" where
  "sys_opendir fs p \<longleftrightarrow> p \<noteq> '''' \<and> is_dir fs p \<and> \<not> deny_read fs p"

definition strip_dir :: "string \<Rightarrow> string \<Rightarrow> string option" where
  "strip_dir d p =
     (let pre = d @ ''/''; nm = drop (length pre) p
      in if take (length pre) p = pre \<and> nm \<noteq> [] \<and> CHR ''/'' \<notin> set nm then Some nm else None)"

text \<open>The names \<^verbatim>\<open>readdir\<close> delivers with type \<^verbatim>\<open>DT_REG\<close> or \<^verbatim>\<open>DT_LNK\<close>, in the table's order.\<close>

definition sys_readdir :: "'x fsys_scheme \<Rightarrow> string \<Rightarrow> string list" where
  "sys_readdir fs d =
     List.map_filter (\<lambda>(p, n). if n = Dir then None else strip_dir d p) (nodes fs)"

section \<open>Laws\<close>

lemma node_at_set_node [simp]: "node_at (set_node p n fs) = (node_at fs)(p \<mapsto> n)"
  by (simp add: node_at_def [abs_def] set_node_def AList.update_conv' fun_eq_iff)

lemma node_at_del_node [simp]: "node_at (del_node p fs) = (node_at fs)(p := None)"
  by (simp add: node_at_def [abs_def] del_node_def AList.delete_conv' fun_eq_iff)

lemma set_node_faults [simp]:
  "deny_read (set_node p n fs) = deny_read fs"
  "deny_write (set_node p n fs) = deny_write fs"
  "io_error (set_node p n fs) = io_error fs"
  "rd_chunk (set_node p n fs) = rd_chunk fs"
  "wr_chunk (set_node p n fs) = wr_chunk fs"
  by (simp_all add: set_node_def)

lemma del_node_faults [simp]:
  "deny_read (del_node p fs) = deny_read fs"
  "deny_write (del_node p fs) = deny_write fs"
  "io_error (del_node p fs) = io_error fs"
  "rd_chunk (del_node p fs) = rd_chunk fs"
  "wr_chunk (del_node p fs) = wr_chunk fs"
  by (simp_all add: del_node_def)

lemma contents_set_node:
  "contents (set_node p n fs) q =
     (if q = p then (case n of Reg bs \<Rightarrow> bs | _ \<Rightarrow> []) else contents fs q)"
  by (simp add: contents_def split: node.splits)

lemma plain_iff: "plain fs p \<longleftrightarrow> (\<forall>t. node_at fs p \<noteq> Some (Lnk t))"
  by (auto simp: plain_def split: option.splits node.splits)

lemma real_path_self:
  "(\<And>t. node_at fs p \<noteq> Some (Lnk t)) \<Longrightarrow> real_path fs p = Some p"
  by (auto simp: real_path_def numeral_eq_Suc split: option.splits node.splits)

lemma real_path_link:
  "node_at fs p = Some (Lnk t) \<Longrightarrow> (\<And>u. node_at fs t \<noteq> Some (Lnk u)) \<Longrightarrow> real_path fs p = Some t"
  by (auto simp: real_path_def numeral_eq_Suc split: option.splits node.splits)

lemma clip_pos: "0 < k \<Longrightarrow> 0 < clip f k"
  by (simp add: clip_def)

lemma clip_le: "clip f k \<le> k"
  by (simp add: clip_def)

lemma clip_id [simp]: "clip (\<lambda>n. n) k = k"
  by (simp add: clip_def)

lemma length_write_at:
  "length (write_at c off bs) = (if bs = [] then length c else max (length c) (off + length bs))"
  by (auto simp: write_at_def)

lemma nth_write_at:
  assumes "bs \<noteq> []" and "i < max (length c) (off + length bs)"
  shows "write_at c off bs ! i =
    (if off \<le> i \<and> i < off + length bs then bs ! (i - off)
     else if i < length c then c ! i else 0)"
  using assms by (auto simp: write_at_def nth_append min_def)

lemma write_at_append:
  "write_at (write_at c off as) (off + length as) bs = write_at c off (as @ bs)"
proof (cases "as = [] \<or> bs = []")
  case False
  show ?thesis
  proof (rule nth_equalityI)
    show len: "length (write_at (write_at c off as) (off + length as) bs) =
        length (write_at c off (as @ bs))"
      using False by (simp add: length_write_at)
    fix i
    assume "i < length (write_at (write_at c off as) (off + length as) bs)"
    then show "write_at (write_at c off as) (off + length as) bs ! i = write_at c off (as @ bs) ! i"
      using False by (auto simp: nth_write_at length_write_at nth_append split: if_splits)
  qed
qed (auto simp: write_at_def)

lemma write_at_read: "take (length bs) (drop off (write_at c off bs)) = bs" if "bs \<noteq> []"
  using that by (auto simp: write_at_def min_def)

lemma write_at_Nil_0 [simp]: "write_at [] 0 bs = bs"
  by (simp add: write_at_def)

lemma write_at_cover: "length c \<le> length bs \<Longrightarrow> write_at c 0 bs = bs"
  by (auto simp: write_at_def)

lemma write_at_longer: "bs \<noteq> [] \<Longrightarrow> write_at c 0 bs = bs @ drop (length bs) c"
  by (simp add: write_at_def)

lemma write_at_empty [simp]: "write_at c off [] = c"
  by (simp add: write_at_def)

subsection \<open>Paths\<close>

lemma dirname_join:
  assumes "CHR ''/'' \<notin> set nm"
  shows "dirname (d @ CHR ''/'' # nm) = d"
proof -
  have "dropWhile (\<lambda>c. c \<noteq> CHR ''/'') (rev nm @ CHR ''/'' # rev d) = CHR ''/'' # rev d"
    using assms by (subst dropWhile_append2) auto
  then show ?thesis
    by (simp add: dirname_def)
qed

lemma strip_dir_join: "nm \<noteq> [] \<Longrightarrow> CHR ''/'' \<notin> set nm \<Longrightarrow> strip_dir d (d @ CHR ''/'' # nm) = Some nm"
  by (simp add: strip_dir_def)

lemma strip_dir_Some: "strip_dir d p = Some nm \<Longrightarrow> p = d @ CHR ''/'' # nm \<and> nm \<noteq> [] \<and> CHR ''/'' \<notin> set nm"
proof -
  assume st: "strip_dir d p = Some nm"
  then have nm: "take (length (d @ ''/'')) p = d @ ''/''" "drop (length (d @ ''/'')) p = nm"
      "nm \<noteq> []" "CHR ''/'' \<notin> set nm"
    by (auto simp: strip_dir_def Let_def split: if_splits)
  have "p = (d @ ''/'') @ nm"
    using nm(1,2) append_take_drop_id [of "length (d @ ''/'')" p] by metis
  with nm(3,4) show ?thesis
    by simp
qed

text \<open>A table that names every path at most once.\<close>

definition fs_wf :: "'x fsys_scheme \<Rightarrow> bool" where
  "fs_wf fs \<longleftrightarrow> distinct (map fst (nodes fs))"

lemma fs_wf_set_node [intro]: "fs_wf fs \<Longrightarrow> fs_wf (set_node p n fs)"
  by (simp add: fs_wf_def set_node_def AList.distinct_update)

lemma fs_wf_del_node [intro]: "fs_wf fs \<Longrightarrow> fs_wf (del_node p fs)"
  by (simp add: fs_wf_def del_node_def AList.distinct_delete)

lemma set_map_filter: "set (List.map_filter f xs) = {y. \<exists>x \<in> set xs. f x = Some y}"
  by (induction xs) (auto simp: List.map_filter_simps split: option.splits)

lemma set_readdir:
  assumes "fs_wf fs"
  shows "set (sys_readdir fs d) =
    {nm. nm \<noteq> [] \<and> CHR ''/'' \<notin> set nm \<and>
         (\<exists>n. node_at fs (d @ CHR ''/'' # nm) = Some n \<and> n \<noteq> Dir)}"
proof -
  have mem: "(p, n) \<in> set (nodes fs) \<longleftrightarrow> node_at fs p = Some n" for p n
    using assms by (simp add: fs_wf_def node_at_def)
  have "nm \<in> set (sys_readdir fs d) \<longleftrightarrow>
      (\<exists>p n. node_at fs p = Some n \<and> n \<noteq> Dir \<and> strip_dir d p = Some nm)" for nm
    by (auto simp: sys_readdir_def set_map_filter mem [symmetric] intro: rev_bexI split: if_splits) blast
  then show ?thesis
    by (auto dest!: strip_dir_Some) (metis strip_dir_join)
qed

subsection \<open>Without faults\<close>

definition faultless :: "'x fsys_scheme \<Rightarrow> bool" where
  "faultless fs \<longleftrightarrow> deny_read fs = (\<lambda>_. False) \<and> deny_write fs = (\<lambda>_. False) \<and>
     io_error fs = (\<lambda>_. False) \<and> rd_chunk fs = (\<lambda>n. n) \<and> wr_chunk fs = (\<lambda>n. n)"

lemma faultless_healthy [simp]: "faultless (healthy ns)"
  by (simp add: faultless_def healthy_def)

lemma faultless_nodes [simp]: "faultless (set_node p n fs) = faultless fs" "faultless (del_node p fs) = faultless fs"
  by (simp_all add: faultless_def)

lemma nodes_healthy [simp]: "node_at (healthy ns) = map_of ns" "fs_wf (healthy ns) = distinct (map fst ns)"
  by (simp_all add: node_at_def [abs_def] fs_wf_def healthy_def)

lemma faults_healthy [simp]:
  "deny_read (healthy ns) = (\<lambda>_. False)" "deny_write (healthy ns) = (\<lambda>_. False)"
  "io_error (healthy ns) = (\<lambda>_. False)" "rd_chunk (healthy ns) = (\<lambda>n. n)" "wr_chunk (healthy ns) = (\<lambda>n. n)"
  by (simp_all add: healthy_def)

lemma open_rd_faultless: "faultless fs \<Longrightarrow> node_at fs p = Some (Reg bs) \<Longrightarrow> sys_open_rd fs p = Some p"
  using real_path_self [of fs p] by (simp add: sys_open_rd_def faultless_def)

lemma open_wr_new:
  "faultless fs \<Longrightarrow> node_at fs p = None \<Longrightarrow> p \<noteq> '''' \<Longrightarrow> is_dir fs (dirname p) \<Longrightarrow>
     sys_open_wr tr fs p = Some (p, set_node p (Reg []) fs)"
  using real_path_self [of fs p] by (simp add: sys_open_wr_def faultless_def)

lemma open_wr_old:
  "faultless fs \<Longrightarrow> node_at fs p = Some (Reg bs) \<Longrightarrow>
     sys_open_wr tr fs p = Some (p, if tr then set_node p (Reg []) fs else fs)"
  using real_path_self [of fs p] by (simp add: sys_open_wr_def faultless_def)

lemma pread_faultless: "faultless fs \<Longrightarrow> sys_pread fs q n off = Some (take n (drop off (contents fs q)))"
  by (auto simp: sys_pread_def faultless_def Let_def min_def)

lemma pwrite_faultless:
  "faultless fs \<Longrightarrow> sys_pwrite fs q bs off =
     Some (length bs, set_node q (Reg (write_at (contents fs q) off bs)) fs)"
  by (simp add: sys_pwrite_def faultless_def Let_def)

lemma unlink_faultless: "faultless fs \<Longrightarrow> node_at fs p = Some (Reg bs) \<Longrightarrow> sys_unlink fs p = (True, del_node p fs)"
  by (simp add: sys_unlink_def faultless_def)

end
