(* ===== verification/Ini_Reader.thy ===== *)
theory Ini_Reader
  imports Posix_Fs
begin

text \<open>
  The configuration file reader \<^verbatim>\<open>src/src/common/INIReader.h\<close> (inih and its C++ wrapper), with
  the switches it is compiled with: byte-order mark, continuation lines and inline comments
  allowed, a line buffer of 200 characters, and a stop at the first error. A \<^verbatim>\<open>char*\<close> that walks
  through the line buffer is the rest of the line from there; writing the terminating zero at
  a position is taking the part before it. Text is a list of characters; a zero byte in the
  file ends the C string of its line.
\<close>

section \<open>Text\<close>

definition isspace :: "char \<Rightarrow> bool" where
  "isspace c \<longleftrightarrow> c = CHR '' '' \<or> (CHR 0x09 \<le> c \<and> c \<le> CHR 0x0D)"

definition tolower :: "char \<Rightarrow> char" where
  "tolower c = (if CHR ''A'' \<le> c \<and> c \<le> CHR ''Z'' then char_of ((of_char c :: nat) + 32) else c)"

definition toupper :: "char \<Rightarrow> char" where
  "toupper c = (if CHR ''a'' \<le> c \<and> c \<le> CHR ''z'' then char_of ((of_char c :: nat) - 32) else c)"

definition text_of :: "byte list \<Rightarrow> string" where
  "text_of bs = map (\<lambda>b. char_of (unat b)) bs"

definition bytes_of :: "string \<Rightarrow> byte list" where
  "bytes_of s = map (\<lambda>c. of_nat (of_char c)) s"

definition cstr :: "string \<Rightarrow> string" where
  "cstr s = takeWhile (\<lambda>c. c \<noteq> CHR 0x00) s"

section \<open>Scanning a line\<close>

definition rstrip :: "string \<Rightarrow> string" where
  "rstrip s = rev (dropWhile isspace (rev s))"

definition lskip :: "string \<Rightarrow> string" where
  "lskip s = dropWhile isspace s"

text \<open>
  \<^verbatim>\<open>find_chars_or_comment\<close>: the text before the position found and the text from there. An
  empty \<open>chars\<close> is the null pointer.
\<close>

fun find_from :: "bool \<Rightarrow> string \<Rightarrow> string \<Rightarrow> string \<times> string" where
  "find_from was_space chars [] = ([], [])"
| "find_from was_space chars (c # s) =
     (if c \<in> set chars \<or> (was_space \<and> c = CHR '';'') then ([], c # s)
      else (case find_from (isspace c) chars s of (a, b) \<Rightarrow> (c # a, b)))"

definition find_chars_or_comment :: "string \<Rightarrow> string \<Rightarrow> string \<times> string" where
  "find_chars_or_comment s chars = find_from False chars s"

definition strncpy0 :: "string \<Rightarrow> nat \<Rightarrow> string" where
  "strncpy0 src size_dest = take (size_dest - 1) src"

abbreviation INI_MAX_LINE :: nat where "INI_MAX_LINE \<equiv> 200"
abbreviation MAX_SECTION :: nat where "MAX_SECTION \<equiv> 50"
abbreviation MAX_NAME :: nat where "MAX_NAME \<equiv> 50"

text \<open>\<^verbatim>\<open>fgets\<close>: up to \<open>n - 1\<close> characters, ending after a newline; the rest of the stream.\<close>

fun fgets_upto :: "nat \<Rightarrow> string \<Rightarrow> string \<times> string" where
  "fgets_upto 0 s = ([], s)"
| "fgets_upto (Suc n) [] = ([], [])"
| "fgets_upto (Suc n) (c # s) =
     (if c = CHR 0x0A then ([c], s) else (case fgets_upto n s of (l, r) \<Rightarrow> (c # l, r)))"

definition fgets :: "nat \<Rightarrow> string \<Rightarrow> (string \<times> string) option" where
  "fgets n s = (if s = [] then None else Some (fgets_upto (n - 1) s))"

section \<open>The parser\<close>

text \<open>The section and \<open>prev_name\<close> are the two buffers; \<open>user\<close> is what the handler works on.\<close>

record 'u ini_state =
  ini_section :: string
  prev_name :: string
  user :: 'u

type_synonym 'u handler = "string \<Rightarrow> string \<Rightarrow> string \<Rightarrow> 'u \<Rightarrow> bool \<times> 'u"

text \<open>The body of the loop for one line: whether it is an error, and the new state.\<close>

definition ini_line :: "'u handler \<Rightarrow> nat \<Rightarrow> string \<Rightarrow> 'u ini_state \<Rightarrow> bool \<times> 'u ini_state" where
  "ini_line handler lineno buf st =
     (let line = cstr buf;
          bom = (lineno = 1 \<and> take 3 line = [CHR 0xEF, CHR 0xBB, CHR 0xBF]);
          stripped = rstrip (if bom then drop 3 line else line);
          start = lskip stripped;
          moved = (bom \<or> start \<noteq> stripped)
      in if start \<noteq> [] \<and> (hd start = CHR '';'' \<or> hd start = CHR ''#'') then (False, st)
         else if prev_name st \<noteq> [] \<and> start \<noteq> [] \<and> moved then
           (let val = rstrip (fst (find_chars_or_comment start []))
            in case handler (ini_section st) (prev_name st) val (user st) of
                 (ok, u) \<Rightarrow> (\<not> ok, st\<lparr>user := u\<rparr>))
         else if start \<noteq> [] \<and> hd start = CHR ''['' then
           (case find_chars_or_comment (tl start) '']'' of
              (nm, e) \<Rightarrow>
                if e \<noteq> [] \<and> hd e = CHR '']''
                then (False, st\<lparr>ini_section := strncpy0 nm MAX_SECTION, prev_name := []\<rparr>)
                else (True, st))
         else if start \<noteq> [] then
           (case find_chars_or_comment start ''=:'' of
              (a, e) \<Rightarrow>
                if e \<noteq> [] \<and> (hd e = CHR ''='' \<or> hd e = CHR '':'') then
                  (let nm = rstrip a; val = rstrip (fst (find_chars_or_comment (lskip (tl e)) []))
                   in case handler (ini_section st) nm val (user st) of
                        (ok, u) \<Rightarrow> (\<not> ok, st\<lparr>prev_name := strncpy0 nm MAX_NAME, user := u\<rparr>))
                else (True, st))
         else (False, st))"

lemma fgets_upto_length: "fgets_upto n s = (l, r) \<Longrightarrow> length l + length r = length s"
  by (induction n s arbitrary: l r rule: fgets_upto.induct) (auto split: if_splits prod.splits)

lemma fgets_shorter: "fgets n s = Some (l, r) \<Longrightarrow> 1 < n \<Longrightarrow> length r < length s"
proof -
  assume g: "fgets n s = Some (l, r)" and n: "1 < n"
  then obtain c s' m where s: "s = c # s'" and m: "n - 1 = Suc m" and f: "fgets_upto (Suc m) (c # s') = (l, r)"
    by (cases s; cases "n - 1") (auto simp: fgets_def)
  then have "l \<noteq> []"
    by (auto split: if_splits prod.splits)
  then show ?thesis
    using fgets_upto_length [OF f] s by (cases l) auto
qed

text \<open>\<^verbatim>\<open>ini_parse_stream\<close>: 0, or the number of the line with the first error.\<close>

function ini_parse_stream :: "'u handler \<Rightarrow> nat \<Rightarrow> string \<Rightarrow> 'u ini_state \<Rightarrow> nat \<times> 'u ini_state" where
  "ini_parse_stream handler lineno stream st =
     (case fgets INI_MAX_LINE stream of
        None \<Rightarrow> (0, st)
      | Some (line, rest) \<Rightarrow>
          (case ini_line handler (lineno + 1) line st of
             (err, st') \<Rightarrow>
               if err then (lineno + 1, st')
               else ini_parse_stream handler (lineno + 1) rest st'))"
  by pat_completeness auto
termination
  by (relation "measure (\<lambda>(_, _, s, _). length s)") (auto dest: fgets_shorter)

declare ini_parse_stream.simps [simp del]

text \<open>\<^verbatim>\<open>ini_parse\<close>: -1 when the file cannot be opened. A read error ends the stream.\<close>

definition ini_parse :: "'x fsys_scheme \<Rightarrow> string \<Rightarrow> 'u handler \<Rightarrow> 'u \<Rightarrow> int \<times> 'u" where
  "ini_parse fs fname handler u =
     (case sys_open_rd fs fname of
        None \<Rightarrow> (- 1, u)
      | Some q \<Rightarrow>
          (case ini_parse_stream handler 0 (if io_error fs q then [] else text_of (contents fs q))
                  \<lparr>ini_section = [], prev_name = [], user = u\<rparr> of
             (err, st) \<Rightarrow> (int err, user st)))"

section \<open>The C++ wrapper\<close>

record ini_reader =
  ini_error :: int
  ini_values :: "(string \<times> string) list"
  ini_sections :: "string list"

definition MakeKey :: "string \<Rightarrow> string \<Rightarrow> string" where
  "MakeKey sec nm = map tolower (sec @ ''='' @ nm)"

text \<open>\<^verbatim>\<open>ValueHandler\<close>: values of the same key are joined by newlines.\<close>

definition ValueHandler :: "(((string \<times> string) list) \<times> string list) handler" where
  "ValueHandler sec nm val u =
     (let key = MakeKey sec nm;
          old = (case map_of (fst u) key of None \<Rightarrow> [] | Some v \<Rightarrow> v)
      in (True, (AList.update key ((if old \<noteq> [] then old @ [CHR 0x0A] else []) @ val) (fst u),
                 List.insert sec (snd u))))"

definition new_INIReader :: "'x fsys_scheme \<Rightarrow> string \<Rightarrow> ini_reader" where
  "new_INIReader fs fname =
     (case ini_parse fs fname ValueHandler ([], []) of
        (err, (vals, secs)) \<Rightarrow> \<lparr>ini_error = err, ini_values = vals, ini_sections = secs\<rparr>)"

definition ini_get :: "ini_reader \<Rightarrow> string \<Rightarrow> string \<Rightarrow> string \<Rightarrow> string" where
  "ini_get r sec nm default_value =
     (case map_of (ini_values r) (MakeKey sec nm) of None \<Rightarrow> default_value | Some v \<Rightarrow> v)"

definition ini_get_boolean :: "ini_reader \<Rightarrow> string \<Rightarrow> string \<Rightarrow> bool \<Rightarrow> bool" where
  "ini_get_boolean r sec nm default_value =
     (let v = map tolower (ini_get r sec nm [])
      in if v \<in> {''true'', ''yes'', ''on'', ''1''} then True
         else if v \<in> {''false'', ''no'', ''off'', ''0''} then False
         else default_value)"

section \<open>Reading back a file of pairs\<close>

definition key_char :: "char \<Rightarrow> bool" where
  "key_char c \<longleftrightarrow> (CHR ''a'' \<le> c \<and> c \<le> CHR ''z'') \<or> (CHR ''A'' \<le> c \<and> c \<le> CHR ''Z'') \<or>
     (CHR ''0'' \<le> c \<and> c \<le> CHR ''9'') \<or> c = CHR ''_''"

definition value_char :: "char \<Rightarrow> bool" where
  "value_char c \<longleftrightarrow> c \<noteq> CHR 0x00 \<and> c \<noteq> CHR 0x0A \<and> c \<noteq> CHR '';''"

text \<open>A pair that fits the line buffer, with a value that neither starts nor ends with a blank.\<close>

definition pair_ok :: "string \<times> string \<Rightarrow> bool" where
  "pair_ok p \<longleftrightarrow> fst p \<noteq> [] \<and> list_all key_char (fst p) \<and> snd p \<noteq> [] \<and> list_all value_char (snd p) \<and>
     \<not> isspace (hd (snd p)) \<and> \<not> isspace (last (snd p)) \<and> length (fst p) + length (snd p) + 2 < INI_MAX_LINE"

definition render :: "string \<times> string \<Rightarrow> string" where
  "render p = fst p @ CHR ''='' # snd p @ [CHR 0x0A]"

lemma key_char_plain:
  "key_char c \<Longrightarrow> \<not> isspace c \<and> c \<noteq> CHR 0x00 \<and> c \<noteq> CHR 0x0A \<and> c \<noteq> CHR ''='' \<and> c \<noteq> CHR '':'' \<and>
     c \<noteq> CHR '';'' \<and> c \<noteq> CHR ''#'' \<and> c \<noteq> CHR ''['' \<and> c \<noteq> CHR 0xEF"
  by (auto simp: key_char_def isspace_def less_eq_char_def)

lemma fgets_upto_line:
  "CHR 0x0A \<notin> set l \<Longrightarrow> length l < n \<Longrightarrow> fgets_upto n (l @ CHR 0x0A # s) = (l @ [CHR 0x0A], s)"
proof (induction l arbitrary: n)
  case Nil
  then show ?case by (cases n) auto
next
  case (Cons c l)
  then show ?case by (cases n) auto
qed

lemma rstrip_space: "isspace c \<Longrightarrow> rstrip (s @ [c]) = rstrip s"
  by (simp add: rstrip_def)

lemma rstrip_id: "s = [] \<or> \<not> isspace (last s) \<Longrightarrow> rstrip s = s"
  by (cases s rule: rev_cases) (auto simp: rstrip_def)

lemma lskip_id: "s = [] \<or> \<not> isspace (hd s) \<Longrightarrow> lskip s = s"
  by (cases s) (auto simp: lskip_def)

lemma find_from_hit:
  "\<forall>x \<in> set a. x \<notin> set chars \<and> x \<noteq> CHR '';'' \<Longrightarrow> c \<in> set chars \<Longrightarrow> find_from b chars (a @ c # s) = (a, c # s)"
  by (induction a arbitrary: b) auto

lemma find_from_none: "\<forall>x \<in> set a. x \<noteq> CHR '';'' \<Longrightarrow> find_from b [] a = (a, [])"
  by (induction a arbitrary: b) auto

lemma cstr_id: "CHR 0x00 \<notin> set s \<Longrightarrow> cstr s = s"
  by (auto simp: cstr_def takeWhile_eq_all_conv)

lemma ini_line_pair:
  assumes "pair_ok (k, v)"
  shows "ini_line handler n (render (k, v)) st =
    (case handler (ini_section st) k v (user st) of
       (ok, u) \<Rightarrow> (\<not> ok, st\<lparr>prev_name := strncpy0 k MAX_NAME, user := u\<rparr>))"
proof -
  obtain k0 k' where k: "k = k0 # k'"
    using assms by (cases k) (auto simp: pair_ok_def)
  have kc: "\<And>c. c \<in> set k \<Longrightarrow> key_char c" and vc: "\<And>c. c \<in> set v \<Longrightarrow> value_char c" and v: "v \<noteq> []"
      "\<not> isspace (hd v)" "\<not> isspace (last v)"
    using assms by (auto simp: pair_ok_def list_all_iff)
  have kp: "key_char k0" "\<not> isspace (last k)"
    using kc k key_char_plain [of "last k"] by auto
  define l where "l = k @ CHR ''='' # v"
  define b where "b = l @ [CHR 0x0A]"
  have hd: "l \<noteq> []" "hd l = k0"
    by (simp_all add: l_def k)
  have c: "cstr (render (k, v)) = b"
    using kc vc key_char_plain by (subst cstr_id) (auto simp: b_def l_def render_def value_char_def)
  have "isspace (CHR 0x0A)"
    by (simp add: isspace_def less_eq_char_def)
  then have r: "rstrip b = l"
    using v unfolding b_def by (simp only: rstrip_space) (simp add: l_def rstrip_id)
  have s: "lskip l = l"
    using hd kp key_char_plain [of k0] by (intro lskip_id) auto
  have f: "find_chars_or_comment l ''=:'' = (k, CHR ''='' # v)"
    unfolding find_chars_or_comment_def l_def using kc key_char_plain by (intro find_from_hit) auto
  have g: "find_chars_or_comment v [] = (v, [])"
    unfolding find_chars_or_comment_def using vc by (intro find_from_none) (auto simp: value_char_def)
  have nobom: "take 3 b \<noteq> [CHR 0xEF, CHR 0xBB, CHR 0xBF]"
    using key_char_plain [OF kp(1)] by (auto simp: b_def l_def k)
  have "rstrip k = k" "rstrip v = v" "lskip v = v"
    using kp(2) v by (simp_all add: rstrip_id lskip_id)
  then show ?thesis
    using key_char_plain [OF kp(1)] unfolding ini_line_def c by (simp add: nobom r s f g hd)
qed

lemma parse_pairs:
  assumes "list_all pair_ok kvs" and "ini_section st = []"
  shows "\<exists>st'. ini_parse_stream ValueHandler n (concat (map render kvs)) st = (0, st') \<and>
    user st' = fold (\<lambda>(k, v) u. snd (ValueHandler [] k v u)) kvs (user st)"
  using assms
proof (induction kvs arbitrary: n st)
  case Nil
  then show ?case
    by (subst ini_parse_stream.simps) (simp add: fgets_def)
next
  case (Cons p kvs)
  obtain k v where p: "p = (k, v)"
    by fastforce
  let ?st = "st\<lparr>prev_name := strncpy0 k MAX_NAME, user := snd (ValueHandler [] k v (user st))\<rparr>"
  have ok: "pair_ok (k, v)"
    using Cons.prems(1) p by simp
  have "CHR 0x0A \<notin> set (k @ CHR ''='' # v)" "length (k @ CHR ''='' # v) < 199"
    using ok key_char_plain by (auto simp: pair_ok_def list_all_iff value_char_def)
  from fgets_upto_line [OF this] have "fgets INI_MAX_LINE (render (k, v) @ concat (map render kvs)) =
      Some (render (k, v), concat (map render kvs))"
    by (simp add: fgets_def render_def)
  moreover have "ini_line ValueHandler (n + 1) (render (k, v)) st = (False, ?st)"
    using ini_line_pair [OF ok, of ValueHandler "n + 1" st] Cons.prems(2) by (simp add: ValueHandler_def Let_def)
  ultimately have "ini_parse_stream ValueHandler n (concat (map render (p # kvs))) st =
      ini_parse_stream ValueHandler (n + 1) (concat (map render kvs)) ?st"
    unfolding p by (subst ini_parse_stream.simps) simp
  moreover have "\<exists>st'. ini_parse_stream ValueHandler (n + 1) (concat (map render kvs)) ?st = (0, st') \<and>
      user st' = fold (\<lambda>(k, v) u. snd (ValueHandler [] k v u)) kvs (user ?st)"
    using Cons.prems by (intro Cons.IH) simp_all
  ultimately show ?case
    by (simp add: p)
qed

lemma ValueHandler_lookup:
  "map_of (fst (snd (ValueHandler sec k v u))) q =
     (if q = MakeKey sec k then
        Some ((case map_of (fst u) q of None \<Rightarrow> [] | Some old \<Rightarrow> if old \<noteq> [] then old @ [CHR 0x0A] else []) @ v)
      else map_of (fst u) q)"
  by (simp add: ValueHandler_def Let_def AList.update_conv' split: option.splits)

lemma fold_values_other:
  "q \<notin> (MakeKey [] \<circ> fst) ` set kvs \<Longrightarrow>
     map_of (fst (fold (\<lambda>(k, v) u. snd (ValueHandler [] k v u)) kvs u)) q = map_of (fst u) q"
  by (induction kvs arbitrary: u) (auto simp: ValueHandler_lookup)

lemma fold_values:
  assumes "distinct (map (MakeKey [] \<circ> fst) kvs)" and "(k, v) \<in> set kvs" and "map_of (fst u) (MakeKey [] k) = None"
  shows "map_of (fst (fold (\<lambda>(k, v) u. snd (ValueHandler [] k v u)) kvs u)) (MakeKey [] k) = Some v"
  using assms
proof (induction kvs arbitrary: u)
  case (Cons p kvs)
  obtain k' v' where p: "p = (k', v')"
    by fastforce
  show ?case
  proof (cases "(k, v) = p")
    case True
    then have "MakeKey [] k \<notin> (MakeKey [] \<circ> fst) ` set kvs"
      using Cons.prems(1) p by auto
    with True Cons.prems(3) p show ?thesis
      by (simp add: fold_values_other ValueHandler_lookup)
  next
    case False
    then have "(k, v) \<in> set kvs"
      using Cons.prems(2) by simp
    moreover from this have "MakeKey [] k \<noteq> MakeKey [] k'"
      using Cons.prems(1) p by (auto simp: image_iff)
    ultimately show ?thesis
      using Cons.prems p by (simp add: Cons.IH ValueHandler_lookup)
  qed
qed simp

lemma text_of_bytes_of [simp]: "text_of (bytes_of s) = s"
proof -
  have "(of_char c :: nat) mod 256 = of_char c" for c :: char
    using of_char_mod_256 [of c] by simp
  then show ?thesis
    by (simp add: text_of_def bytes_of_def unat_of_nat map_idI)
qed

section \<open>A value that does not fit the line buffer\<close>

definition word_char :: "char \<Rightarrow> bool" where
  "word_char c \<longleftrightarrow> value_char c \<and> \<not> isspace c \<and> c \<notin> set ''=:#[''"

lemma fgets_upto_full:
  "CHR 0x0A \<notin> set l \<Longrightarrow> fgets_upto (length l) (l @ s) = (l, s)"
  by (induction l) auto

lemma find_from_word: "\<forall>c \<in> set w. word_char c \<Longrightarrow> find_from b ''=:'' w = (w, [])"
  by (induction w arbitrary: b) (auto simp: word_char_def value_char_def)

lemma ini_line_head:
  assumes "list_all key_char k" and "k \<noteq> []" and "\<forall>c \<in> set w. word_char c"
  shows "fst (ini_line ValueHandler n (k @ CHR ''='' # w) st) = False \<and>
    ini_section (snd (ini_line ValueHandler n (k @ CHR ''='' # w) st)) = ini_section st"
proof -
  define l where "l = k @ CHR ''='' # w"
  obtain k0 k' where k: "k = k0 # k'" and kp: "key_char k0" and kl: "\<not> isspace (last k)"
    using assms(1,2) key_char_plain [of "last k"] by (cases k) (auto simp: list_all_iff)
  have hd: "l \<noteq> []" "hd l = k0"
    by (simp_all add: l_def k)
  have kc: "\<And>c. c \<in> set k \<Longrightarrow> key_char c"
    using assms(1) by (simp add: list_all_iff)
  have c: "cstr l = l"
    using kc assms(3) key_char_plain by (intro cstr_id) (auto simp: l_def word_char_def value_char_def)
  have "\<not> isspace (CHR ''='')"
    by (simp add: isspace_def less_eq_char_def)
  then have r: "rstrip l = l"
    using assms(3) by (intro rstrip_id) (auto simp: l_def word_char_def)
  have s: "lskip l = l"
    using hd key_char_plain [OF kp] by (intro lskip_id) auto
  have f: "find_chars_or_comment l ''=:'' = (k, CHR ''='' # w)"
    unfolding find_chars_or_comment_def l_def using kc key_char_plain by (intro find_from_hit) auto
  have nobom: "take 3 l \<noteq> [CHR 0xEF, CHR 0xBB, CHR 0xBF]"
    using key_char_plain [OF kp] by (auto simp: l_def k)
  show ?thesis
    unfolding l_def [symmetric] ini_line_def c
    using key_char_plain [OF kp] by (simp add: nobom r s f hd ValueHandler_def Let_def)
qed

lemma ini_line_bare_word:
  assumes "w \<noteq> []" and "\<forall>c \<in> set w. word_char c" and "1 < n" and "nl = [] \<or> nl = [CHR 0x0A]"
  shows "fst (ini_line ValueHandler n (w @ nl) st) = True"
proof -
  have "\<not> word_char (CHR 0x00)"
    by (simp add: word_char_def value_char_def)
  then have "CHR 0x00 \<notin> set w"
    using assms(2) by blast
  then have c: "cstr (w @ nl) = w @ nl"
    using assms(4) by (intro cstr_id) auto
  have "isspace (CHR 0x0A)"
    by (simp add: isspace_def less_eq_char_def)
  moreover have "word_char (hd w)" "word_char (last w)"
    using assms(1,2) by simp_all
  then have h: "\<not> isspace (hd w)" "\<not> isspace (last w)" "hd w \<noteq> CHR '';'' \<and> hd w \<noteq> CHR ''#'' \<and> hd w \<noteq> CHR ''[''"
    by (simp_all add: word_char_def value_char_def)
  ultimately have r: "rstrip (w @ nl) = w"
    using assms(4) by (elim disjE) (simp_all add: rstrip_space rstrip_id)
  have s: "lskip w = w"
    using h(1) by (simp add: lskip_id)
  have f: "find_chars_or_comment w ''=:'' = (w, [])"
    unfolding find_chars_or_comment_def using assms(2) by (rule find_from_word)
  show ?thesis
    using assms(1,3) h(3) unfolding ini_line_def c by (simp add: r s f)
qed

text \<open>The next piece of a text without line ends is not empty.\<close>

lemma fgets_word:
  assumes "CHR 0x0A \<notin> set w" and "w \<noteq> []"
  obtains l r where "fgets INI_MAX_LINE (w @ [CHR 0x0A]) = Some (l, r)"
    and "\<exists>x nl. l = x @ nl \<and> x \<noteq> [] \<and> set x \<subseteq> set w \<and> (nl = [] \<or> nl = [CHR 0x0A])"
proof (cases "length w < 199")
  case True
  then show ?thesis
    using fgets_upto_line [OF assms(1) True, of "[]"] assms(2) that [of "w @ [CHR 0x0A]" "[]"]
    by (force simp: fgets_def)
next
  case False
  let ?x = "take 199 w"
  have "fgets_upto (length ?x) (?x @ drop 199 w @ [CHR 0x0A]) = (?x, drop 199 w @ [CHR 0x0A])"
    using assms(1) by (intro fgets_upto_full) (auto dest: in_set_takeD)
  moreover have "length ?x = 199"
    using False by simp
  ultimately have "fgets INI_MAX_LINE (w @ [CHR 0x0A]) = Some (?x, drop 199 w @ [CHR 0x0A])"
    using assms(2) by (simp add: fgets_def flip: append.assoc)
  moreover have "?x \<noteq> []" "set ?x \<subseteq> set w"
    using assms(2) by (auto dest: in_set_takeD)
  ultimately show ?thesis
    by (intro that exI [of _ ?x] exI [of _ "[]"]) simp_all
qed

section \<open>Properties\<close>

text \<open>
  C16: a configuration file of \<open>key=value\<close> lines that fit the line buffer is read without error,
  and looking up any of its keys, in any mixture of cases, gives exactly its value.
\<close>

theorem ini_roundtrip:
  assumes "sys_open_rd fs fname = Some q" and "\<not> io_error fs q"
    and "contents fs q = bytes_of (concat (map render kvs))"
    and "list_all pair_ok kvs" and "distinct (map (MakeKey [] \<circ> fst) kvs)"
  shows "ini_error (new_INIReader fs fname) = 0 \<and>
    (\<forall>k v k' d. (k, v) \<in> set kvs \<and> map tolower k' = map tolower k \<longrightarrow>
       ini_get (new_INIReader fs fname) [] k' d = v)"
proof -
  obtain st' where st': "ini_parse_stream ValueHandler 0 (concat (map render kvs))
      \<lparr>ini_section = [], prev_name = [], user = ([], [])\<rparr> = (0, st')"
      and u: "user st' = fold (\<lambda>(k, v) u. snd (ValueHandler [] k v u)) kvs ([], [])"
    using parse_pairs [OF assms(4), of "\<lparr>ini_section = [], prev_name = [], user = ([], [])\<rparr>" 0] by auto
  then have r: "new_INIReader fs fname =
      \<lparr>ini_error = 0, ini_values = fst (user st'), ini_sections = snd (user st')\<rparr>"
    using assms(1-3) by (simp add: new_INIReader_def ini_parse_def split: prod.splits)
  have "ini_get (new_INIReader fs fname) [] k' d = v"
    if kv: "(k, v) \<in> set kvs \<and> map tolower k' = map tolower k" for k v k' d
  proof -
    have "map_of (fst (user st')) (MakeKey [] k) = Some v"
      unfolding u using assms(5) kv by (intro fold_values) simp_all
    moreover have "MakeKey [] k' = MakeKey [] k"
      using kv by (simp add: MakeKey_def)
    ultimately show ?thesis
      by (simp add: r ini_get_def)
  qed
  moreover have "ini_error (new_INIReader fs fname) = 0"
    by (simp add: r)
  ultimately show ?thesis
    by blast
qed

definition sample_pairs :: "(string \<times> string) list" where
  "sample_pairs = [(''scratch'', ''/tmp/scratch''), (''persistent'', ''/tmp/p''), (''mode'', ''sync'')]"

definition sample_cfg_fs :: fsys where
  "sample_cfg_fs = healthy [(''/tmp'', Dir), (''/veloc.cfg'', Reg (bytes_of (concat (map render sample_pairs))))]"

lemma sample_cfg_open:
  "sys_open_rd sample_cfg_fs ''/veloc.cfg'' = Some ''/veloc.cfg''" "\<not> io_error sample_cfg_fs ''/veloc.cfg''"
  "contents sample_cfg_fs ''/veloc.cfg'' = bytes_of (concat (map render sample_pairs))"
  by (intro open_rd_faultless, simp_all add: sample_cfg_fs_def contents_def)

lemma sample_pairs_ok: "list_all pair_ok sample_pairs" "distinct (map (MakeKey [] \<circ> fst) sample_pairs)"
  by code_simp+

theorem ini_roundtrip_witness:
  "ini_get (new_INIReader sample_cfg_fs ''/veloc.cfg'') [] ''SCRATCH'' [] = ''/tmp/scratch''"
proof -
  have "(''scratch'', ''/tmp/scratch'') \<in> set sample_pairs" "map tolower ''SCRATCH'' = map tolower ''scratch''"
    by code_simp+
  then show ?thesis
    using ini_roundtrip [OF sample_cfg_open sample_pairs_ok] by blast
qed



end
