(* ===== verification/Command.thy ===== *)
theory Command
  imports Posix_Fs
begin

text \<open>
  \<^verbatim>\<open>command_t\<close> of \<^verbatim>\<open>src/src/common/command.{hpp,cpp}\<close>: the message a client sends to the
  backend, and the file names derived from it. The regular expression that
  \<^verbatim>\<open>command_t::regex\<close> compiles is the checkpoint name, read as a pattern, followed by a
  fixed tail. Each character of a checkpoint name is one atom of the pattern, so the match
  needs no backtracking and is modelled as one pass over the text.
\<close>

text \<open>The results of \<^verbatim>\<open>src/include/veloc/status.hpp\<close>.\<close>

abbreviation VELOC_SUCCESS :: int where "VELOC_SUCCESS \<equiv> 0"
abbreviation VELOC_FAILURE :: int where "VELOC_FAILURE \<equiv> - 1"
abbreviation VELOC_IGNORED :: int where "VELOC_IGNORED \<equiv> - 2"

section \<open>The message\<close>

datatype cmd_kind = INIT | CHECKPOINT | RESTART | TEST | STATUS

record command_t =
  unique_id :: int
  command :: cmd_kind
  version :: int
  offset :: size_t
  cname :: string
  original :: string

abbreviation ID_EC :: int where "ID_EC \<equiv> - 1"
abbreviation ID_AGG :: int where "ID_AGG \<equiv> - 2"
abbreviation CKPT_NAME_MAX :: nat where "CKPT_NAME_MAX \<equiv> 128"
abbreviation PATH_MAX :: nat where "PATH_MAX \<equiv> 4096"

definition mk_command :: "int \<Rightarrow> cmd_kind \<Rightarrow> int \<Rightarrow> string \<Rightarrow> command_t res" where
  "mk_command r c v src =
     (if length src + 1 > CKPT_NAME_MAX then Inl Fatal
      else Inr \<lparr>unique_id = r, command = c, version = v, offset = 0, cname = src, original = ''''\<rparr>)"

definition assign_path :: "string \<Rightarrow> command_t \<Rightarrow> command_t res" where
  "assign_path src c =
     (if length src + 1 > PATH_MAX then Inl Fatal else Inr (c\<lparr>original := src\<rparr>))"

definition stem :: "command_t \<Rightarrow> string" where
  "stem c = cname c @ ''-'' @ to_string (unique_id c) @ ''-'' @ to_string (version c) @ ''.dat''"

definition filename :: "command_t \<Rightarrow> string \<Rightarrow> string" where
  "filename c prefix = prefix @ ''/'' @ stem c"

definition meta_filename :: "command_t \<Rightarrow> string \<Rightarrow> string" where
  "meta_filename c prefix = filename c prefix @ ''.chksum''"

definition agg_filename :: "command_t \<Rightarrow> string \<Rightarrow> string" where
  "agg_filename c prefix = prefix @ ''/'' @ cname c @ ''-agg-'' @ to_string (version c) @ ''.dat''"

section \<open>Matching file names\<close>

datatype re_atom = AnyChar | Lit char

definition re_special :: "char \<Rightarrow> bool" where
  "re_special c \<longleftrightarrow> c \<in> set ''^$*+?()[]{}|'' \<or> c = CHR 0x5C"

definition line_end :: "char \<Rightarrow> bool" where
  "line_end c \<longleftrightarrow> c = CHR 0x0A \<or> c = CHR 0x0D"

definition atom_of :: "char \<Rightarrow> re_atom" where
  "atom_of c = (if c = CHR ''.'' then AnyChar else Lit c)"

text \<open>
  \<^verbatim>\<open>command_t::regex\<close>: the atoms of the name. The tail of the pattern is fixed and is
  matched by \<open>regex_match\<close>.
\<close>

definition regex :: "string \<Rightarrow> re_atom list res" where
  "regex nm = (if list_ex re_special nm then Inl RegexUnsupported else Inr (map atom_of nm))"

fun match_atoms :: "re_atom list \<Rightarrow> string \<Rightarrow> string option" where
  "match_atoms [] s = Some s"
| "match_atoms (a # as) [] = None"
| "match_atoms (AnyChar # as) (c # s) = (if line_end c then None else match_atoms as s)"
| "match_atoms (Lit d # as) (c # s) = (if c = d then match_atoms as s else None)"

text \<open>The group \<^verbatim>\<open>([0-9]+|ec|agg)\<close>.\<close>

definition match_id :: "string \<Rightarrow> (string \<times> string) option" where
  "match_id s =
     (if takeWhile is_digit s \<noteq> [] then Some (takeWhile is_digit s, dropWhile is_digit s)
      else if take 2 s = ''ec'' then Some (''ec'', drop 2 s)
      else if take 3 s = ''agg'' then Some (''agg'', drop 3 s)
      else None)"

text \<open>The tail \<^verbatim>\<open>-([0-9]+).*\<close>.\<close>

definition match_version :: "string \<Rightarrow> string option" where
  "match_version s =
     (case s of
        [] \<Rightarrow> None
      | c # s' \<Rightarrow>
          if c = CHR ''-'' \<and> takeWhile is_digit s' \<noteq> [] \<and> \<not> list_ex line_end (dropWhile is_digit s')
          then Some (takeWhile is_digit s') else None)"

definition regex_match :: "re_atom list \<Rightarrow> string \<Rightarrow> (string \<times> string) option" where
  "regex_match ex s =
     (case match_atoms ex s of
        Some (c # s1) \<Rightarrow>
          if c = CHR ''-'' then
            (case match_id s1 of
               None \<Rightarrow> None
             | Some (g1, s2) \<Rightarrow> map_option (Pair g1) (match_version s2))
          else None
      | _ \<Rightarrow> None)"

text \<open>\<^verbatim>\<open>command_t::match\<close>: \<open>Inr None\<close> is the return value false.\<close>

definition command_match :: "string \<Rightarrow> re_atom list \<Rightarrow> (int \<times> int) option res" where
  "command_match str ex =
     (case regex_match ex str of
        None \<Rightarrow> Inr None
      | Some (g1, g2) \<Rightarrow>
          (case (if g1 = ''ec'' then Inr ID_EC else if g1 = ''agg'' then Inr ID_AGG else stoi g1) of
             Inl e \<Rightarrow> Inl e
           | Inr i \<Rightarrow> (case stoi g2 of Inl e \<Rightarrow> Inl e | Inr v \<Rightarrow> Inr (Some (i, v)))))"

section \<open>Checkpoint names\<close>

text \<open>\<^verbatim>\<open>validate_name\<close> of \<^verbatim>\<open>src/src/lib/client.cpp\<close>.\<close>

definition name_char :: "char \<Rightarrow> bool" where
  "name_char c \<longleftrightarrow>
     (CHR ''a'' \<le> c \<and> c \<le> CHR ''z'') \<or> (CHR ''A'' \<le> c \<and> c \<le> CHR ''Z'') \<or>
     (CHR ''0'' \<le> c \<and> c \<le> CHR ''9'') \<or> c = CHR ''_'' \<or> c = CHR ''.''"

definition validate_name :: "string \<Rightarrow> bool" where
  "validate_name nm \<longleftrightarrow> nm \<noteq> [] \<and> list_all name_char nm"

text \<open>A command as the client creates it: a valid name, a rank and a version that are not negative.\<close>

definition wf_command :: "command_t \<Rightarrow> bool" where
  "wf_command c \<longleftrightarrow> validate_name (cname c) \<and>
     0 \<le> unique_id c \<and> unique_id c \<le> int_max \<and> 0 \<le> version c \<and> version c \<le> int_max"

section \<open>Lemmas\<close>

lemma name_char_plain:
  "name_char c \<Longrightarrow> c \<noteq> CHR ''-'' \<and> c \<noteq> CHR ''/'' \<and> \<not> re_special c \<and> \<not> line_end c"
  by (auto simp: name_char_def re_special_def line_end_def less_eq_char_def)

lemma validate_name_regex: "validate_name nm \<Longrightarrow> regex nm = Inr (map atom_of nm)"
proof -
  assume "validate_name nm"
  then have "\<not> list_ex re_special nm"
    by (auto simp: validate_name_def list_ex_iff list_all_iff dest: name_char_plain)
  then show ?thesis by (simp add: regex_def)
qed

lemma match_atoms_self:
  "list_all name_char nm \<Longrightarrow> match_atoms (map atom_of nm) (nm @ s) = Some s"
  by (induction nm) (auto simp: atom_of_def dest: name_char_plain)

lemma match_id_digits: "list_all is_digit ds \<Longrightarrow> ds \<noteq> [] \<Longrightarrow> \<not> is_digit c \<Longrightarrow>
    match_id (ds @ c # s) = Some (ds, c # s)"
  by (simp add: match_id_def takeWhile_digits)

lemma match_version_digits: "list_all is_digit ds \<Longrightarrow> ds \<noteq> [] \<Longrightarrow> \<not> is_digit c \<Longrightarrow>
    \<not> list_ex line_end (c # s) \<Longrightarrow> match_version (CHR ''-'' # ds @ c # s) = Some ds"
  by (simp add: match_version_def takeWhile_digits)

lemma digits_not_tag: "list_all is_digit ds \<Longrightarrow> ds \<noteq> [] \<Longrightarrow> ds \<noteq> ''ec'' \<and> ds \<noteq> ''agg''"
  by (auto simp: is_digit_def)

lemma stem_split:
  "stem c = cname c @ CHR ''-'' # to_string (unique_id c) @
     CHR ''-'' # to_string (version c) @ ''.dat''"
  by (simp add: stem_def)

lemma regex_match_tail:
  assumes "list_all name_char nm" and "0 \<le> i" and "0 \<le> v" and "\<not> list_ex line_end s"
  shows "regex_match (map atom_of nm) (nm @ CHR ''-'' # to_string i @ CHR ''-'' # to_string v @ CHR ''.'' # s) =
    Some (to_string i, to_string v)"
  using assms
  by (simp add: regex_match_def match_atoms_self match_id_digits match_version_digits
      to_string_digits line_end_def)

lemma command_match_tail:
  assumes "list_all name_char nm" and "0 \<le> i" "i \<le> int_max" and "0 \<le> v" "v \<le> int_max"
    and "\<not> list_ex line_end s"
  shows "command_match (nm @ CHR ''-'' # to_string i @ CHR ''-'' # to_string v @ CHR ''.'' # s)
      (map atom_of nm) = Inr (Some (i, v))"
  using assms digits_not_tag [OF to_string_digits [of i]]
  by (simp add: command_match_def regex_match_tail stoi_to_string)

lemma command_match_stem:
  "wf_command c \<Longrightarrow> command_match (stem c) (map atom_of (cname c)) = Inr (Some (unique_id c, version c))"
  unfolding stem_split
  using command_match_tail [of "cname c" "unique_id c" "version c" "''dat''"]
  by (simp add: wf_command_def validate_name_def line_end_def)

lemma command_match_agg:
  assumes "wf_command c"
  shows "command_match (cname c @ ''-agg-'' @ to_string (version c) @ ''.dat'')
    (map atom_of (cname c)) = Inr (Some (ID_AGG, version c))"
  using assms
  by (simp add: wf_command_def validate_name_def command_match_def regex_match_def match_atoms_self
      match_id_def is_digit_def match_version_digits to_string_digits line_end_def stoi_to_string)

text \<open>Two texts that agree up to a separator that occurs in neither prefix have the same prefix.\<close>

lemma split_unique:
  "xs @ c # ys = xs' @ c # ys' \<Longrightarrow> c \<notin> set xs \<Longrightarrow> c \<notin> set xs' \<Longrightarrow> xs = xs' \<and> ys = ys'"
proof (induction xs arbitrary: xs')
  case Nil
  then show ?case by (cases xs') auto
next
  case (Cons x xs)
  then show ?case by (cases xs') auto
qed

lemma digits_no_char: "list_all is_digit ds \<Longrightarrow> \<not> is_digit c \<Longrightarrow> c \<notin> set ds"
  by (auto simp: list_all_iff)

lemma validate_name_no_dash: "validate_name nm \<Longrightarrow> CHR ''-'' \<notin> set nm"
  by (auto simp: validate_name_def list_all_iff dest: name_char_plain)

lemma stem_inject:
  assumes "wf_command c" and "wf_command c'" and "stem c = stem c'"
  shows "cname c = cname c' \<and> unique_id c = unique_id c' \<and> version c = version c'"
proof -
  have name: "cname c = cname c' \<and>
      to_string (unique_id c) @ CHR ''-'' # to_string (version c) @ ''.dat'' =
      to_string (unique_id c') @ CHR ''-'' # to_string (version c') @ ''.dat''"
    using assms unfolding stem_split wf_command_def
    by (intro split_unique) (auto dest: validate_name_no_dash)
  have nodash: "0 \<le> i \<Longrightarrow> CHR ''-'' \<notin> set (to_string i)" for i
    using digits_no_char [OF to_string_digits is_digit_dash] by blast
  have "to_string (unique_id c) = to_string (unique_id c') \<and>
      to_string (version c) @ ''.dat'' = to_string (version c') @ ''.dat''"
    using name assms(1,2) nodash unfolding wf_command_def
    by (intro split_unique [where c = "CHR ''-''"]) auto
  then show ?thesis
    using name by simp
qed

lemma stem_no_slash: "wf_command c \<Longrightarrow> CHR ''/'' \<notin> set (stem c)"
  using digits_no_char [OF to_string_digits is_digit_slash]
  by (auto simp: stem_split wf_command_def validate_name_def list_all_iff dest: name_char_plain)

lemma stem_nonempty [simp]: "stem c \<noteq> []"
  by (simp add: stem_def)

lemma filename_eq_Cons: "filename c prefix = prefix @ CHR ''/'' # stem c"
  by (simp add: filename_def)

lemma dirname_filename: "wf_command c \<Longrightarrow> dirname (filename c prefix) = prefix"
  by (simp add: filename_eq_Cons dirname_join stem_no_slash)

lemma agg_no_slash: "wf_command c \<Longrightarrow> CHR ''/'' \<notin> set (cname c @ ''-agg-'' @ to_string (version c) @ ''.dat'')"
  using digits_no_char [OF to_string_digits is_digit_slash]
  by (auto simp: wf_command_def validate_name_def list_all_iff dest: name_char_plain)

lemma dirname_agg_filename: "wf_command c \<Longrightarrow> dirname (agg_filename c prefix) = prefix"
  using dirname_join [OF agg_no_slash, of c prefix] by (simp add: agg_filename_def)

section \<open>Properties\<close>

text \<open>
  C10: the pattern built for a checkpoint's name accepts the file name of each of its
  checkpoints and recovers exactly the rank and the version the name was built from.
\<close>

theorem filename_parse_roundtrip:
  assumes "wf_command c"
  shows "\<exists>ex. regex (cname c) = Inr ex \<and>
    command_match (stem c) ex = Inr (Some (unique_id c, version c))"
proof (intro exI conjI)
  show "regex (cname c) = Inr (map atom_of (cname c))"
    using assms by (simp add: wf_command_def validate_name_regex)
  show "command_match (stem c) (map atom_of (cname c)) = Inr (Some (unique_id c, version c))"
    using assms by (rule command_match_stem)
qed

definition sample_command :: command_t where
  "sample_command = \<lparr>unique_id = 3, command = CHECKPOINT, version = 12, offset = 0,
     cname = ''heat.2d'', original = ''''\<rparr>"

lemma wf_sample_command: "wf_command sample_command"
  by (simp add: wf_command_def validate_name_def sample_command_def name_char_def less_eq_char_def)

theorem filename_parse_roundtrip_witness:
  "\<exists>ex. regex ''heat.2d'' = Inr ex \<and> command_match (stem sample_command) ex = Inr (Some (3, 12))"
  using filename_parse_roundtrip [OF wf_sample_command] by (simp add: sample_command_def)

text \<open>
  Two checkpoints share a file in a directory only when they have the same name, rank and
  version, so no checkpoint overwrites another.
\<close>

lemma filename_injective:
  assumes "wf_command c" and "wf_command c'" and "filename c d = filename c' d"
  shows "cname c = cname c' \<and> unique_id c = unique_id c' \<and> version c = version c'"
  using assms by (intro stem_inject) (simp_all add: filename_def)

text \<open>
  The name is used as a pattern without quoting, so a dot in it stands for any character:
  the files of the checkpoint \<open>pre x post\<close> are taken for files of the checkpoint \<open>pre . post\<close>.
\<close>

lemma dot_in_name_matches_other_names:
  assumes "wf_command c" and "cname c = pre @ x # post" and "x \<noteq> CHR ''.''"
  shows "command_match (stem c) (map atom_of (pre @ CHR ''.'' # post)) =
      Inr (Some (unique_id c, version c))"
proof -
  have valid: "list_all name_char (pre @ x # post)"
    using assms by (simp add: wf_command_def validate_name_def)
  then have "match_atoms (map atom_of (pre @ CHR ''.'' # post)) ((pre @ x # post) @ s) =
      match_atoms (map atom_of (pre @ x # post)) ((pre @ x # post) @ s)" for s
    by (induction pre) (auto simp: atom_of_def dest: name_char_plain)
  then have "command_match (stem c) (map atom_of (pre @ CHR ''.'' # post)) =
      command_match (stem c) (map atom_of (cname c))"
    unfolding command_match_def regex_match_def stem_split assms(2) by simp
  then show ?thesis
    using command_match_stem [OF assms(1)] by simp
qed

lemma dot_in_name_matches_other_names_witness:
  "command_match ''axb-1-7.dat'' (map atom_of ''a.b'') = Inr (Some (1, 7))"
proof -
  let ?c = "\<lparr>unique_id = 1, command = CHECKPOINT, version = 7, offset = 0, cname = ''axb'', original = ''''\<rparr>"
  have "stem ?c = ''axb-1-7.dat''" and "wf_command ?c"
    by code_simp+
  then show ?thesis
    using dot_in_name_matches_other_names [of ?c "''a''" "CHR ''x''" "''b''"] by simp
qed

end
