(* ===== verification/File_Util.thy ===== *)
theory File_Util
  imports Command
begin

text \<open>
  \<^verbatim>\<open>src/src/common/file_util.cpp\<close>: directory scans, whole-file reads and writes, and the
  file-to-file transfer used by every storage module and by the cached files. The transfer
  loop has no bound of its own: when the source ends before the requested length it never
  returns, so it is a partial function whose value \<open>None\<close> is not returning. Sizes and
  offsets are natural numbers below \<open>2 ^ 64\<close>; the unsigned subtraction of
  \<^verbatim>\<open>posix_transfer_file\<close> is written out modulo \<open>2 ^ 64\<close>.
\<close>

section \<open>Definitions\<close>

text \<open>
  \<^verbatim>\<open>parse_dir\<close>: the callback is a state transformer. An exception of the match leaves the
  effects of the earlier callbacks in place.
\<close>

fun dir_loop ::
    "string \<Rightarrow> re_atom list \<Rightarrow> (string \<Rightarrow> int \<Rightarrow> int \<Rightarrow> 's \<Rightarrow> 's) \<Rightarrow> string list \<Rightarrow> 's \<Rightarrow> bool res \<times> 's" where
  "dir_loop p ex f [] s = (Inr True, s)"
| "dir_loop p ex f (dname # ds) s =
     (case command_match dname ex of
        Inl e \<Rightarrow> (Inl e, s)
      | Inr None \<Rightarrow> dir_loop p ex f ds s
      | Inr (Some (r, v)) \<Rightarrow> dir_loop p ex f ds (f (p @ ''/'' @ dname) r v s))"

definition parse_dir ::
    "'x fsys_scheme \<Rightarrow> string \<Rightarrow> string \<Rightarrow> (string \<Rightarrow> int \<Rightarrow> int \<Rightarrow> 's \<Rightarrow> 's) \<Rightarrow> 's \<Rightarrow> bool res \<times> 's" where
  "parse_dir fs p nm f s =
     (if \<not> sys_opendir fs p then (Inr False, s)
      else (case regex nm of
              Inl e \<Rightarrow> (Inl e, s)
            | Inr ex \<Rightarrow> dir_loop p ex f (sys_readdir fs p) s))"

definition file_size :: "'x fsys_scheme \<Rightarrow> string \<Rightarrow> int" where
  "file_size fs p = (case sys_stat fs p of None \<Rightarrow> - 1 | Some n \<Rightarrow> int n)"

definition write_file :: "'x fsys_scheme \<Rightarrow> string \<Rightarrow> byte list \<Rightarrow> bool \<times> 'x fsys_scheme" where
  "write_file fs p buffer =
     (case sys_open_wr True fs p of
        None \<Rightarrow> (False, fs)
      | Some (fd, fs1) \<Rightarrow>
          (case sys_pwrite fs1 fd buffer 0 of
             None \<Rightarrow> (False, fs1)
           | Some (k, fs2) \<Rightarrow> (k = length buffer, fs2)))"

text \<open>\<^verbatim>\<open>read_file\<close>: \<open>Some\<close> buffer for the return value true.\<close>

definition read_file :: "'x fsys_scheme \<Rightarrow> string \<Rightarrow> nat \<Rightarrow> byte list option" where
  "read_file fs p n =
     (case sys_open_rd fs p of
        None \<Rightarrow> None
      | Some fd \<Rightarrow>
          (case sys_pread fs fd n 0 of
             None \<Rightarrow> None
           | Some bs \<Rightarrow> if length bs = n then Some bs else None))"

abbreviation MAX_BUFF_SIZE :: nat where
  "MAX_BUFF_SIZE \<equiv> 16777216"

text \<open>\<^verbatim>\<open>file_transfer_loop\<close> built with \<^verbatim>\<open>WITH_POSIX_RW\<close>, the default.\<close>

partial_function (option) file_transfer_loop ::
    "'x fsys_scheme \<Rightarrow> string \<Rightarrow> nat \<Rightarrow> string \<Rightarrow> nat \<Rightarrow> nat \<Rightarrow> (bool \<times> 'x fsys_scheme) option" where
  "file_transfer_loop fs src soff dst doff remaining =
     (if remaining = 0 then Some (True, fs)
      else (case sys_pread fs src (min MAX_BUFF_SIZE remaining) soff of
              None \<Rightarrow> Some (False, fs)
            | Some buff \<Rightarrow>
                (case sys_pwrite fs dst buff doff of
                   None \<Rightarrow> Some (False, fs)
                 | Some (k, fs') \<Rightarrow>
                     if k \<noteq> length buff then Some (False, fs')
                     else file_transfer_loop fs' src (soff + length buff) dst (doff + length buff)
                            (remaining - length buff))))"

text \<open>\<^verbatim>\<open>file_transfer_loop\<close> built with \<^verbatim>\<open>WITH_POSIX_DIRECT\<close>.\<close>

partial_function (option) file_transfer_loop_direct ::
    "'x fsys_scheme \<Rightarrow> string \<Rightarrow> nat \<Rightarrow> string \<Rightarrow> nat \<Rightarrow> nat \<Rightarrow> (bool \<times> 'x fsys_scheme) option" where
  "file_transfer_loop_direct fs src soff dst doff remaining =
     (if remaining = 0 then Some (True, fs)
      else (case sys_copy_file_range fs src soff dst doff remaining of
              None \<Rightarrow> Some (False, fs)
            | Some (k, fs') \<Rightarrow>
                file_transfer_loop_direct fs' src (soff + k) dst (doff + k) (remaining - k)))"

abbreviation SIZE_MAX :: nat where
  "SIZE_MAX \<equiv> 18446744073709551615"

definition posix_transfer_file ::
    "'x fsys_scheme \<Rightarrow> string \<Rightarrow> string \<Rightarrow> nat \<Rightarrow> nat \<Rightarrow> nat \<Rightarrow> (bool \<times> 'x fsys_scheme) option" where
  "posix_transfer_file fs source dest soffset doffset sz =
     (case sys_open_rd fs source of
        None \<Rightarrow> Some (False, fs)
      | Some fi \<Rightarrow>
          (case sys_open_wr False fs dest of
             None \<Rightarrow> Some (False, fs)
           | Some (fo, fs1) \<Rightarrow>
               file_transfer_loop fs1 fi soffset fo doffset
                 (min sz (nat ((file_size fs1 source - int soffset) mod 2 ^ 64)))))"

definition check_dir :: "'x fsys_scheme \<Rightarrow> string \<Rightarrow> bool \<times> 'x fsys_scheme" where
  "check_dir fs d = (let fs' = sys_mkdir fs d in (sys_opendir fs' d, fs'))"

definition unique_suffix :: "string \<Rightarrow> int \<Rightarrow> string" where
  "unique_suffix host_name uid = host_name @ ''-'' @ to_string uid"

section \<open>Directory scans\<close>

text \<open>What a scan delivers when no version number overflows: the matching entries in order.\<close>

definition dir_hits :: "re_atom list \<Rightarrow> string list \<Rightarrow> (string \<times> int \<times> int) list" where
  "dir_hits ex ds =
     List.map_filter
       (\<lambda>d. case command_match d ex of Inr (Some (r, v)) \<Rightarrow> Some (d, r, v) | _ \<Rightarrow> None) ds"

lemma dir_hits_Cons:
  "dir_hits ex (d # ds) =
     (case command_match d ex of Inr (Some (r, v)) \<Rightarrow> (d, r, v) # dir_hits ex ds | _ \<Rightarrow> dir_hits ex ds)"
  by (auto simp: dir_hits_def List.map_filter_simps split: sum.splits option.splits)

lemma dir_loop_fold:
  assumes "\<forall>d \<in> set ds. \<exists>r. command_match d ex = Inr r"
  shows "dir_loop p ex f ds s =
    (Inr True, fold (\<lambda>(d, r, v). f (p @ ''/'' @ d) r v) (dir_hits ex ds) s)"
  using assms
proof (induction ds arbitrary: s)
  case Nil
  then show ?case by (simp add: dir_hits_def List.map_filter_simps)
next
  case (Cons d ds)
  then obtain r where "command_match d ex = Inr r"
    by auto
  with Cons show ?case
    by (cases r) (auto simp: dir_hits_Cons)
qed

lemma dir_loop_overflow:
  assumes "command_match d ex = Inl e" and "\<forall>d' \<in> set ds. \<exists>r. command_match d' ex = Inr r"
  shows "fst (dir_loop p ex f (ds @ d # ds') s) = Inl e"
  using assms(2) assms(1)
  by (induction ds arbitrary: s) (auto split: option.splits)

section \<open>Transfers\<close>

lemma AList_update_twice: "AList.update k v (AList.update k w al) = AList.update k v al"
  by (induction al) auto

lemma set_node_twice [simp]: "set_node p m (set_node p n fs) = set_node p m fs"
  by (simp add: set_node_def AList_update_twice)

lemma set_node_same: "node_at fs p = Some n \<Longrightarrow> set_node p n fs = fs"
  by (simp add: set_node_def node_at_def AList.update_triv)

lemma take_drop_split: "take k (drop s xs) @ take (n - k) (drop (s + k) xs) = take n (drop s xs)"
  if "k \<le> n"
proof -
  have "take n (drop s xs) = take (k + (n - k)) (drop s xs)"
    using that by simp
  then show ?thesis
    by (simp only: take_add drop_drop add.commute)
qed

text \<open>
  One round of either loop, over source bytes that exist: it moves between one and
  \<open>remaining\<close> bytes and writes a prefix of what is still to be written.
\<close>

lemma pread_round:
  assumes "\<not> io_error fs src" and "node_at fs src = Some (Reg bs)"
    and "soff + remaining \<le> length bs" and "0 < remaining" and "0 < n"
  obtains k where "0 < k" and "k \<le> remaining"
    and "sys_pread fs src (min n remaining) soff = Some (take k (drop soff bs))"
    and "length (take k (drop soff bs)) = k"
proof
  let ?m = "min (min n remaining) (length bs - soff)"
  let ?k = "clip (rd_chunk fs) ?m"
  have m: "0 < ?m" "?m \<le> remaining"
    using assms by auto
  then show "0 < ?k"
    by (intro clip_pos)
  show "?k \<le> remaining"
    using clip_le [of "rd_chunk fs" ?m] m by simp
  show "sys_pread fs src (min n remaining) soff = Some (take ?k (drop soff bs))"
    using assms(1,2) by (simp add: sys_pread_def contents_def Let_def)
  show "length (take ?k (drop soff bs)) = ?k"
    using clip_le [of "rd_chunk fs" ?m] by simp
qed

lemma pread_None: "sys_pread fs q n off = None \<longleftrightarrow> io_error fs q"
  by (simp add: sys_pread_def Let_def)

lemma pwrite_None: "sys_pwrite fs q bs off = None \<longleftrightarrow> io_error fs q"
  by (simp add: sys_pwrite_def Let_def)

lemma transfer_loop_io_error:
  assumes "0 < remaining" and "io_error fs src \<or> io_error fs dst"
  shows "file_transfer_loop fs src soff dst doff remaining = Some (False, fs)"
proof (cases "sys_pread fs src (min MAX_BUFF_SIZE remaining) soff")
  case None
  with assms(1) show ?thesis
    by (subst file_transfer_loop.simps) simp
next
  case (Some buff)
  then have "sys_pwrite fs dst buff doff = None"
    using assms(2) pread_None [of fs src] pwrite_None [of fs dst] by auto
  with Some assms(1) show ?thesis
    by (subst file_transfer_loop.simps) simp
qed

text \<open>One round: a short write ends the transfer, a full one moves on.\<close>

lemma transfer_loop_round:
  assumes "node_at fs src = Some (Reg bs)" and "node_at fs dst = Some (Reg ds)" and "soff + remaining \<le> length bs"
    and "0 < remaining" and "\<not> io_error fs src" and "\<not> io_error fs dst"
  obtains k d where "0 < k" and "k \<le> remaining" and "wr_chunk fs \<noteq> (\<lambda>n. n)"
    and "file_transfer_loop fs src soff dst doff remaining = Some (False, set_node dst d fs)"
  | k where "0 < k" and "k \<le> remaining" and "length (take k (drop soff bs)) = k"
    and "file_transfer_loop fs src soff dst doff remaining =
      file_transfer_loop (set_node dst (Reg (write_at ds doff (take k (drop soff bs)))) fs) src (soff + k) dst (doff + k) (remaining - k)"
proof -
  obtain k where k: "0 < k" "k \<le> remaining"
    and rd: "sys_pread fs src (min MAX_BUFF_SIZE remaining) soff = Some (take k (drop soff bs))"
    and len: "length (take k (drop soff bs)) = k"
    using pread_round [of fs src bs soff remaining MAX_BUFF_SIZE] assms by auto
  let ?b = "take k (drop soff bs)" and ?w = "clip (wr_chunk fs) k"
  have wr: "sys_pwrite fs dst ?b doff = Some (?w, set_node dst (Reg (write_at ds doff (take ?w ?b))) fs)"
    using assms(2,6) len by (simp add: sys_pwrite_def contents_def Let_def)
  show thesis
  proof (cases "?w = k")
    case False
    then have "wr_chunk fs \<noteq> (\<lambda>n. n)"
      by (metis clip_id)
    moreover have "file_transfer_loop fs src soff dst doff remaining =
        Some (False, set_node dst (Reg (write_at ds doff (take ?w ?b))) fs)"
      using False assms(4) rd wr len by (subst file_transfer_loop.simps) simp
    ultimately show thesis
      by (rule that(1) [OF k])
  next
    case True
    then have "file_transfer_loop fs src soff dst doff remaining =
        file_transfer_loop (set_node dst (Reg (write_at ds doff ?b)) fs) src (soff + k) dst (doff + k) (remaining - k)"
      using assms(4) rd wr len by (subst file_transfer_loop.simps) simp
    then show thesis
      by (rule that(2) [OF k len])
  qed
qed

lemma transfer_loop_correct:
  assumes "src \<noteq> dst" and "node_at fs src = Some (Reg bs)" and "node_at fs dst = Some (Reg ds)"
    and "soff + remaining \<le> length bs"
  shows "\<exists>ok fs'. file_transfer_loop fs src soff dst doff remaining = Some (ok, fs') \<and>
    (ok \<longrightarrow> fs' = set_node dst (Reg (write_at ds doff (take remaining (drop soff bs)))) fs) \<and>
    (\<forall>p. p \<noteq> dst \<longrightarrow> node_at fs' p = node_at fs p) \<and>
    ((\<not> io_error fs src \<and> \<not> io_error fs dst \<and> wr_chunk fs = (\<lambda>n. n)) \<longrightarrow> ok)"
  using assms
proof (induction remaining arbitrary: fs ds soff doff rule: less_induct)
  case (less remaining)
  consider "remaining = 0" | "0 < remaining" "io_error fs src \<or> io_error fs dst"
    | "0 < remaining" "\<not> io_error fs src" "\<not> io_error fs dst" by blast
  then show ?case
  proof cases
    case 1
    then have "file_transfer_loop fs src soff dst doff remaining = Some (True, fs)"
      by (subst file_transfer_loop.simps) simp
    with 1 less.prems show ?thesis
      by (intro exI [of _ True] exI [of _ fs]) (simp add: set_node_same)
  next
    case 2
    then have "file_transfer_loop fs src soff dst doff remaining = Some (False, fs)"
      by (intro transfer_loop_io_error) auto
    with 2 show ?thesis
      by (intro exI [of _ False] exI [of _ fs]) auto
  next
    case 3
    from less.prems(2,3,4) 3 show ?thesis
    proof (rule transfer_loop_round)
      fix k d
      assume "wr_chunk fs \<noteq> (\<lambda>n. n)"
        and "file_transfer_loop fs src soff dst doff remaining = Some (False, set_node dst d fs)"
      then show ?thesis
        by (intro exI [of _ False] exI [of _ "set_node dst d fs"]) simp
    next
      fix k
      assume k: "0 < k" "k \<le> remaining" and len: "length (take k (drop soff bs)) = k"
        and step: "file_transfer_loop fs src soff dst doff remaining =
          file_transfer_loop (set_node dst (Reg (write_at ds doff (take k (drop soff bs)))) fs) src (soff + k) dst (doff + k) (remaining - k)"
      have "write_at (write_at ds doff (take k (drop soff bs))) (doff + k) (take (remaining - k) (drop (soff + k) bs)) =
          write_at ds doff (take remaining (drop soff bs))"
        using write_at_append [of ds doff "take k (drop soff bs)"] len take_drop_split [OF k(2), of soff bs] by metis
      with less.IH [of "remaining - k" "set_node dst (Reg (write_at ds doff (take k (drop soff bs)))) fs"
          "write_at ds doff (take k (drop soff bs))" "soff + k" "doff + k"] k less.prems show ?thesis
        unfolding step by simp
    qed
  qed
qed

text \<open>The transfer never returns when the source has ended and bytes are still expected.\<close>

lemma transfer_loop_stuck:
  assumes "src \<noteq> dst" and "\<not> io_error fs src" and "\<not> io_error fs dst"
    and "length (contents fs src) \<le> soff" and "0 < remaining"
  shows "file_transfer_loop fs src soff dst doff remaining = None"
proof (rule ccontr)
  assume "\<not> ?thesis"
  then obtain r where ret: "file_transfer_loop fs src soff dst doff remaining = Some r"
    by blast
  have "\<not> (src \<noteq> dst \<and> \<not> io_error fs src \<and> \<not> io_error fs dst \<and>
      length (contents fs src) \<le> soff \<and> 0 < remaining)"
  proof (rule file_transfer_loop.raw_induct [where P = "\<lambda>fs src soff dst doff remaining r.
        \<not> (src \<noteq> dst \<and> \<not> io_error fs src \<and> \<not> io_error fs dst \<and>
           length (contents fs src) \<le> soff \<and> 0 < remaining)", OF _ ret])
    fix f fs src soff dst doff remaining r
    assume IH: "\<And>fs src soff dst doff remaining r. f fs src soff dst doff remaining = Some r \<Longrightarrow>
        \<not> (src \<noteq> dst \<and> \<not> io_error fs src \<and> \<not> io_error fs dst \<and>
           length (contents fs src) \<le> soff \<and> 0 < remaining)"
      and eq: "(if remaining = 0 then Some (True, fs)
         else (case sys_pread fs src (min MAX_BUFF_SIZE remaining) soff of
                 None \<Rightarrow> Some (False, fs)
               | Some buff \<Rightarrow>
                   (case sys_pwrite fs dst buff doff of
                      None \<Rightarrow> Some (False, fs)
                    | Some (k, fs') \<Rightarrow>
                        if k \<noteq> length buff then Some (False, fs')
                        else f fs' src (soff + length buff) dst (doff + length buff)
                               (remaining - length buff)))) = Some r"
    show "\<not> (src \<noteq> dst \<and> \<not> io_error fs src \<and> \<not> io_error fs dst \<and>
           length (contents fs src) \<le> soff \<and> 0 < remaining)"
    proof
      assume c: "src \<noteq> dst \<and> \<not> io_error fs src \<and> \<not> io_error fs dst \<and>
           length (contents fs src) \<le> soff \<and> 0 < remaining"
      let ?fs' = "set_node dst (Reg (contents fs dst)) fs"
      have "sys_pread fs src (min MAX_BUFF_SIZE remaining) soff = Some []"
        using c by (simp add: sys_pread_def clip_def)
      moreover have "sys_pwrite fs dst [] doff = Some (0, ?fs')"
        using c by (simp add: sys_pwrite_def clip_def)
      ultimately have "f ?fs' src soff dst doff remaining = Some r"
        using eq c by simp
      from IH [OF this] c show False
        by (simp add: contents_set_node)
    qed
  qed
  with assms show False by blast
qed

text \<open>The two builds of the loop agree: both end with the same bytes at the destination.\<close>

lemma transfer_loop_direct_correct:
  assumes "src \<noteq> dst" and "node_at fs src = Some (Reg bs)" and "node_at fs dst = Some (Reg ds)"
    and "soff + remaining \<le> length bs" and "\<not> io_error fs src" and "\<not> io_error fs dst"
  shows "file_transfer_loop_direct fs src soff dst doff remaining =
    Some (True, set_node dst (Reg (write_at ds doff (take remaining (drop soff bs)))) fs)"
  using assms
proof (induction remaining arbitrary: fs ds soff doff rule: less_induct)
  case (less remaining)
  show ?case
  proof (cases "remaining = 0")
    case True
    with less.prems show ?thesis
      by (subst file_transfer_loop_direct.simps) (simp add: set_node_same)
  next
    case rem: False
    let ?m = "min remaining (length bs - soff)"
    let ?k = "clip (rd_chunk fs) ?m"
    let ?b = "take ?k (drop soff bs)"
    let ?fs' = "set_node dst (Reg (write_at ds doff ?b)) fs"
    have k: "0 < ?k" "?k \<le> remaining" and len: "length ?b = ?k"
      using rem less.prems(4) clip_le [of "rd_chunk fs" ?m] clip_pos [of ?m "rd_chunk fs"] by auto
    have "sys_copy_file_range fs src soff dst doff remaining = Some (?k, ?fs')"
      using less.prems by (simp add: sys_copy_file_range_def contents_def Let_def)
    then have "file_transfer_loop_direct fs src soff dst doff remaining =
        file_transfer_loop_direct ?fs' src (soff + ?k) dst (doff + ?k) (remaining - ?k)"
      using rem by (subst file_transfer_loop_direct.simps) simp
    also have "\<dots> = Some (True, set_node dst (Reg (write_at (write_at ds doff ?b) (doff + ?k)
        (take (remaining - ?k) (drop (soff + ?k) bs)))) ?fs')"
      using less.prems k by (intro less.IH) auto
    also have "write_at (write_at ds doff ?b) (doff + ?k) (take (remaining - ?k) (drop (soff + ?k) bs)) =
        write_at ds doff (take remaining (drop soff bs))"
      using write_at_append [of ds doff ?b] len take_drop_split [OF k(2), of soff bs] by metis
    finally show ?thesis by simp
  qed
qed

subsection \<open>Whole files\<close>

lemma open_rd_node:
  "sys_open_rd fs p = Some q \<Longrightarrow> real_path fs p = Some q \<and> node_at fs q = Some (Reg (contents fs q))"
  by (auto simp: sys_open_rd_def contents_def split: option.splits node.splits if_splits)

lemma open_wr_False:
  "sys_open_wr False fs p = Some (q, fs1) \<Longrightarrow>
     fs1 = set_node q (Reg (contents fs q)) fs \<and> (\<forall>t. node_at fs q \<noteq> Some (Lnk t))"
  by (auto simp: sys_open_wr_def contents_def set_node_same split: option.splits node.splits if_splits)

lemma open_wr_True:
  "sys_open_wr True fs p = Some (q, fs1) \<Longrightarrow>
     fs1 = set_node q (Reg []) fs \<and> (\<forall>t. node_at fs q \<noteq> Some (Lnk t)) \<and> real_path fs p = Some q"
  by (auto simp: sys_open_wr_def split: option.splits node.splits if_splits)

lemma resolve_set_node:
  assumes "resolve n fs p = Some q" and "\<And>t. node_at fs q' \<noteq> Some (Lnk t)"
  shows "resolve n (set_node q' (Reg bs) fs) p = Some q"
  using assms(1)
proof (induction n arbitrary: p)
  case (Suc n)
  show ?case
  proof (cases "p = q'")
    case True
    with Suc.prems assms(2) show ?thesis
      by (auto split: option.splits node.splits)
  next
    case False
    with Suc show ?thesis
      by (auto split: option.splits node.splits)
  qed
qed simp

lemma real_path_set_node:
  "real_path fs p = Some q \<Longrightarrow> (\<And>t. node_at fs q' \<noteq> Some (Lnk t)) \<Longrightarrow>
     real_path (set_node q' (Reg bs) fs) p = Some q"
  by (simp add: real_path_def resolve_set_node)

lemma remaining_bytes:
  assumes "soff \<le> len" and "len < 2 ^ 63"
  shows "nat ((int len - int soff) mod 2 ^ 64) = len - soff"
proof -
  have "int len < 2 ^ 63"
    using assms(2) by simp
  then have "(int len - int soff) mod 2 ^ 64 = int len - int soff"
    using assms(1) by (intro mod_pos_pos_trivial) simp_all
  then show ?thesis
    by (simp only: nat_diff_distrib nat_int of_nat_0_le_iff)
qed

lemma posix_transfer_file_correct:
  assumes rd: "sys_open_rd fs source = Some q" and wr: "sys_open_wr False fs dest = Some (q', fs1)"
    and "q \<noteq> q'" and "soff \<le> length (contents fs q)" and "length (contents fs q) < 2 ^ 63"
  obtains ok fs' where "posix_transfer_file fs source dest soff doff sz = Some (ok, fs')"
    and "ok \<Longrightarrow> fs' = set_node q' (Reg (write_at (contents fs q') doff
        (take (min sz (length (contents fs q) - soff)) (drop soff (contents fs q))))) fs"
    and "\<And>p. p \<noteq> q' \<Longrightarrow> node_at fs' p = node_at fs p"
    and "\<not> io_error fs q \<Longrightarrow> \<not> io_error fs q' \<Longrightarrow> wr_chunk fs = (\<lambda>n. n) \<Longrightarrow> ok"
proof -
  let ?bs = "contents fs q"
  have rp: "real_path fs source = Some q" and q: "node_at fs q = Some (Reg ?bs)"
    using open_rd_node [OF rd] by auto
  have fs1: "fs1 = set_node q' (Reg (contents fs q')) fs" and nl: "\<And>t. node_at fs q' \<noteq> Some (Lnk t)"
    using open_wr_False [OF wr] by auto
  have q1: "node_at fs1 q = Some (Reg ?bs)" and q'1: "node_at fs1 q' = Some (Reg (contents fs q'))"
    using fs1 q assms(3) by auto
  have "real_path fs1 source = Some q"
    unfolding fs1 using rp nl by (rule real_path_set_node)
  with q1 have "file_size fs1 source = int (length ?bs)"
    by (simp add: file_size_def sys_stat_def)
  with assms(4,5) have rem: "min sz (nat ((file_size fs1 source - int soff) mod 2 ^ 64)) =
      min sz (length ?bs - soff)"
    by (simp only: remaining_bytes)
  have "posix_transfer_file fs source dest soff doff sz =
      file_transfer_loop fs1 q soff q' doff (min sz (length ?bs - soff))"
    unfolding posix_transfer_file_def rd wr option.case prod.case rem ..
  moreover have "soff + min sz (length ?bs - soff) \<le> length ?bs"
    using assms(4) by simp
  ultimately obtain ok fs' where ret: "posix_transfer_file fs source dest soff doff sz = Some (ok, fs')"
    and fin: "ok \<longrightarrow> fs' = set_node q' (Reg (write_at (contents fs q') doff
        (take (min sz (length ?bs - soff)) (drop soff ?bs)))) fs1"
    and frame: "\<forall>p. p \<noteq> q' \<longrightarrow> node_at fs' p = node_at fs1 p"
    and good: "\<not> io_error fs1 q \<and> \<not> io_error fs1 q' \<and> wr_chunk fs1 = (\<lambda>n. n) \<longrightarrow> ok"
    using transfer_loop_correct [OF assms(3) q1 q'1, of soff "min sz (length ?bs - soff)" doff]
    by metis
  show ?thesis
  proof (rule that [OF ret])
    show "ok \<Longrightarrow> fs' = set_node q' (Reg (write_at (contents fs q') doff
        (take (min sz (length ?bs - soff)) (drop soff ?bs)))) fs"
      using fin fs1 by simp
    show "p \<noteq> q' \<Longrightarrow> node_at fs' p = node_at fs p" for p
      using frame fs1 by simp
    show "\<not> io_error fs q \<Longrightarrow> \<not> io_error fs q' \<Longrightarrow> wr_chunk fs = (\<lambda>n. n) \<Longrightarrow> ok"
      using good fs1 by simp
  qed
qed

lemma write_file_content:
  assumes "write_file fs p bs = (True, fs')"
  shows "\<exists>q. real_path fs p = Some q \<and> fs' = set_node q (Reg bs) fs"
proof -
  from assms obtain q fs1 k fs2 where op: "sys_open_wr True fs p = Some (q, fs1)"
      and pw: "sys_pwrite fs1 q bs 0 = Some (k, fs2)" and k: "k = length bs" "fs' = fs2"
    by (auto simp: write_file_def split: option.splits)
  from open_wr_True [OF op] have fs1: "fs1 = set_node q (Reg []) fs" and "real_path fs p = Some q"
    by auto
  moreover have "fs2 = set_node q (Reg bs) fs"
    using pw k(1) by (auto simp: sys_pwrite_def Let_def contents_set_node fs1 split: if_splits)
  ultimately show ?thesis
    using k(2) by blast
qed

lemma read_file_content:
  assumes "read_file fs p n = Some bs"
  shows "\<exists>q. real_path fs p = Some q \<and> bs = take n (contents fs q) \<and> length bs = n"
proof -
  from assms obtain q where op: "sys_open_rd fs p = Some q"
      and pr: "sys_pread fs q n 0 = Some bs" and len: "length bs = n"
    by (auto simp: read_file_def split: option.splits if_splits)
  from pr obtain k where "bs = take k (contents fs q)"
    by (auto simp: sys_pread_def Let_def split: if_splits)
  with len have "bs = take n (contents fs q)"
    by (auto simp: min_def)
  with open_rd_node [OF op] len show ?thesis by blast
qed

section \<open>Properties\<close>

text \<open>
  C4: a transfer between two different regular files always returns, whatever the kernel does
  with each request. When it reports success the requested range of the source stands at the
  requested offset of the destination and nothing else has changed; it may fail only on a
  data-transfer error or a short write.
\<close>

theorem transfer_copies_range:
  assumes "sys_open_rd fs source = Some q" and "sys_open_wr False fs dest = Some (q', fs1)"
    and "q \<noteq> q'" and "soff \<le> length (contents fs q)" and "length (contents fs q) < 2 ^ 63"
  shows "\<exists>ok fs'. posix_transfer_file fs source dest soff doff sz = Some (ok, fs') \<and>
    (ok \<longrightarrow> fs' = set_node q' (Reg (write_at (contents fs q') doff
        (take (min sz (length (contents fs q) - soff)) (drop soff (contents fs q))))) fs) \<and>
    (\<forall>p. p \<noteq> q' \<longrightarrow> node_at fs' p = node_at fs p) \<and>
    (\<not> io_error fs q \<and> \<not> io_error fs q' \<and> wr_chunk fs = (\<lambda>n. n) \<longrightarrow> ok)"
proof -
  obtain ok fs' where r: "posix_transfer_file fs source dest soff doff sz = Some (ok, fs')"
    and "ok \<longrightarrow> fs' = set_node q' (Reg (write_at (contents fs q') doff
        (take (min sz (length (contents fs q) - soff)) (drop soff (contents fs q))))) fs"
    and "\<forall>p. p \<noteq> q' \<longrightarrow> node_at fs' p = node_at fs p"
    and "\<not> io_error fs q \<and> \<not> io_error fs q' \<and> wr_chunk fs = (\<lambda>n. n) \<longrightarrow> ok"
    using posix_transfer_file_correct [OF assms, of doff sz] by metis
  then show ?thesis
    by (intro exI [of _ ok] exI [of _ fs']) simp
qed

definition sample_fs :: fsys where
  "sample_fs = healthy [(''/s'', Dir), (''/p'', Dir), (''/s/a'', Reg [1, 2, 3, 4, 5]), (''/p/b'', Reg [9, 9, 9])]"

lemma sample_fs_open:
  "sys_open_rd sample_fs ''/s/a'' = Some ''/s/a''"
  "sys_open_wr False sample_fs ''/p/b'' = Some (''/p/b'', sample_fs)"
  "contents sample_fs ''/s/a'' = [1, 2, 3, 4, 5]" "contents sample_fs ''/p/b'' = [9, 9, 9]"
  by (simp_all add: sample_fs_def healthy_def sys_open_rd_def sys_open_wr_def real_path_def node_at_def
      numeral_eq_Suc contents_def)

theorem transfer_copies_range_witness:
  "\<exists>fs'. posix_transfer_file sample_fs ''/s/a'' ''/p/b'' 1 2 3 = Some (True, fs') \<and>
     fs' = set_node ''/p/b'' (Reg [9, 9, 2, 3, 4]) sample_fs"
  using transfer_copies_range [OF sample_fs_open(1,2), of 1 2 3]
  by (auto simp: sample_fs_open write_at_def) (auto simp: sample_fs_def healthy_def)

text \<open>
  C5: when the source has ended and bytes are still expected, the transfer loop never returns:
  a zero-length read is not treated as the end of the file.
\<close>

theorem transfer_hangs_at_end_of_file:
  assumes "src \<noteq> dst" and "\<not> io_error fs src" and "\<not> io_error fs dst"
    and "length (contents fs src) \<le> soff" and "0 < remaining"
  shows "file_transfer_loop fs src soff dst doff remaining = None"
  using assms by (rule transfer_loop_stuck)

theorem transfer_hangs_at_end_of_file_witness:
  "file_transfer_loop sample_fs ''/s/a'' 5 ''/p/b'' 0 1 = None"
  by (rule transfer_hangs_at_end_of_file) (simp_all add: sample_fs_open, simp_all add: sample_fs_def healthy_def)

text \<open>
  C7: the destination is opened without truncation, so a transfer over a longer file leaves
  that file's tail behind the transferred bytes although it reports success.
\<close>

theorem transfer_keeps_stale_tail:
  assumes "sys_open_rd fs source = Some q" and "sys_open_wr False fs dest = Some (q', fs1)"
    and "q \<noteq> q'" and "contents fs q = bs" and "contents fs q' = bs' @ tail"
    and "length bs' = length bs" and "bs \<noteq> []" and "length bs < 2 ^ 63"
    and "\<not> io_error fs q" and "\<not> io_error fs q'" and "wr_chunk fs = (\<lambda>n. n)"
  shows "posix_transfer_file fs source dest 0 0 SIZE_MAX = Some (True, set_node q' (Reg (bs @ tail)) fs)"
proof -
  have len: "length (contents fs q) < 2 ^ 63"
    using assms(4,8) by simp
  have "take (min SIZE_MAX (length bs - 0)) (drop 0 bs) = bs"
    using assms(8) by simp
  moreover have "write_at (bs' @ tail) 0 bs = bs @ tail"
    using assms(6,7) by (simp add: write_at_longer)
  ultimately show ?thesis
    using posix_transfer_file_correct [OF assms(1,2,3) le0 len, where doff = 0 and sz = SIZE_MAX]
      assms(9,10,11) unfolding assms(4,5) by metis
qed

theorem transfer_keeps_stale_tail_witness:
  "posix_transfer_file sample_fs ''/p/b'' ''/s/a'' 0 0 SIZE_MAX =
     Some (True, set_node ''/s/a'' (Reg [9, 9, 9, 4, 5]) sample_fs)"
proof -
  have "sys_open_rd sample_fs ''/p/b'' = Some ''/p/b''"
      "sys_open_wr False sample_fs ''/s/a'' = Some (''/s/a'', sample_fs)"
    by (simp_all add: sample_fs_def healthy_def sys_open_rd_def sys_open_wr_def real_path_def
        node_at_def numeral_eq_Suc)
  then show ?thesis
    using transfer_keeps_stale_tail [of sample_fs "''/p/b''" _ "''/s/a''" _ _ "[9, 9, 9]" "[1, 2, 3]" "[4, 5]"]
      sample_fs_open(3,4)
    by (simp add: sample_fs_def healthy_def)
qed

text \<open>
  C6: the two builds of the transfer loop (read and write through a buffer, or
  \<^verbatim>\<open>copy_file_range\<close>) return the same result and leave the same files when no request fails.
\<close>

theorem transfer_builds_agree:
  assumes "src \<noteq> dst" and "node_at fs src = Some (Reg bs)" and "node_at fs dst = Some (Reg ds)"
    and "soff + remaining \<le> length bs" and "\<not> io_error fs src" and "\<not> io_error fs dst"
    and "wr_chunk fs = (\<lambda>n. n)"
  shows "file_transfer_loop fs src soff dst doff remaining =
    file_transfer_loop_direct fs src soff dst doff remaining"
  using transfer_loop_correct [OF assms(1-4), of doff] transfer_loop_direct_correct [OF assms(1-6), of doff]
    assms(5,6,7) by metis

theorem transfer_builds_agree_witness:
  "file_transfer_loop sample_fs ''/s/a'' 1 ''/p/b'' 0 4 =
     file_transfer_loop_direct sample_fs ''/s/a'' 1 ''/p/b'' 0 4"
  by (rule transfer_builds_agree [where bs = "[1, 2, 3, 4, 5]" and ds = "[9, 9, 9]"])
    (simp_all add: sample_fs_def healthy_def node_at_def)

text \<open>What \<^verbatim>\<open>write_file\<close> reports written, \<^verbatim>\<open>read_file\<close> of the same length reads back.\<close>

lemma write_read_file_roundtrip:
  assumes "write_file fs p bs = (True, fs')" and "read_file fs' p (length bs) = Some bs'"
  shows "bs' = bs"
proof -
  from write_file_content [OF assms(1)] obtain q where q: "real_path fs p = Some q"
      and fs': "fs' = set_node q (Reg bs) fs"
    by blast
  from assms(1) have "\<forall>t. node_at fs q \<noteq> Some (Lnk t)"
    using q open_wr_True [of fs p] by (auto simp: write_file_def split: option.splits)
  then have "real_path fs' p = Some q"
    unfolding fs' using q by (intro real_path_set_node) simp_all
  with read_file_content [OF assms(2)] show ?thesis
    by (simp add: fs' contents_set_node)
qed

end
