(* ===== verification/Ckpt_Util.thy ===== *)
theory Ckpt_Util
  imports File_Util
begin

text \<open>
  The on-disk header of a memory-based checkpoint. \<^verbatim>\<open>read_header\<close> of
  \<^verbatim>\<open>src/src/common/ckpt_util.cpp\<close> parses and validates it; the reference encoding
  \<open>ckpt_header\<close> states the layout that \<^verbatim>\<open>client_impl_t::checkpoint_mem\<close> writes. The loop
  counter of \<^verbatim>\<open>read_header\<close> is an \<^verbatim>\<open>unsigned int\<close> compared with a \<^verbatim>\<open>size_t\<close>, and the
  sizes are added modulo \<open>2 ^ 64\<close>.
\<close>

section \<open>Definitions\<close>

type_synonym region_sizes = "(int \<times> size_t) list"

text \<open>
  The entry loop over the bytes that follow the count: \<open>None\<close> is the stream failure of a
  read past the end. The entries read so far stay in the map in either case.
\<close>

function header_loop ::
    "byte list \<Rightarrow> 32 word \<Rightarrow> size_t \<Rightarrow> region_sizes \<Rightarrow> size_t \<Rightarrow> nat \<Rightarrow>
     region_sizes \<times> (size_t \<times> nat) option" where
  "header_loop rest i no_regions region_info expected_size pos =
     (if (ucast i :: size_t) < no_regions then
        (if length rest < 12 then (region_info, None)
         else let rid = dec_int (take 4 rest); region_size = dec_size (take 8 (drop 4 rest))
              in header_loop (drop 12 rest) (i + 1) no_regions
                   (omap_insert rid region_size region_info) (expected_size + region_size) (pos + 12))
      else (region_info, Some (expected_size, pos)))"
  by pat_completeness auto
termination
  by (relation "measure (\<lambda>(rest, _). length rest)") auto

declare header_loop.simps [simp del]

definition read_header :: "'x fsys_scheme \<Rightarrow> string \<Rightarrow> size_t \<times> region_sizes" where
  "read_header fs ckpt_name =
     (case sys_open_rd fs ckpt_name of
        None \<Rightarrow> (0, [])
      | Some f \<Rightarrow>
          let bs = contents fs f in
          if io_error fs f \<or> length bs < 8 then (0, [])
          else (case header_loop (drop 8 bs) 0 (dec_size (take 8 bs)) [] 0 8 of
                  (region_info, None) \<Rightarrow> (0, region_info)
                | (region_info, Some (expected_size, pos)) \<Rightarrow>
                    let header_size = of_nat pos; fsize = of_nat (length bs) - header_size
                    in if fsize \<noteq> expected_size then (0, region_info) else (header_size, region_info)))"

text \<open>The layout, as a reference encoding.\<close>

definition enc_entry :: "int \<times> size_t \<Rightarrow> byte list" where
  "enc_entry e = enc_int (fst e) @ enc_size (snd e)"

definition ckpt_header :: "region_sizes \<Rightarrow> byte list" where
  "ckpt_header rs = enc_size (of_nat (length rs)) @ concat (map enc_entry rs)"

section \<open>The parser accepts what the layout describes\<close>

lemma length_enc_entry [simp]: "length (enc_entry e) = 12"
  by (simp add: enc_entry_def)

lemma length_entries [simp]: "length (concat (map enc_entry rs)) = 12 * length rs"
  by (induction rs) auto

lemma length_ckpt_header [simp]: "length (ckpt_header rs) = 8 + 12 * length rs"
  by (simp add: ckpt_header_def)

lemma ucast_less_of_nat:
  "n < 2 ^ 32 \<Longrightarrow> ((ucast (i :: 32 word) :: size_t) < of_nat n) \<longleftrightarrow> unat i < n"
proof -
  have "unat i < 2 ^ LENGTH(32)"
    by (rule unsigned_less)
  then have "take_bit 64 (unat i) = unat i"
    by (intro take_bit_nat_eq_self) simp
  moreover assume "n < 2 ^ 32"
  ultimately show ?thesis
    by (simp add: word_less_nat_alt unat_of_nat unsigned_ucast_eq)
qed

lemma unat_Suc_32: "unat (i :: 32 word) < n \<Longrightarrow> n < 2 ^ 32 \<Longrightarrow> unat (i + 1) = Suc (unat i)"
  by (simp add: unat_word_ariths)

lemma entry_fields:
  "is_int32 (fst e) \<Longrightarrow> dec_int (take 4 (enc_entry e)) = fst e"
  "dec_size (drop 4 (enc_entry e)) = snd e"
  by (simp_all add: enc_entry_def codec_simps)

lemma header_loop_entries:
  assumes "unat i + length rs = n" and "n < 2 ^ 32"
    and "omap_wf (acc @ rs)" and "\<forall>e \<in> set rs. is_int32 (fst e)"
  shows "header_loop (concat (map enc_entry rs) @ dat) i (of_nat n) acc ex pos =
    (acc @ rs, Some (ex + sum_list (map snd rs), pos + 12 * length rs))"
  using assms
proof (induction rs arbitrary: i acc ex pos)
  case Nil
  then show ?case
    by (subst header_loop.simps) (simp add: ucast_less_of_nat)
next
  case (Cons e rs)
  let ?rest = "concat (map enc_entry rs) @ dat"
  have lt: "(ucast i :: size_t) < of_nat n" and i1: "unat (i + 1) = Suc (unat i)"
    using Cons.prems(1,2) unat_Suc_32 [of i n] by (simp_all add: ucast_less_of_nat)
  have wf: "omap_wf (acc @ [e])"
    using Cons.prems(3) by (auto simp: omap_wf_def sorted_wrt_append)
  then have ins: "omap_insert (fst e) (snd e) acc = acc @ [e]"
    using omap_insert_snoc [of acc "fst e" "snd e"] by simp
  have "header_loop (concat (map enc_entry (e # rs)) @ dat) i (of_nat n) acc ex pos =
      header_loop (drop 12 (enc_entry e @ ?rest)) (i + 1) (of_nat n)
        (omap_insert (fst e) (snd e) acc) (ex + snd e) (pos + 12)"
    using lt Cons.prems(4)
    by (subst header_loop.simps) (simp add: Let_def entry_fields)
  also have "\<dots> = header_loop ?rest (i + 1) (of_nat n) (acc @ [e]) (ex + snd e) (pos + 12)"
    by (simp add: ins)
  also have "\<dots> = ((acc @ [e]) @ rs,
      Some (ex + snd e + sum_list (map snd rs), pos + 12 + 12 * length rs))"
    using Cons.prems i1 by (intro Cons.IH) simp_all
  finally show ?case
    by (simp add: algebra_simps)
qed

text \<open>A checkpoint image: the header of its regions and as many bytes as it announces.\<close>

definition image_ok :: "region_sizes \<Rightarrow> byte list \<Rightarrow> bool" where
  "image_ok rs dat \<longleftrightarrow> omap_wf rs \<and> (\<forall>e \<in> set rs. is_int32 (fst e)) \<and> length rs < 2 ^ 32 \<and>
     (of_nat (length dat) :: size_t) = sum_list (map snd rs)"

lemma read_header_image:
  assumes "sys_open_rd fs p = Some q" and "\<not> io_error fs q"
    and "contents fs q = ckpt_header rs @ dat" and "image_ok rs dat"
  shows "read_header fs p = (of_nat (8 + 12 * length rs), rs)"
proof -
  let ?bs = "ckpt_header rs @ dat"
  have count: "dec_size (take 8 ?bs) = of_nat (length rs)"
    and rest: "drop 8 ?bs = concat (map enc_entry rs) @ dat"
    by (simp_all add: ckpt_header_def codec_simps)
  have "header_loop (drop 8 ?bs) 0 (dec_size (take 8 ?bs)) [] 0 8 =
      ([] @ rs, Some (0 + sum_list (map snd rs), 8 + 12 * length rs))"
    unfolding count rest using assms(4)
    by (intro header_loop_entries) (simp_all add: image_ok_def)
  moreover have "(of_nat (length ?bs) :: size_t) - of_nat (8 + 12 * length rs) = sum_list (map snd rs)"
    using assms(4) by (simp add: image_ok_def)
  ultimately show ?thesis
    using assms(1,2,3) by (simp add: read_header_def Let_def)
qed

section \<open>The parser rejects truncated images\<close>

lemma header_loop_short:
  assumes "unat i + length rs = n" and "n < 2 ^ 32" and "m < 12 * length rs"
  shows "snd (header_loop (take m (concat (map enc_entry rs))) i (of_nat n) acc ex pos) = None"
  using assms
proof (induction rs arbitrary: i m acc ex pos)
  case Nil
  then show ?case by simp
next
  case (Cons e rs)
  have lt: "(ucast i :: size_t) < of_nat n" and i1: "unat (i + 1) = Suc (unat i)"
    using Cons.prems(1,2) unat_Suc_32 [of i n] by (simp_all add: ucast_less_of_nat)
  show ?case
  proof (cases "m < 12")
    case True
    with lt show ?thesis
      by (subst header_loop.simps) simp
  next
    case False
    then have "drop 12 (take m (concat (map enc_entry (e # rs)))) =
        take (m - 12) (concat (map enc_entry rs))"
      by simp
    moreover have "\<not> length (take m (concat (map enc_entry (e # rs)))) < 12"
      using False by simp
    ultimately show ?thesis
      using lt i1 Cons.prems False
      by (subst header_loop.simps) (simp only: if_True if_False Let_def, rule Cons.IH, simp_all)
  qed
qed

lemma read_header_mismatch:
  assumes "sys_open_rd fs p = Some q" and "contents fs q = bs"
    and "header_loop (drop 8 bs) 0 (dec_size (take 8 bs)) [] 0 8 = (info, Some (ex, pos))"
    and "(of_nat (length bs) :: size_t) - of_nat pos \<noteq> ex"
  shows "fst (read_header fs p) = 0"
  using assms by (simp add: read_header_def Let_def)

lemma read_header_truncated:
  assumes "sys_open_rd fs p = Some q" and "contents fs q = take m (ckpt_header rs @ dat)"
    and "image_ok rs dat" and "m < length (ckpt_header rs @ dat)"
    and "length (ckpt_header rs @ dat) < 2 ^ 63"
  shows "fst (read_header fs p) = 0"
proof (cases "m < 8 \<or> io_error fs q")
  case True
  with assms(1,2) show ?thesis
    by (auto simp: read_header_def Let_def)
next
  case False
  let ?bs = "take m (ckpt_header rs @ dat)"
  have len: "length rs < 2 ^ 32"
    using assms(3) by (simp add: image_ok_def)
  have count: "dec_size (take 8 ?bs) = of_nat (length rs)"
    and rest: "drop 8 ?bs = take (m - 8) (concat (map enc_entry rs) @ dat)"
    using False by (simp_all add: ckpt_header_def codec_simps min_def)
  show ?thesis
  proof (cases "m - 8 < 12 * length rs")
    case True
    then have "snd (header_loop (drop 8 ?bs) 0 (dec_size (take 8 ?bs)) [] 0 8) = None"
      unfolding count rest using len by (simp add: header_loop_short)
    with False assms(1,2) show ?thesis
      by (auto simp: read_header_def Let_def split: prod.splits option.splits)
  next
    case ge: False
    let ?d = "take (m - 8 - 12 * length rs) dat"
    have rest': "drop 8 ?bs = concat (map enc_entry rs) @ ?d"
      using rest ge by simp
    have loop: "header_loop (drop 8 ?bs) 0 (dec_size (take 8 ?bs)) [] 0 8 =
        ([] @ rs, Some (0 + sum_list (map snd rs), 8 + 12 * length rs))"
      unfolding count rest' using assms(3)
      by (intro header_loop_entries) (simp_all add: image_ok_def)
    have m: "m = 8 + 12 * length rs + length ?d" and short: "length ?d < length dat"
      using ge False assms(4) by auto
    have big: "length dat < 2 ^ 63"
      using assms(5) by simp
    have "(of_nat m :: size_t) - of_nat (8 + 12 * length rs) = of_nat (length ?d)"
      by (subst m) simp
    moreover have "(of_nat (length ?d) :: size_t) \<noteq> of_nat (length dat)"
    proof
      assume "(of_nat (length ?d) :: size_t) = of_nat (length dat)"
      then have "length ?d mod 2 ^ 64 = length dat mod 2 ^ 64"
        using word_of_nat_eq_iff [where 'a = 64] by (simp add: take_bit_eq_mod)
      with short big show False by simp
    qed
    ultimately have "(of_nat m :: size_t) - of_nat (8 + 12 * length rs) \<noteq> sum_list (map snd rs)"
      using assms(3) by (simp add: image_ok_def)
    moreover have "length ?bs = m"
      using assms(4) by simp
    ultimately show ?thesis
      by (intro read_header_mismatch [OF assms(1,2) loop]) (simp only: add_0 not_False_eq_True)
  qed
qed

section \<open>Properties\<close>

text \<open>
  C8: \<^verbatim>\<open>read_header\<close> accepts every file that has the layout of a checkpoint, and returns the
  position of the data and the ids and sizes of the regions in file order.
\<close>

theorem header_roundtrip:
  assumes "sys_open_rd fs p = Some q" and "\<not> io_error fs q"
    and "contents fs q = ckpt_header rs @ dat" and "image_ok rs dat"
  shows "read_header fs p = (of_nat (8 + 12 * length rs), rs)"
  using assms by (rule read_header_image)

definition sample_image :: "byte list" where
  "sample_image = ckpt_header [(0, 2), (5, 1)] @ [11, 12, 13]"

definition sample_ckpt_fs :: "byte list \<Rightarrow> fsys" where
  "sample_ckpt_fs bs = healthy [(''/s'', Dir), (''/s/x-0-1.dat'', Reg bs)]"

lemma sample_image_ok: "image_ok [(0, 2), (5, 1)] [11, 12, 13]"
  by (simp add: image_ok_def is_int32_def)

lemma sample_ckpt_open:
  "sys_open_rd (sample_ckpt_fs bs) ''/s/x-0-1.dat'' = Some ''/s/x-0-1.dat''"
  "contents (sample_ckpt_fs bs) ''/s/x-0-1.dat'' = bs" "io_error (sample_ckpt_fs bs) p = False"
  by (simp_all add: sample_ckpt_fs_def healthy_def sys_open_rd_def real_path_def node_at_def
      numeral_eq_Suc contents_def)

theorem header_roundtrip_witness:
  "read_header (sample_ckpt_fs sample_image) ''/s/x-0-1.dat'' = (32, [(0, 2), (5, 1)])"
  using header_roundtrip [OF sample_ckpt_open(1) _ _ sample_image_ok, of sample_image]
  by (simp add: sample_ckpt_open sample_image_def)

text \<open>
  C9: a checkpoint file that lost any number of bytes at its end, in the header or in the
  data, is rejected: the header size 0 makes \<^verbatim>\<open>recover_mem\<close> and \<^verbatim>\<open>recover_size\<close> fail.
\<close>

theorem truncated_checkpoint_rejected:
  assumes "sys_open_rd fs p = Some q" and "contents fs q = take m (ckpt_header rs @ dat)"
    and "image_ok rs dat" and "m < length (ckpt_header rs @ dat)"
    and "length (ckpt_header rs @ dat) < 2 ^ 63"
  shows "fst (read_header fs p) = 0"
  using assms by (rule read_header_truncated)

theorem truncated_checkpoint_rejected_witness:
  "fst (read_header (sample_ckpt_fs (take 34 sample_image)) ''/s/x-0-1.dat'') = 0"
  using truncated_checkpoint_rejected [OF sample_ckpt_open(1) _ sample_image_ok, of "take 34 sample_image" 34]
  by (simp add: sample_ckpt_open sample_image_def)

end
