(* ===== verification/Storage.thy ===== *)
theory Storage
  imports Ckpt_Util
begin

text \<open>
  The storage modules of \<^verbatim>\<open>src/src/storage\<close>. A \<^verbatim>\<open>storage_module_t\<close> object is the record of
  its virtual methods; \<open>posix_module\<close> and \<open>posix_agg_module\<close> build the records of the two
  POSIX classes. The locale \<open>storage_contract\<close> states what the transfer and versioning
  modules rely on, and both classes are shown to keep it.
\<close>

section \<open>The interface\<close>

record 'x storage_module =
  sm_get_versions :: "command_t \<Rightarrow> 'x fsys_scheme \<Rightarrow> int list \<Rightarrow> unit res \<times> int list"
  sm_remove :: "command_t \<Rightarrow> 'x fsys_scheme \<Rightarrow> bool \<times> 'x fsys_scheme"
  sm_flush :: "command_t \<Rightarrow> 'x fsys_scheme \<Rightarrow> bool outcome \<times> 'x fsys_scheme"
  sm_restore :: "command_t \<Rightarrow> 'x fsys_scheme \<Rightarrow> bool outcome \<times> 'x fsys_scheme"
  sm_exists :: "command_t \<Rightarrow> 'x fsys_scheme \<Rightarrow> bool"

text \<open>The base class, which also stands in for a class that was not compiled in.\<close>

definition base_module :: "'x storage_module" where
  "base_module =
     \<lparr>sm_get_versions = (\<lambda>c fs result. (Inr (), result)),
      sm_remove = (\<lambda>c fs. (False, fs)),
      sm_flush = (\<lambda>c fs. (Ok False, fs)),
      sm_restore = (\<lambda>c fs. (Ok False, fs)),
      sm_exists = (\<lambda>c fs. False)\<rparr>"

text \<open>A transfer as a call: not returning leaves the files as they were found.\<close>

definition run_transfer ::
    "(bool \<times> 'x fsys_scheme) option \<Rightarrow> 'x fsys_scheme \<Rightarrow> bool outcome \<times> 'x fsys_scheme" where
  "run_transfer t fs = (case t of None \<Rightarrow> (Diverges, fs) | Some (ok, fs') \<Rightarrow> (Ok ok, fs'))"

section \<open>One file per process\<close>

text \<open>The value of \<^verbatim>\<open>parse_dir\<close> is not looked at; an exception is passed on.\<close>

definition discard :: "bool res \<times> 's \<Rightarrow> unit res \<times> 's" where
  "discard r = (case r of (Inl e, s) \<Rightarrow> (Inl e, s) | (Inr _, s) \<Rightarrow> (Inr (), s))"

text \<open>\<^verbatim>\<open>std::set<int>\<close> is an ascending list without repetitions; \<^verbatim>\<open>insert\<close> is \<open>insort_insert\<close>.\<close>

definition posix_get_versions ::
    "string \<Rightarrow> command_t \<Rightarrow> 'x fsys_scheme \<Rightarrow> int list \<Rightarrow> unit res \<times> int list" where
  "posix_get_versions persistent cmd fs result =
     discard (parse_dir fs persistent (cname cmd)
       (\<lambda>_ i v r. if i = unique_id cmd then insort_insert v r else r) result)"

definition posix_remove :: "string \<Rightarrow> command_t \<Rightarrow> 'x fsys_scheme \<Rightarrow> bool \<times> 'x fsys_scheme" where
  "posix_remove persistent cmd fs = sys_unlink fs (filename cmd persistent)"

definition posix_flush ::
    "string \<Rightarrow> string \<Rightarrow> command_t \<Rightarrow> 'x fsys_scheme \<Rightarrow> bool outcome \<times> 'x fsys_scheme" where
  "posix_flush scratch persistent cmd fs =
     (if original cmd = '''' then
        run_transfer (posix_transfer_file fs (filename cmd scratch) (filename cmd persistent) 0 0 SIZE_MAX) fs
      else
        (case run_transfer (posix_transfer_file fs (filename cmd scratch) (original cmd) 0 0 SIZE_MAX) fs of
           (Ok True, fs1) \<Rightarrow>
             (let fs2 = snd (sys_unlink fs1 (filename cmd persistent))
              in case sys_symlink fs2 (original cmd) (filename cmd persistent) of
                   (ok, fs3) \<Rightarrow> (Ok ok, fs3))
         | r \<Rightarrow> r))"

definition posix_restore ::
    "string \<Rightarrow> string \<Rightarrow> command_t \<Rightarrow> 'x fsys_scheme \<Rightarrow> bool outcome \<times> 'x fsys_scheme" where
  "posix_restore scratch persistent cmd fs =
     run_transfer (posix_transfer_file fs (filename cmd persistent) (filename cmd scratch) 0 0 SIZE_MAX) fs"

definition posix_exists :: "string \<Rightarrow> command_t \<Rightarrow> 'x fsys_scheme \<Rightarrow> bool" where
  "posix_exists persistent cmd fs = sys_access fs (filename cmd persistent)"

definition posix_module :: "string \<Rightarrow> string \<Rightarrow> 'x storage_module" where
  "posix_module scratch persistent =
     \<lparr>sm_get_versions = posix_get_versions persistent,
      sm_remove = posix_remove persistent,
      sm_flush = posix_flush scratch persistent,
      sm_restore = posix_restore scratch persistent,
      sm_exists = posix_exists persistent\<rparr>"

text \<open>The constructor \<^verbatim>\<open>posix_module_t\<close>.\<close>

definition new_posix_module ::
    "string \<Rightarrow> string \<Rightarrow> 'x fsys_scheme \<Rightarrow> 'x storage_module res \<times> 'x fsys_scheme" where
  "new_posix_module scratch persistent fs =
     (case check_dir fs persistent of
        (ok, fs') \<Rightarrow> (if ok then Inr (posix_module scratch persistent) else Inl Fatal, fs'))"

section \<open>One aggregated file per version\<close>

definition agg_get_versions ::
    "string \<Rightarrow> command_t \<Rightarrow> 'x fsys_scheme \<Rightarrow> int list \<Rightarrow> unit res \<times> int list" where
  "agg_get_versions persistent cmd fs result =
     discard (parse_dir fs persistent (cname cmd)
       (\<lambda>_ i v r. if i = ID_AGG then insort_insert v r else r) result)"

definition agg_flush ::
    "string \<Rightarrow> string \<Rightarrow> command_t \<Rightarrow> 'x fsys_scheme \<Rightarrow> bool outcome \<times> 'x fsys_scheme" where
  "agg_flush scratch persistent cmd fs =
     run_transfer (posix_transfer_file fs (filename cmd scratch) (agg_filename cmd persistent)
       0 (unat (offset cmd)) SIZE_MAX) fs"

text \<open>
  \<^verbatim>\<open>return unlink(...)\<close>: the integer 0 of a successful \<^verbatim>\<open>unlink\<close> converts to false, the -1 of
  a failed one to true.
\<close>

definition agg_remove :: "string \<Rightarrow> command_t \<Rightarrow> 'x fsys_scheme \<Rightarrow> bool \<times> 'x fsys_scheme" where
  "agg_remove persistent cmd fs =
     (case sys_unlink fs (agg_filename cmd persistent) of (ok, fs') \<Rightarrow> (\<not> ok, fs'))"

abbreviation LONG_MAX :: int where
  "LONG_MAX \<equiv> 9223372036854775807"

text \<open>
  \<^verbatim>\<open>restore\<close> reads the number of ranks and one or two offsets of the offset map. It checks
  for -1 only: a shorter read leaves the variables uninitialised, and using them is undefined.
\<close>

definition agg_restore ::
    "string \<Rightarrow> string \<Rightarrow> string \<Rightarrow> command_t \<Rightarrow> 'x fsys_scheme \<Rightarrow> bool outcome \<times> 'x fsys_scheme" where
  "agg_restore scratch persistent meta cmd fs =
     (case sys_open_rd fs (agg_filename cmd meta) of
        None \<Rightarrow> (Ok False, fs)
      | Some fi \<Rightarrow>
          (case sys_pread fs fi 8 0 of
             None \<Rightarrow> (Ok False, fs)
           | Some b0 \<Rightarrow>
               if length b0 \<noteq> 8 then (Throws Undefined, fs)
               else
                 let num_ranks = dec_long b0;
                     pos = nat (((unique_id cmd + 1) mod 2 ^ 64 * 8) mod 2 ^ 64);
                     lst = (unique_id cmd = num_ranks - 1)
                 in (case sys_pread fs fi (if lst then 8 else 16) pos of
                       None \<Rightarrow> (Ok False, fs)
                     | Some b1 \<Rightarrow>
                         if length b1 \<noteq> (if lst then 8 else 16) then (Throws Undefined, fs)
                         else
                           let off0 = dec_long (take 8 b1);
                               off1 = (if lst then LONG_MAX else dec_long (drop 8 b1) - off0)
                           in run_transfer (posix_transfer_file fs (agg_filename cmd persistent)
                                (filename cmd scratch) (nat (off0 mod 2 ^ 64)) 0
                                (nat (off1 mod 2 ^ 64))) fs)))"

definition agg_exists :: "string \<Rightarrow> command_t \<Rightarrow> 'x fsys_scheme \<Rightarrow> bool" where
  "agg_exists persistent cmd fs = sys_access fs (agg_filename cmd persistent)"

definition posix_agg_module :: "string \<Rightarrow> string \<Rightarrow> string \<Rightarrow> 'x storage_module" where
  "posix_agg_module scratch persistent meta =
     \<lparr>sm_get_versions = agg_get_versions persistent,
      sm_remove = agg_remove persistent,
      sm_flush = agg_flush scratch persistent,
      sm_restore = agg_restore scratch persistent meta,
      sm_exists = agg_exists persistent\<rparr>"

definition new_posix_agg_module ::
    "string \<Rightarrow> string \<Rightarrow> string \<Rightarrow> 'x fsys_scheme \<Rightarrow> 'x storage_module res \<times> 'x fsys_scheme" where
  "new_posix_agg_module scratch persistent meta fs =
     (case new_posix_module scratch persistent fs of
        (Inl e, fs1) \<Rightarrow> (Inl e, fs1)
      | (Inr _, fs1) \<Rightarrow>
          (case check_dir fs1 meta of
             (ok, fs2) \<Rightarrow>
               (if ok then Inr (posix_agg_module scratch persistent meta) else Inl Fatal, fs2)))"

section \<open>The contract\<close>

text \<open>
  \<open>stored c bs fs\<close> says that the backing store holds the bytes \<open>bs\<close> for the checkpoint of
  \<open>c\<close>; \<open>ready c fs\<close> that the environment is the one the module is configured for. Success
  is what the method reports, so the laws hold under every combination of faults.
\<close>

locale storage_contract =
  fixes sm :: "'x storage_module"
    and scratch :: string
    and ready :: "command_t \<Rightarrow> 'x fsys_scheme \<Rightarrow> bool"
    and stored :: "command_t \<Rightarrow> byte list \<Rightarrow> 'x fsys_scheme \<Rightarrow> bool"
  assumes flush_stores: "ready c fs \<Longrightarrow> sm_flush sm c fs = (Ok True, fs') \<Longrightarrow>
      stored c (contents fs (filename c scratch)) fs'"
    and flush_returns: "ready c fs \<Longrightarrow> \<exists>ok fs'. sm_flush sm c fs = (Ok ok, fs')"
    and restore_reads: "stored c bs fs \<Longrightarrow> node_at fs (filename c scratch) = None \<Longrightarrow>
      sm_restore sm c fs = (Ok True, fs') \<Longrightarrow> node_at fs' (filename c scratch) = Some (Reg bs)"
    and stored_exists: "stored c bs fs \<Longrightarrow> sm_exists sm c fs"
    and stored_listed: "stored c bs fs \<Longrightarrow> sm_get_versions sm c fs r = (Inr (), r') \<Longrightarrow>
      version c \<in> set r'"
    and stored_lose_local: "stored c bs fs \<Longrightarrow> stored c bs (del_node (filename c scratch) fs)"
    and stored_kind: "stored (c\<lparr>command := k\<rparr>) = stored c"
begin

text \<open>Flushing, losing the local file and restoring gives the local file back.\<close>

lemma flush_lose_restore:
  assumes "ready c fs" and "sm_flush sm c fs = (Ok True, fs1)"
    and "sm_restore sm c (del_node (filename c scratch) fs1) = (Ok True, fs2)"
  shows "node_at fs2 (filename c scratch) = Some (Reg (contents fs (filename c scratch)))"
proof (rule restore_reads)
  show "stored c (contents fs (filename c scratch)) (del_node (filename c scratch) fs1)"
    using flush_stores [OF assms(1,2)] by (rule stored_lose_local)
qed (use assms(3) in simp_all)

lemma flush_then_exists:
  "ready c fs \<Longrightarrow> sm_flush sm c fs = (Ok True, fs1) \<Longrightarrow>
     sm_exists sm c (del_node (filename c scratch) fs1)"
  by (blast intro: flush_stores stored_lose_local stored_exists)

lemma flush_then_listed:
  "ready c fs \<Longrightarrow> sm_flush sm c fs = (Ok True, fs1) \<Longrightarrow>
     sm_get_versions sm c (del_node (filename c scratch) fs1) r = (Inr (), r') \<Longrightarrow>
     version c \<in> set r'"
  by (blast intro: flush_stores stored_lose_local stored_listed)

end

section \<open>Transfers between plain files\<close>

lemma filename_inject: "filename c d = filename c d' \<longleftrightarrow> d = d'"
  by (simp add: filename_def)

lemma filename_not_dir [simp]: "filename c d \<noteq> d" "agg_filename c d \<noteq> d" "filename c d \<noteq> []"
  "agg_filename c d \<noteq> []"
  by (simp_all add: filename_def agg_filename_def)

lemma opendir_set_node [simp]: "p \<noteq> d \<Longrightarrow> sys_opendir (set_node p n fs) d = sys_opendir fs d"
  by (simp add: sys_opendir_def is_dir_def)

lemma opendir_del_node [simp]: "p \<noteq> d \<Longrightarrow> sys_opendir (del_node p fs) d = sys_opendir fs d"
  by (simp add: sys_opendir_def is_dir_def)

lemma open_rd_reg: "sys_open_rd fs p = Some q \<Longrightarrow> node_at fs p = Some (Reg bs) \<Longrightarrow> q = p"
  using open_rd_node [of fs p q] real_path_self [of fs p] by auto

lemma open_wr_plain:
  "sys_open_wr tr fs p = Some (q, fs1) \<Longrightarrow> (\<And>t. node_at fs p \<noteq> Some (Lnk t)) \<Longrightarrow> q = p"
  using real_path_self [of fs p]
  by (auto simp: sys_open_wr_def split: option.splits node.splits if_splits)

text \<open>A transfer out of a regular file into a path that is no link always returns.\<close>

lemma transfer_plain:
  assumes "node_at fs s = Some (Reg bs)" and "\<And>t. node_at fs d \<noteq> Some (Lnk t)" and "s \<noteq> d"
    and "soff \<le> length bs" and "length bs < 2 ^ 63"
  obtains ok fs' where "posix_transfer_file fs s d soff doff sz = Some (ok, fs')"
    and "ok \<Longrightarrow> fs' = set_node d (Reg (write_at (contents fs d) doff
        (take (min sz (length bs - soff)) (drop soff bs)))) fs"
    and "\<And>p. p \<noteq> d \<Longrightarrow> node_at fs' p = node_at fs p"
proof (cases "sys_open_rd fs s = None \<or> sys_open_wr False fs d = None")
  case True
  then have "posix_transfer_file fs s d soff doff sz = Some (False, fs)"
    by (auto simp: posix_transfer_file_def split: option.splits)
  then show ?thesis
    by (rule that) simp_all
next
  case False
  then obtain q q' fs1 where rd: "sys_open_rd fs s = Some q" and wr: "sys_open_wr False fs d = Some (q', fs1)"
    by auto
  have q: "q = s" "q' = d"
    using open_rd_reg [OF rd assms(1)] open_wr_plain [OF wr assms(2)] by auto
  have bs: "contents fs s = bs"
    using assms(1) by (simp add: contents_def)
  show ?thesis
    using posix_transfer_file_correct [OF rd wr, where soff = soff and doff = doff and sz = sz] assms(3,4,5) that
    unfolding q bs by blast
qed

text \<open>Whole-file transfers into a file that is not longer.\<close>

lemma transfer_whole:
  assumes "node_at fs s = Some (Reg bs)" and "\<And>t. node_at fs d \<noteq> Some (Lnk t)" and "s \<noteq> d"
    and "length bs < 2 ^ 63" and "length (contents fs d) \<le> length bs"
    and "posix_transfer_file fs s d 0 0 SIZE_MAX = Some (True, fs')"
  shows "fs' = set_node d (Reg bs) fs"
proof -
  have whole: "take (min SIZE_MAX (length bs - 0)) (drop 0 bs) = bs"
    using assms(4) by simp
  obtain ok fs1 where "posix_transfer_file fs s d 0 0 SIZE_MAX = Some (ok, fs1)"
      and "ok \<Longrightarrow> fs1 = set_node d (Reg (write_at (contents fs d) 0 bs)) fs"
    using transfer_plain [OF assms(1,2,3) le0 assms(4), of 0 SIZE_MAX] unfolding whole by blast
  with assms(5,6) show ?thesis
    by (simp add: write_at_cover)
qed

text \<open>In an environment without faults a transfer into a new file succeeds.\<close>

lemma transfer_new:
  assumes "faultless fs" and "node_at fs s = Some (Reg bs)" and "node_at fs d = None" and "d \<noteq> ''''"
    and "is_dir fs (dirname d)" and "soff \<le> length bs" and "length bs < 2 ^ 63"
  shows "posix_transfer_file fs s d soff 0 sz =
    Some (True, set_node d (Reg (take (min sz (length bs - soff)) (drop soff bs))) fs)"
proof -
  have c: "contents fs s = bs" "contents fs d = []" and ne: "s \<noteq> d"
    using assms(2,3) by (auto simp: contents_def)
  have len: "soff \<le> length (contents fs s)" "length (contents fs s) < 2 ^ 63"
    using c assms(6,7) by simp_all
  obtain ok fs' where "posix_transfer_file fs s d soff 0 sz = Some (ok, fs')"
      and "ok \<Longrightarrow> fs' = set_node d (Reg (take (min sz (length bs - soff)) (drop soff bs))) fs"
      and "\<not> io_error fs s \<Longrightarrow> \<not> io_error fs d \<Longrightarrow> wr_chunk fs = (\<lambda>n. n) \<Longrightarrow> ok"
    using posix_transfer_file_correct [OF open_rd_faultless [OF assms(1,2)] open_wr_new [OF assms(1,3,4,5)] ne len,
        where doff = 0 and sz = sz]
    unfolding c write_at_Nil_0 by blast
  with assms(1) show ?thesis
    by (simp add: faultless_def)
qed

lemma transfer_new_whole:
  assumes "faultless fs" and "node_at fs s = Some (Reg bs)" and "node_at fs d = None" and "d \<noteq> ''''"
    and "is_dir fs (dirname d)" and "length bs < 2 ^ 63"
  shows "posix_transfer_file fs s d 0 0 SIZE_MAX = Some (True, set_node d (Reg bs) fs)"
  using transfer_new [OF assms(1-5) le0 assms(6), of SIZE_MAX] assms(6) by simp

section \<open>The contract of the POSIX module\<close>

definition posix_ready :: "string \<Rightarrow> string \<Rightarrow> command_t \<Rightarrow> 'x fsys_scheme \<Rightarrow> bool" where
  "posix_ready scratch persistent c fs \<longleftrightarrow>
     wf_command c \<and> original c = '''' \<and> scratch \<noteq> persistent \<and> fs_wf fs \<and>
     node_at fs (filename c scratch) = Some (Reg (contents fs (filename c scratch))) \<and>
     length (contents fs (filename c scratch)) < 2 ^ 63 \<and> plain fs (filename c persistent) \<and>
     length (contents fs (filename c persistent)) \<le> length (contents fs (filename c scratch)) \<and>
     \<not> deny_read fs (filename c persistent) \<and>
     sys_opendir fs persistent \<and> persistent \<noteq> filename c scratch"

definition posix_stored :: "string \<Rightarrow> string \<Rightarrow> command_t \<Rightarrow> byte list \<Rightarrow> 'x fsys_scheme \<Rightarrow> bool" where
  "posix_stored scratch persistent c bs fs \<longleftrightarrow>
     wf_command c \<and> scratch \<noteq> persistent \<and> fs_wf fs \<and> length bs < 2 ^ 63 \<and>
     node_at fs (filename c persistent) = Some (Reg bs) \<and> \<not> deny_read fs (filename c persistent) \<and>
     sys_opendir fs persistent \<and> persistent \<noteq> filename c scratch"

lemma run_transfer_Ok: "run_transfer t fs = (Ok ok, fs') \<longleftrightarrow> t = Some (ok, fs')"
  by (auto simp: run_transfer_def split: option.splits)

lemma posix_flush_stores:
  assumes "posix_ready scratch persistent c fs"
    and "posix_flush scratch persistent c fs = (Ok True, fs')"
  shows "posix_stored scratch persistent c (contents fs (filename c scratch)) fs'"
proof -
  let ?s = "filename c scratch" and ?d = "filename c persistent"
  have "original c = ''''" and "?s \<noteq> ?d" and "length (contents fs ?s) < 2 ^ 63"
      and "length (contents fs ?d) \<le> length (contents fs ?s)"
      and "node_at fs ?s = Some (Reg (contents fs ?s))" and "\<And>t. node_at fs ?d \<noteq> Some (Lnk t)"
    using assms(1) by (auto simp: plain_iff posix_ready_def contents_def filename_inject)
  moreover from this(1) have "posix_transfer_file fs ?s ?d 0 0 SIZE_MAX = Some (True, fs')"
    using assms(2) by (simp add: posix_flush_def run_transfer_Ok)
  ultimately have "fs' = set_node ?d (Reg (contents fs ?s)) fs" and "length (contents fs ?s) < 2 ^ 63"
    using transfer_whole [of fs ?s "contents fs ?s" ?d fs'] by auto
  then show ?thesis
    using assms(1) by (auto simp: posix_stored_def posix_ready_def plain_iff)
qed

lemma posix_flush_returns:
  assumes "posix_ready scratch persistent c fs"
  shows "\<exists>ok fs'. posix_flush scratch persistent c fs = (Ok ok, fs')"
proof -
  let ?s = "filename c scratch" and ?d = "filename c persistent"
  have o: "original c = ''''" and b: "?s \<noteq> ?d" "length (contents fs ?s) < 2 ^ 63"
      "node_at fs ?s = Some (Reg (contents fs ?s))" "\<And>t. node_at fs ?d \<noteq> Some (Lnk t)"
    using assms by (auto simp: plain_iff posix_ready_def filename_inject)
  obtain ok fs' where "posix_transfer_file fs ?s ?d 0 0 SIZE_MAX = Some (ok, fs')"
    using transfer_plain [OF b(3,4,1) le0 b(2), of 0 SIZE_MAX] by blast
  with o show ?thesis
    by (simp add: posix_flush_def run_transfer_def)
qed

lemma posix_restore_reads:
  assumes "posix_stored scratch persistent c bs fs" and "node_at fs (filename c scratch) = None"
    and "posix_restore scratch persistent c fs = (Ok True, fs')"
  shows "node_at fs' (filename c scratch) = Some (Reg bs)"
proof -
  let ?s = "filename c persistent" and ?d = "filename c scratch"
  have "node_at fs ?s = Some (Reg bs)" and "?s \<noteq> ?d" and "length bs < 2 ^ 63"
    using assms(1) by (auto simp: posix_stored_def filename_inject)
  moreover have "posix_transfer_file fs ?s ?d 0 0 SIZE_MAX = Some (True, fs')"
    using assms(3) by (simp add: posix_restore_def run_transfer_Ok)
  moreover have "contents fs ?d = []"
    using assms(2) by (simp add: contents_def)
  ultimately have "fs' = set_node ?d (Reg bs) fs"
    using assms(2) transfer_whole [of fs ?s bs ?d fs'] by simp
  then show ?thesis by simp
qed

text \<open>What a scan collects: the versions of the entries whose id the callback selects.\<close>

lemma set_fold_versions:
  "set (fold (\<lambda>(d, i, v) r. if P i then insort_insert v r else r) hits (r :: int list)) =
     set r \<union> {v. \<exists>d i. (d, i, v) \<in> set hits \<and> P i}"
  by (induction hits arbitrary: r) (auto simp: set_insort_insert split: if_splits, blast)

lemma set_dir_hits:
  "(d, i, v) \<in> set (dir_hits ex ds) \<longleftrightarrow> d \<in> set ds \<and> command_match d ex = Inr (Some (i, v))"
proof (induction ds)
  case Nil
  then show ?case by (simp add: dir_hits_def List.map_filter_simps)
next
  case (Cons a ds)
  then show ?case by (auto simp: dir_hits_Cons split: sum.splits option.splits)
qed

lemma dir_loop_returns:
  "fst (dir_loop p ex f ds s) = Inr b \<Longrightarrow> \<forall>d \<in> set ds. \<exists>r. command_match d ex = Inr r"
  by (induction ds arbitrary: s) (auto split: sum.splits option.splits)

lemma parse_dir_versions:
  assumes "discard (parse_dir fs p nm (\<lambda>_ i v r. if P i then insort_insert v r else r) (r :: int list)) = (Inr (), r')"
    and "validate_name nm" and "sys_opendir fs p"
  shows "set r' = set r \<union> {v. \<exists>d i. d \<in> set (sys_readdir fs p) \<and> P i \<and>
      command_match d (map atom_of nm) = Inr (Some (i, v))}"
proof -
  let ?f = "\<lambda>_ i v r. if P i then insort_insert v r else r"
  obtain b where loop: "dir_loop p (map atom_of nm) ?f (sys_readdir fs p) r = (Inr b, r')"
    using assms(1,3) validate_name_regex [OF assms(2)]
    by (auto simp: parse_dir_def discard_def split: sum.splits prod.splits)
  have "\<forall>d \<in> set (sys_readdir fs p). \<exists>x. command_match d (map atom_of nm) = Inr x"
    by (rule dir_loop_returns [of p "map atom_of nm" ?f "sys_readdir fs p" r b]) (simp add: loop)
  from dir_loop_fold [OF this, of p ?f r] loop
  have "r' = fold (\<lambda>(d, i, v) r. if P i then insort_insert v r else r)
      (dir_hits (map atom_of nm) (sys_readdir fs p)) r"
    by (simp add: case_prod_unfold)
  then show ?thesis
    by (auto simp: set_fold_versions set_dir_hits)
qed

lemma file_in_readdir:
  "fs_wf fs \<Longrightarrow> wf_command c \<Longrightarrow> node_at fs (filename c d) = Some (Reg bs) \<Longrightarrow>
     stem c \<in> set (sys_readdir fs d)"
  by (auto simp: set_readdir filename_eq_Cons stem_no_slash)

lemma posix_stored_listed:
  assumes "posix_stored scratch persistent c bs fs"
    and "posix_get_versions persistent c fs r = (Inr (), r')"
  shows "version c \<in> set r'"
proof -
  have c: "wf_command c" "validate_name (cname c)" "stem c \<in> set (sys_readdir fs persistent)"
      "sys_opendir fs persistent"
    using assms(1) file_in_readdir [of fs c persistent bs]
    by (auto simp: posix_stored_def wf_command_def)
  have "set r' = set r \<union> {v. \<exists>d i. d \<in> set (sys_readdir fs persistent) \<and> i = unique_id c \<and>
      command_match d (map atom_of (cname c)) = Inr (Some (i, v))}"
    using assms(2) c(2,4) unfolding posix_get_versions_def by (rule parse_dir_versions)
  then show ?thesis
    using c command_match_stem [of c] by auto
qed

lemma access_reg: "node_at fs p = Some (Reg bs) \<Longrightarrow> \<not> deny_read fs p \<Longrightarrow> sys_access fs p"
  using real_path_self [of fs p] by (simp add: sys_access_def)

lemma posix_stored_exists: "posix_stored scratch persistent c bs fs \<Longrightarrow> posix_exists persistent c fs"
  by (auto simp: posix_stored_def posix_exists_def intro: access_reg)

lemma posix_stored_lose:
  "posix_stored scratch persistent c bs fs \<Longrightarrow>
     posix_stored scratch persistent c bs (del_node (filename c scratch) fs)"
  by (auto simp: posix_stored_def filename_inject)

lemma kind_names [simp]: "filename (c\<lparr>command := k\<rparr>) d = filename c d" "agg_filename (c\<lparr>command := k\<rparr>) d = agg_filename c d"
    "meta_filename (c\<lparr>command := k\<rparr>) d = meta_filename c d" "wf_command (c\<lparr>command := k\<rparr>) = wf_command c"
  by (simp_all add: filename_def stem_def agg_filename_def meta_filename_def wf_command_def)

lemma posix_stored_kind: "posix_stored scratch persistent (c\<lparr>command := k\<rparr>) = posix_stored scratch persistent c"
  by (simp add: posix_stored_def fun_eq_iff)

interpretation posix_sm: storage_contract "posix_module scratch persistent" scratch
    "posix_ready scratch persistent" "posix_stored scratch persistent"
  for scratch persistent
  by unfold_locales
    (simp_all add: posix_module_def posix_flush_stores posix_flush_returns posix_restore_reads
      posix_stored_exists posix_stored_listed posix_stored_lose posix_stored_kind)

section \<open>The contract of the aggregated module\<close>

text \<open>
  The offset map of a version: the number of ranks, then the start of every rank's part of the
  aggregated file, as 64-bit integers.
\<close>

definition offset_map :: "nat list \<Rightarrow> byte list" where
  "offset_map offs = concat (map enc_long (int (length offs) # map int offs))"

definition agg_table :: "string \<Rightarrow> nat list \<Rightarrow> command_t \<Rightarrow> 'x fsys_scheme \<Rightarrow> bool" where
  "agg_table meta offs c fs \<longleftrightarrow>
     node_at fs (agg_filename c meta) = Some (Reg (offset_map offs)) \<and>
     int (length offs) \<le> int_max \<and> nat (unique_id c) < length offs \<and> (\<forall>k \<in> set offs. k < 2 ^ 63)"

text \<open>The part of rank \<open>i\<close> spans \<open>len\<close> bytes; the last part ends with the file.\<close>

definition agg_span :: "nat list \<Rightarrow> nat \<Rightarrow> nat \<Rightarrow> nat \<Rightarrow> bool" where
  "agg_span offs i len fsize \<longleftrightarrow>
     (if Suc i = length offs then fsize = offs ! i + len else offs ! Suc i = offs ! i + len)"

definition agg_ready ::
    "string \<Rightarrow> string \<Rightarrow> string \<Rightarrow> nat list \<Rightarrow> command_t \<Rightarrow> 'x fsys_scheme \<Rightarrow> bool" where
  "agg_ready scratch persistent meta offs c fs \<longleftrightarrow>
     (let local = contents fs (filename c scratch); whole = contents fs (agg_filename c persistent);
          i = nat (unique_id c)
      in wf_command c \<and> persistent \<noteq> meta \<and> fs_wf fs \<and> agg_table meta offs c fs \<and>
         node_at fs (filename c scratch) = Some (Reg local) \<and> local \<noteq> [] \<and>
         plain fs (agg_filename c persistent) \<and>
         \<not> deny_read fs (agg_filename c persistent) \<and>
         sys_opendir fs persistent \<and> persistent \<noteq> filename c scratch \<and>
         unat (offset c) = offs ! i \<and> offs ! i + length local < 2 ^ 63 \<and> length whole < 2 ^ 63 \<and>
         agg_span offs i (length local) (max (length whole) (offs ! i + length local)))"

definition agg_stored ::
    "string \<Rightarrow> string \<Rightarrow> string \<Rightarrow> nat list \<Rightarrow> command_t \<Rightarrow> byte list \<Rightarrow> 'x fsys_scheme \<Rightarrow> bool" where
  "agg_stored scratch persistent meta offs c bs fs \<longleftrightarrow>
     (let whole = contents fs (agg_filename c persistent); i = nat (unique_id c)
      in wf_command c \<and> persistent \<noteq> meta \<and> fs_wf fs \<and> agg_table meta offs c fs \<and>
         node_at fs (agg_filename c persistent) = Some (Reg whole) \<and>
         \<not> deny_read fs (agg_filename c persistent) \<and> length whole < 2 ^ 63 \<and>
         sys_opendir fs persistent \<and> persistent \<noteq> filename c scratch \<and>
         offs ! i + length bs \<le> length whole \<and> take (length bs) (drop (offs ! i) whole) = bs \<and>
         agg_span offs i (length bs) (length whole))"

lemma agg_name_differs: "wf_command c \<Longrightarrow> filename c d \<noteq> agg_filename c d'"
proof
  assume c: "wf_command c" and eq: "filename c d = agg_filename c d'"
  from c eq have "d = d'"
    using dirname_filename [of c d] dirname_agg_filename [of c d'] by simp
  with eq have "to_string (unique_id c) @ ''-'' @ to_string (version c) = ''agg-'' @ to_string (version c)"
    by (simp add: filename_def stem_def agg_filename_def)
  moreover have "list_all is_digit (to_string (unique_id c))"
    using c by (simp add: wf_command_def to_string_digits)
  ultimately show False
    by (cases "to_string (unique_id c)") (auto simp: is_digit_def)
qed

lemma agg_filename_inject: "agg_filename c d = agg_filename c d' \<longleftrightarrow> d = d'"
  by (simp add: agg_filename_def)

lemma pread_full:
  assumes "sys_pread fs q n off = Some bs" and "length bs = n"
  shows "bs = take n (drop off (contents fs q))"
proof -
  from assms(1) obtain k where "bs = take k (drop off (contents fs q))"
    by (auto simp: sys_pread_def Let_def split: if_splits)
  with assms(2) show ?thesis
    by (auto simp: min_def)
qed

lemma is_long_of_nat: "k < 2 ^ 63 \<Longrightarrow> is_long (int k)"
  by (simp add: is_long_def)

lemma offset_map_entries:
  assumes "\<forall>k \<in> set offs. k < 2 ^ 63" and "int (length offs) \<le> int_max"
  shows "dec_long (take 8 (offset_map offs)) = int (length offs)"
    and "i < length offs \<Longrightarrow> dec_long (take 8 (drop (8 * Suc i) (offset_map offs))) = int (offs ! i)"
proof -
  let ?t = "int (length offs) # map int offs"
  have ok: "\<forall>x \<in> set ?t. is_long x"
    using assms by (auto simp: is_long_def)
  show "dec_long (take 8 (offset_map offs)) = int (length offs)"
    using long_codec.table_nth [of 0 ?t] ok by (simp add: offset_map_def)
  show "i < length offs \<Longrightarrow> dec_long (take 8 (drop (8 * Suc i) (offset_map offs))) = int (offs ! i)"
    using long_codec.table_nth [of "Suc i" ?t] ok by (simp add: offset_map_def)
qed

text \<open>What a successful flush does to the files.\<close>

lemma agg_flush_effect:
  assumes "agg_ready scratch persistent meta offs c fs"
    and "agg_flush scratch persistent c fs = (Ok True, fs')"
  shows "fs' = set_node (agg_filename c persistent) (Reg (write_at
    (contents fs (agg_filename c persistent)) (offs ! nat (unique_id c))
    (contents fs (filename c scratch)))) fs"
proof -
  let ?s = "filename c scratch" and ?d = "agg_filename c persistent"
  have r: "node_at fs ?s = Some (Reg (contents fs ?s))" "\<And>t. node_at fs ?d \<noteq> Some (Lnk t)" "?s \<noteq> ?d"
      "length (contents fs ?s) < 2 ^ 63" "unat (offset c) = offs ! nat (unique_id c)"
    using assms(1) by (auto simp: plain_iff agg_ready_def Let_def agg_name_differs)
  have whole: "take (min SIZE_MAX (length (contents fs ?s) - 0)) (drop 0 (contents fs ?s)) = contents fs ?s"
    using r(4) by simp
  obtain ok fs1 where "posix_transfer_file fs ?s ?d 0 (unat (offset c)) SIZE_MAX = Some (ok, fs1)"
      and "ok \<Longrightarrow> fs1 = set_node ?d (Reg (write_at (contents fs ?d) (unat (offset c)) (contents fs ?s))) fs"
    using transfer_plain [OF r(1,2,3) le0 r(4), of "unat (offset c)" SIZE_MAX] unfolding whole by blast
  with assms(2) show ?thesis
    by (simp add: agg_flush_def run_transfer_Ok r(5))
qed

lemma agg_flush_stores:
  assumes "agg_ready scratch persistent meta offs c fs"
    and "agg_flush scratch persistent c fs = (Ok True, fs')"
  shows "agg_stored scratch persistent meta offs c (contents fs (filename c scratch)) fs'"
proof -
  let ?s = "filename c scratch" and ?d = "agg_filename c persistent"
  let ?bs = "contents fs ?s" and ?off = "offs ! nat (unique_id c)"
  have r: "?bs \<noteq> []" "?off + length ?bs < 2 ^ 63"
    using assms(1) by (auto simp: plain_iff agg_ready_def Let_def)
  have fs': "fs' = set_node ?d (Reg (write_at (contents fs ?d) ?off ?bs)) fs"
    using assms by (rule agg_flush_effect)
  have "agg_filename c meta \<noteq> ?d"
    using assms(1) by (auto simp: plain_iff agg_ready_def Let_def agg_filename_inject)
  then have tab: "agg_table meta offs c fs'"
    using assms(1) by (simp add: plain_iff agg_ready_def Let_def agg_table_def fs')
  have len: "length (write_at (contents fs ?d) ?off ?bs) = max (length (contents fs ?d)) (?off + length ?bs)"
    using r(1) by (simp add: length_write_at)
  have "contents fs' ?d = write_at (contents fs ?d) ?off ?bs"
    by (simp add: fs' contents_set_node)
  moreover have "take (length ?bs) (drop ?off (write_at (contents fs ?d) ?off ?bs)) = ?bs"
    using r(1) by (rule write_at_read)
  ultimately show ?thesis
    using assms(1) tab len r(2) by (auto simp: plain_iff agg_stored_def agg_ready_def Let_def fs')
qed

lemma agg_flush_returns:
  assumes "agg_ready scratch persistent meta offs c fs"
  shows "\<exists>ok fs'. agg_flush scratch persistent c fs = (Ok ok, fs')"
proof -
  let ?s = "filename c scratch" and ?d = "agg_filename c persistent"
  have r: "node_at fs ?s = Some (Reg (contents fs ?s))" "\<And>t. node_at fs ?d \<noteq> Some (Lnk t)" "?s \<noteq> ?d"
      "length (contents fs ?s) < 2 ^ 63"
    using assms by (auto simp: plain_iff agg_ready_def Let_def agg_name_differs)
  obtain ok fs' where "posix_transfer_file fs ?s ?d 0 (unat (offset c)) SIZE_MAX = Some (ok, fs')"
    using transfer_plain [OF r(1,2,3) le0 r(4), of "unat (offset c)" SIZE_MAX] by blast
  then show ?thesis
    by (simp add: agg_flush_def run_transfer_def)
qed

text \<open>Where \<^verbatim>\<open>restore\<close> finds the rank's part when its reads succeed.\<close>

lemma agg_restore_window:
  assumes tab: "agg_table meta offs c fs" and "0 \<le> unique_id c"
    and ret: "agg_restore scratch persistent meta c fs = (Ok True, fs')"
    and i: "i = nat (unique_id c)"
    and sz: "sz = (if Suc i = length offs then nat (LONG_MAX mod 2 ^ 64)
      else nat ((int (offs ! Suc i) - int (offs ! i)) mod 2 ^ 64))"
  shows "posix_transfer_file fs (agg_filename c persistent) (filename c scratch) (offs ! i) 0 sz =
    Some (True, fs')"
proof -
  let ?m = "agg_filename c meta"
  let ?lst = "unique_id c = int (length offs) - 1"
  have node: "node_at fs ?m = Some (Reg (offset_map offs))" and n: "int (length offs) \<le> int_max"
      and il: "i < length offs" and small: "\<forall>k \<in> set offs. k < 2 ^ 63"
    using tab i by (auto simp: agg_table_def)
  have cont: "contents fs ?m = offset_map offs"
    using node by (simp add: contents_def)
  have lst: "?lst \<longleftrightarrow> Suc i = length offs"
    using i assms(2) il by auto
  have id: "unique_id c = int i"
    using i assms(2) by simp
  have "((int i + 1) mod 2 ^ 64 * 8) mod 2 ^ 64 = 8 * int (Suc i)"
    using n il by simp
  then have pos: "nat (((unique_id c + 1) mod 2 ^ 64 * 8) mod 2 ^ 64) = 8 * Suc i"
    unfolding id by (simp only: nat_int)
  have op: "sys_open_rd fs ?m = Some ?m"
    using ret node open_rd_reg [of fs ?m] by (auto simp: agg_restore_def split: option.splits)
  from ret obtain b0 where b0: "sys_pread fs ?m 8 0 = Some b0" "length b0 = 8"
    by (auto simp: agg_restore_def op Let_def split: option.splits if_splits)
  have nr: "dec_long b0 = int (length offs)"
    using pread_full [OF b0] offset_map_entries(1) [OF small n] by (simp add: cont)
  let ?w = "if ?lst then 8 else 16 :: nat"
  let ?go = "\<lambda>b1. posix_transfer_file fs (agg_filename c persistent) (filename c scratch)
      (nat (dec_long (take 8 b1) mod 2 ^ 64)) 0
      (nat ((if ?lst then LONG_MAX else dec_long (drop 8 b1) - dec_long (take 8 b1)) mod 2 ^ 64))"
  from ret have ret': "(case sys_pread fs ?m ?w (8 * Suc i) of
        None \<Rightarrow> (Ok False, fs)
      | Some b1 \<Rightarrow> if length b1 \<noteq> ?w then (Throws Undefined, fs) else run_transfer (?go b1) fs) = (Ok True, fs')"
    unfolding agg_restore_def op option.case b0 Let_def nr pos by (simp only: simp_thms if_False)
  then obtain b1 where b1: "sys_pread fs ?m ?w (8 * Suc i) = Some b1" "length b1 = ?w"
    by (cases "sys_pread fs ?m ?w (8 * Suc i)") (auto split: if_splits)
  with ret' have go: "?go b1 = Some (True, fs')"
    by (simp only: option.case simp_thms if_False run_transfer_Ok)
  have full: "b1 = take ?w (drop (8 * Suc i) (offset_map offs))"
    using pread_full [OF b1] by (simp add: cont)
  have o0: "dec_long (take 8 b1) = int (offs ! i)"
    using offset_map_entries(2) [OF small n il] full by (simp add: min_def)
  have o1: "dec_long (drop 8 b1) = int (offs ! Suc i)" if "\<not> ?lst"
    using offset_map_entries(2) [OF small n, of "Suc i"] full that lst il
    by (simp add: drop_take add.commute)
  have "offs ! i < 2 ^ 63"
    using small il by simp
  then have off: "nat (int (offs ! i) mod 2 ^ 64) = offs ! i"
    by simp
  have "nat ((if ?lst then LONG_MAX else dec_long (drop 8 b1) - dec_long (take 8 b1)) mod 2 ^ 64) = sz"
    unfolding sz o0 lst using o1 by (cases "Suc i = length offs") (simp_all only: lst if_True if_False simp_thms)
  with go show ?thesis
    by (simp only: o0 off)
qed

lemma agg_restore_reads:
  assumes st: "agg_stored scratch persistent meta offs c bs fs"
    and "node_at fs (filename c scratch) = None"
    and ret: "agg_restore scratch persistent meta c fs = (Ok True, fs')"
  shows "node_at fs' (filename c scratch) = Some (Reg bs)"
proof -
  let ?s = "agg_filename c persistent" and ?d = "filename c scratch" and ?i = "nat (unique_id c)"
  let ?w = "contents fs ?s"
  define sz where "sz = (if Suc ?i = length offs then nat (LONG_MAX mod 2 ^ 64)
      else nat ((int (offs ! Suc ?i) - int (offs ! ?i)) mod 2 ^ 64))"
  have s: "node_at fs ?s = Some (Reg ?w)" "?s \<noteq> ?d" "length ?w < 2 ^ 63" "agg_table meta offs c fs"
      "offs ! ?i + length bs \<le> length ?w" "take (length bs) (drop (offs ! ?i) ?w) = bs"
      "agg_span offs ?i (length bs) (length ?w)" "0 \<le> unique_id c"
    using st agg_name_differs [of c scratch persistent] by (auto simp: agg_stored_def Let_def wf_command_def)
  have ret': "posix_transfer_file fs ?s ?d (offs ! ?i) 0 sz = Some (True, fs')"
    using agg_restore_window [OF s(4,8) ret refl sz_def] .
  have "min sz (length ?w - offs ! ?i) = length bs"
  proof (cases "Suc ?i = length offs")
    case True
    then have "length ?w = offs ! ?i + length bs"
      using s(7) by (simp add: agg_span_def)
    moreover have "sz = nat LONG_MAX"
      using True by (simp add: sz_def)
    ultimately show ?thesis
      using s(3) by simp
  next
    case False
    then have "offs ! Suc ?i = offs ! ?i + length bs"
      using s(7) by (simp add: agg_span_def)
    then have "sz = length bs"
      using False s(3,5) remaining_bytes [of "offs ! ?i" "offs ! Suc ?i"] by (simp add: sz_def)
    then show ?thesis
      using s(5) by simp
  qed
  then have part: "take (min sz (length ?w - offs ! ?i)) (drop (offs ! ?i) ?w) = bs"
    using s(6) by simp
  have "offs ! ?i \<le> length ?w"
    using s(5) by simp
  moreover have "\<And>t. node_at fs ?d \<noteq> Some (Lnk t)" and cd: "contents fs ?d = []"
    using assms(2) by (simp_all add: contents_def)
  ultimately obtain ok fs1 where "posix_transfer_file fs ?s ?d (offs ! ?i) 0 sz = Some (ok, fs1)"
      and "ok \<Longrightarrow> fs1 = set_node ?d (Reg bs) fs"
    using transfer_plain [OF s(1) _ s(2) _ s(3), of "offs ! ?i" 0 sz] unfolding part cd write_at_Nil_0 by blast
  with ret' show ?thesis by simp
qed

lemma agg_stored_listed:
  assumes "agg_stored scratch persistent meta offs c bs fs"
    and "agg_get_versions persistent c fs r = (Inr (), r')"
  shows "version c \<in> set r'"
proof -
  let ?nm = "cname c @ ''-agg-'' @ to_string (version c) @ ''.dat''"
  have c: "wf_command c" "validate_name (cname c)" "fs_wf fs"
      "node_at fs (agg_filename c persistent) = Some (Reg (contents fs (agg_filename c persistent)))"
      "sys_opendir fs persistent"
    using assms(1) by (auto simp: agg_stored_def Let_def wf_command_def)
  then have "?nm \<in> set (sys_readdir fs persistent)"
    using agg_no_slash [of c] by (auto simp: set_readdir agg_filename_def)
  moreover have "set r' = set r \<union> {v. \<exists>d i. d \<in> set (sys_readdir fs persistent) \<and> i = ID_AGG \<and>
      command_match d (map atom_of (cname c)) = Inr (Some (i, v))}"
    using assms(2) c(2,5) unfolding agg_get_versions_def by (rule parse_dir_versions)
  ultimately show ?thesis
    using command_match_agg [OF c(1)] by blast
qed

lemma agg_stored_exists: "agg_stored scratch persistent meta offs c bs fs \<Longrightarrow> agg_exists persistent c fs"
  by (auto simp: agg_stored_def Let_def agg_exists_def intro: access_reg)

lemma agg_stored_lose:
  assumes "agg_stored scratch persistent meta offs c bs fs"
  shows "agg_stored scratch persistent meta offs c bs (del_node (filename c scratch) fs)"
proof -
  have "wf_command c"
    using assms by (simp add: agg_stored_def Let_def)
  then have "agg_filename c d \<noteq> filename c scratch" for d
    using agg_name_differs [of c scratch d] by metis
  then show ?thesis
    using assms by (auto simp: agg_stored_def agg_table_def contents_def Let_def)
qed

lemma agg_stored_kind:
  "agg_stored scratch persistent meta offs (c\<lparr>command := k\<rparr>) = agg_stored scratch persistent meta offs c"
  by (simp add: agg_stored_def agg_table_def fun_eq_iff)

interpretation agg_sm: storage_contract "posix_agg_module scratch persistent meta" scratch
    "agg_ready scratch persistent meta offs" "agg_stored scratch persistent meta offs"
  for scratch persistent meta offs
  by unfold_locales
    (simp_all add: posix_agg_module_def agg_flush_stores agg_flush_returns agg_restore_reads
      agg_stored_exists agg_stored_listed agg_stored_lose agg_stored_kind)

subsection \<open>A whole group of ranks\<close>

text \<open>
  The offsets every rank obtains from \<^verbatim>\<open>MPI_Exscan\<close> with \<^verbatim>\<open>MPI_SUM\<close>: the sum over the lower
  ranks (rank 0 keeps the initial 0).
\<close>

definition exscan :: "nat list \<Rightarrow> nat list" where
  "exscan lens = map (\<lambda>i. sum_list (take i lens)) [0..<length lens]"

lemma length_exscan [simp]: "length (exscan lens) = length lens"
  by (simp add: exscan_def)

lemma nth_exscan: "i < length lens \<Longrightarrow> exscan lens ! i = sum_list (take i lens)"
  by (simp add: exscan_def)

lemma sum_take_Suc: "i < length lens \<Longrightarrow> sum_list (take (Suc i) lens) = sum_list (take i lens) + lens ! i"
  for lens :: "nat list"
  by (simp add: take_Suc_conv_app_nth)

lemma sum_take_mono: "i \<le> j \<Longrightarrow> sum_list (take i lens) \<le> sum_list (take j lens)"
  for lens :: "nat list"
  by (metis append_take_drop_id le_add1 min.absorb1 sum_list_append take_take)

lemma sum_take_le: "sum_list (take i lens) \<le> sum_list lens"
  for lens :: "nat list"
  by (metis append_take_drop_id le_add1 sum_list_append)

lemma exscan_end: "i < length lens \<Longrightarrow> exscan lens ! i + lens ! i \<le> sum_list lens"
  using sum_take_le [of "Suc i" lens] by (simp only: nth_exscan sum_take_Suc)

lemma exscan_span:
  "i < length lens \<Longrightarrow> fsize = sum_list lens \<or> Suc i \<noteq> length lens \<Longrightarrow> agg_span (exscan lens) i (lens ! i) fsize"
  using sum_take_Suc [of i lens] by (auto simp: agg_span_def nth_exscan)

lemma exscan_disjoint:
  assumes "i < length lens" "j < length lens" "i \<noteq> j"
  shows "exscan lens ! i + lens ! i \<le> exscan lens ! j \<or> exscan lens ! j + lens ! j \<le> exscan lens ! i"
proof (cases "i < j")
  case True
  then show ?thesis
    using assms sum_take_mono [of "Suc i" j lens] sum_take_Suc [of i lens] by (simp add: nth_exscan)
next
  case False
  then show ?thesis
    using assms sum_take_mono [of "Suc j" i lens] sum_take_Suc [of j lens] by (simp add: nth_exscan)
qed

lemma write_at_disjoint:
  assumes "a + n \<le> off \<or> off + length bs \<le> a" and "a + n \<le> length c"
  shows "take n (drop a (write_at c off bs)) = take n (drop a c)"
proof (cases "bs = []")
  case False
  then show ?thesis
    using assms by (intro nth_equalityI) (auto simp: length_write_at nth_write_at)
qed simp

definition agg_member ::
    "string \<Rightarrow> string \<Rightarrow> string \<Rightarrow> nat list \<Rightarrow> command_t \<Rightarrow> 'x fsys_scheme \<Rightarrow> bool" where
  "agg_member scratch persistent meta lens c fs \<longleftrightarrow>
     (let local = contents fs (filename c scratch); i = nat (unique_id c)
      in wf_command c \<and> persistent \<noteq> meta \<and> fs_wf fs \<and> agg_table meta (exscan lens) c fs \<and>
         node_at fs (filename c scratch) = Some (Reg local) \<and> local \<noteq> [] \<and> length local = lens ! i \<and>
         plain fs (agg_filename c persistent) \<and>
         \<not> deny_read fs (agg_filename c persistent) \<and> unat (offset c) = exscan lens ! i \<and>
         sys_opendir fs persistent \<and> persistent \<noteq> filename c scratch \<and>
         length (contents fs (agg_filename c persistent)) \<le> sum_list lens \<and> sum_list lens < 2 ^ 63)"

lemma agg_member_ready:
  assumes "agg_member scratch persistent meta lens c fs"
  shows "agg_ready scratch persistent meta (exscan lens) c fs"
proof -
  let ?i = "nat (unique_id c)" and ?w = "contents fs (agg_filename c persistent)"
  have m: "?i < length lens" "length (contents fs (filename c scratch)) = lens ! ?i"
      "length ?w \<le> sum_list lens" "sum_list lens < 2 ^ 63"
    using assms by (auto simp: plain_iff agg_member_def agg_table_def Let_def)
  have "exscan lens ! ?i + lens ! ?i \<le> sum_list lens"
    using m(1) by (rule exscan_end)
  moreover have "Suc ?i = length lens \<Longrightarrow> exscan lens ! ?i + lens ! ?i = sum_list lens"
    using m(1) sum_take_Suc [of ?i lens] by (simp add: nth_exscan)
  ultimately have "agg_span (exscan lens) ?i (lens ! ?i) (max (length ?w) (exscan lens ! ?i + lens ! ?i))"
    using m by (intro exscan_span) auto
  then show ?thesis
    using assms m \<open>exscan lens ! ?i + lens ! ?i \<le> sum_list lens\<close>
    by (auto simp: plain_iff agg_member_def agg_ready_def Let_def)
qed

text \<open>Another rank's flush leaves a member a member, and what is stored stays stored.\<close>

definition same_group :: "command_t \<Rightarrow> command_t \<Rightarrow> bool" where
  "same_group c c' \<longleftrightarrow> cname c = cname c' \<and> version c = version c'"

lemma agg_filename_group: "same_group c c' \<Longrightarrow> agg_filename c d = agg_filename c' d"
  by (simp add: same_group_def agg_filename_def)

lemma agg_member_flush:
  assumes c: "agg_member scratch persistent meta lens c fs" and c': "agg_member scratch persistent meta lens c' fs"
    and g: "same_group c c'" and fl: "agg_flush scratch persistent c' fs = (Ok True, fs')"
  shows "agg_member scratch persistent meta lens c fs'"
    and "contents fs' (filename c scratch) = contents fs (filename c scratch)"
proof -
  let ?d = "agg_filename c persistent" and ?j = "nat (unique_id c')"
  let ?w = "write_at (contents fs ?d) (exscan lens ! ?j) (contents fs (filename c' scratch))"
  have fs': "fs' = set_node ?d (Reg ?w) fs"
    using agg_flush_effect [OF agg_member_ready [OF c'] fl] by (simp add: agg_filename_group [OF g])
  have ne: "?d \<noteq> filename c scratch" "agg_filename c meta \<noteq> ?d"
    using c agg_name_differs [of c scratch persistent]
    by (auto simp: plain_iff agg_member_def Let_def agg_filename_inject)
  then show loc: "contents fs' (filename c scratch) = contents fs (filename c scratch)"
    by (simp add: fs' contents_set_node)
  have "exscan lens ! ?j + length (contents fs (filename c' scratch)) \<le> sum_list lens"
    using c' exscan_end [of ?j lens] by (auto simp: plain_iff agg_member_def agg_table_def Let_def)
  then have "length ?w \<le> sum_list lens"
    using c by (auto simp: plain_iff length_write_at agg_member_def Let_def)
  moreover have "contents fs' ?d = ?w"
    by (simp add: fs' contents_set_node)
  moreover have "agg_table meta (exscan lens) c fs'"
    using c ne by (simp add: plain_iff agg_member_def agg_table_def Let_def fs')
  ultimately show "agg_member scratch persistent meta lens c fs'"
    using c ne loc by (auto simp: plain_iff agg_member_def Let_def fs')
qed

lemma agg_stored_flush:
  assumes st: "agg_stored scratch persistent meta (exscan lens) c bs fs"
    and c': "agg_member scratch persistent meta lens c' fs"
    and g: "same_group c c'" and ne: "unique_id c \<noteq> unique_id c'" and len: "length bs = lens ! nat (unique_id c)"
    and fl: "agg_flush scratch persistent c' fs = (Ok True, fs')"
  shows "agg_stored scratch persistent meta (exscan lens) c bs fs'"
proof -
  let ?d = "agg_filename c persistent" and ?i = "nat (unique_id c)" and ?j = "nat (unique_id c')"
  let ?bs' = "contents fs (filename c' scratch)"
  let ?w = "write_at (contents fs ?d) (exscan lens ! ?j) ?bs'"
  have fs': "fs' = set_node ?d (Reg ?w) fs"
    using agg_flush_effect [OF agg_member_ready [OF c'] fl] by (simp add: agg_filename_group [OF g])
  have m: "?j < length lens" "?bs' \<noteq> []" "length ?bs' = lens ! ?j" "sum_list lens < 2 ^ 63"
      "length (contents fs ?d) \<le> sum_list lens"
    using c' agg_filename_group [OF g, of persistent] by (auto simp: plain_iff agg_member_def agg_table_def Let_def)
  have s: "?i < length lens" "exscan lens ! ?i + length bs \<le> length (contents fs ?d)"
      "take (length bs) (drop (exscan lens ! ?i) (contents fs ?d)) = bs" "agg_filename c meta \<noteq> ?d"
      "agg_span (exscan lens) ?i (length bs) (length (contents fs ?d))"
    using st by (auto simp: agg_stored_def agg_table_def Let_def agg_filename_inject)
  have "?i \<noteq> ?j"
    using ne st c' by (auto simp: agg_stored_def agg_member_def wf_command_def Let_def)
  then have "take (length bs) (drop (exscan lens ! ?i) ?w) = bs"
    using s(2,3) len m(1,3) exscan_disjoint [OF s(1), of ?j] by (simp add: write_at_disjoint)
  moreover have lw: "length ?w = max (length (contents fs ?d)) (exscan lens ! ?j + lens ! ?j)"
    using m by (simp add: length_write_at)
  moreover have "length ?w = sum_list lens" if last: "Suc ?i = length lens"
  proof -
    have "length (contents fs ?d) = exscan lens ! ?i + lens ! ?i"
      using s(5) len last by (simp add: agg_span_def)
    also have "\<dots> = sum_list lens"
      using sum_take_Suc [OF s(1)] last by (simp add: nth_exscan)
    finally show ?thesis
      using exscan_end [OF m(1)] by (simp add: lw)
  qed
  then have "agg_span (exscan lens) ?i (length bs) (length ?w)"
    unfolding len using s(1) by (intro exscan_span) auto
  moreover have "agg_table meta (exscan lens) c fs'"
    using st s(4) by (simp add: agg_stored_def agg_table_def Let_def fs')
  moreover have "length ?w < 2 ^ 63"
    using lw m(4,5) exscan_end [OF m(1)] by simp
  moreover have "exscan lens ! ?i + length bs \<le> length ?w"
    using s(2) by (simp add: lw le_max_iff_disj)
  ultimately show ?thesis
    using st by (auto simp: agg_stored_def Let_def fs' contents_set_node)
qed

primrec agg_flush_all ::
    "string \<Rightarrow> string \<Rightarrow> command_t list \<Rightarrow> 'x fsys_scheme \<Rightarrow> 'x fsys_scheme option" where
  "agg_flush_all scratch persistent [] fs = Some fs"
| "agg_flush_all scratch persistent (c # cs) fs =
     (case agg_flush scratch persistent c fs of
        (Ok True, fs1) \<Rightarrow> agg_flush_all scratch persistent cs fs1
      | _ \<Rightarrow> None)"

lemma flush_all_ConsE:
  assumes "agg_flush_all scratch persistent (c # cs) fs = Some fs'"
  obtains fs1 where "agg_flush scratch persistent c fs = (Ok True, fs1)"
    and "agg_flush_all scratch persistent cs fs1 = Some fs'"
  using assms by (auto split: prod.splits outcome.splits bool.splits)

lemma agg_flush_all_keeps:
  assumes "agg_stored scratch persistent meta (exscan lens) c bs fs"
    and "\<forall>c' \<in> set cs. agg_member scratch persistent meta lens c' fs \<and> same_group c c' \<and>
      unique_id c \<noteq> unique_id c'"
    and "length bs = lens ! nat (unique_id c)"
    and "agg_flush_all scratch persistent cs fs = Some fs'"
  shows "agg_stored scratch persistent meta (exscan lens) c bs fs'"
  using assms
proof (induction cs arbitrary: fs)
  case (Cons c' cs)
  from Cons.prems(4) obtain fs1 where fl: "agg_flush scratch persistent c' fs = (Ok True, fs1)"
      and rest: "agg_flush_all scratch persistent cs fs1 = Some fs'"
    by (rule flush_all_ConsE)
  have "agg_stored scratch persistent meta (exscan lens) c bs fs1"
    using Cons.prems by (intro agg_stored_flush [OF _ _ _ _ _ fl]) auto
  moreover have "agg_member scratch persistent meta lens c2 fs1" if "c2 \<in> set cs" for c2
    using Cons.prems(2) that by (intro agg_member_flush(1) [OF _ _ _ fl]) (auto simp: same_group_def)
  ultimately show ?case
    using Cons.prems(2,3) rest by (intro Cons.IH) auto
qed simp

lemma agg_flush_all_stores:
  assumes "\<forall>c \<in> set cs. agg_member scratch persistent meta lens c fs"
    and "\<forall>c \<in> set cs. \<forall>c' \<in> set cs. same_group c c'" and "distinct (map unique_id cs)"
    and "agg_flush_all scratch persistent cs fs = Some fs'" and "c \<in> set cs"
  shows "agg_stored scratch persistent meta (exscan lens) c (contents fs (filename c scratch)) fs'"
  using assms
proof (induction cs arbitrary: fs)
  case (Cons c' cs)
  from Cons.prems(4) obtain fs1 where fl: "agg_flush scratch persistent c' fs = (Ok True, fs1)"
      and rest: "agg_flush_all scratch persistent cs fs1 = Some fs'"
    by (rule flush_all_ConsE)
  have mem: "agg_member scratch persistent meta lens c2 fs1 \<and>
      contents fs1 (filename c2 scratch) = contents fs (filename c2 scratch)" if "c2 \<in> set cs" for c2
  proof -
    have "agg_member scratch persistent meta lens c2 fs" "agg_member scratch persistent meta lens c' fs"
        "same_group c2 c'"
      using Cons.prems(1,2) that by auto
    then show ?thesis
      using agg_member_flush [OF _ _ _ fl] by blast
  qed
  have grp: "same_group c' c2 \<and> unique_id c' \<noteq> unique_id c2" if "c2 \<in> set cs" for c2
    using Cons.prems(2,3) that by auto
  show ?case
  proof (cases "c = c'")
    case True
    have m': "agg_member scratch persistent meta lens c' fs"
      using Cons.prems(1) by simp
    have "agg_stored scratch persistent meta (exscan lens) c' (contents fs (filename c' scratch)) fs1"
      using agg_member_ready [OF m'] fl by (rule agg_flush_stores)
    moreover have "length (contents fs (filename c' scratch)) = lens ! nat (unique_id c')"
      using m' by (simp add: plain_iff agg_member_def Let_def)
    moreover have "\<forall>c2 \<in> set cs. agg_member scratch persistent meta lens c2 fs1 \<and> same_group c' c2 \<and>
        unique_id c' \<noteq> unique_id c2"
      using mem grp by blast
    ultimately show ?thesis
      unfolding True using agg_flush_all_keeps rest by metis
  next
    case False
    with Cons.prems(5) have c: "c \<in> set cs"
      by simp
    then have "agg_stored scratch persistent meta (exscan lens) c (contents fs1 (filename c scratch)) fs'"
      using Cons.prems(2,3) mem rest by (intro Cons.IH) simp_all
    with c mem show ?thesis by simp
  qed
qed simp

section \<open>Properties\<close>

text \<open>
  C3: the POSIX module keeps what it is given. After a flush that reports success, even if the
  local file is lost, the checkpoint exists, its version is listed, and a restore that reports
  success leaves exactly the bytes that were flushed in the local file. The flush always
  returns.
\<close>

theorem posix_flush_restore:
  assumes "posix_ready scratch persistent c fs"
  shows "\<exists>ok fs1. posix_flush scratch persistent c fs = (Ok ok, fs1) \<and>
    (ok \<longrightarrow> (let lost = del_node (filename c scratch) fs1
       in posix_exists persistent c lost \<and>
          (\<forall>r r'. posix_get_versions persistent c lost r = (Inr (), r') \<longrightarrow> version c \<in> set r') \<and>
          (\<forall>fs2. posix_restore scratch persistent c lost = (Ok True, fs2) \<longrightarrow>
             node_at fs2 (filename c scratch) = Some (Reg (contents fs (filename c scratch))))))"
proof -
  obtain ok fs1 where fl: "posix_flush scratch persistent c fs = (Ok ok, fs1)"
    using posix_flush_returns [OF assms] by blast
  have "ok \<Longrightarrow> sm_flush (posix_module scratch persistent) c fs = (Ok True, fs1)"
    using fl by (simp add: posix_module_def)
  note posix_sm.flush_then_exists [OF assms this] posix_sm.flush_then_listed [OF assms this]
    posix_sm.flush_lose_restore [OF assms this]
  with fl show ?thesis
    by (intro exI [of _ ok] exI [of _ fs1]) (simp add: posix_module_def Let_def)
qed

definition sample_store :: fsys where
  "sample_store = healthy [(''/s'', Dir), (''/p'', Dir), (''/s/heat.2d-3-12.dat'', Reg [4, 5, 6])]"

lemma sample_name: "filename sample_command ''/s'' = ''/s/heat.2d-3-12.dat''"
    "filename sample_command ''/p'' = ''/p/heat.2d-3-12.dat''" "original sample_command = ''''"
  by code_simp+

lemma sample_ready: "posix_ready ''/s'' ''/p'' sample_command sample_store"
  using wf_sample_command
  by (simp add: posix_ready_def sample_name plain_def contents_def sample_store_def sys_opendir_def is_dir_def)

lemma sample_flush:
  "posix_flush ''/s'' ''/p'' sample_command sample_store =
     (Ok True, set_node ''/p/heat.2d-3-12.dat'' (Reg [4, 5, 6]) sample_store)"
proof -
  have "posix_transfer_file sample_store ''/s/heat.2d-3-12.dat'' ''/p/heat.2d-3-12.dat'' 0 0 SIZE_MAX =
      Some (True, set_node ''/p/heat.2d-3-12.dat'' (Reg [4, 5, 6]) sample_store)"
    by (rule transfer_new_whole) (simp_all add: sample_store_def is_dir_def dirname_def)
  then show ?thesis
    by (simp add: posix_flush_def sample_name run_transfer_def)
qed

theorem posix_flush_restore_witness:
  "posix_flush ''/s'' ''/p'' sample_command sample_store =
     (Ok True, set_node ''/p/heat.2d-3-12.dat'' (Reg [4, 5, 6]) sample_store) \<and>
   posix_exists ''/p'' sample_command (del_node ''/s/heat.2d-3-12.dat''
     (set_node ''/p/heat.2d-3-12.dat'' (Reg [4, 5, 6]) sample_store))"
  using posix_flush_restore [OF sample_ready] by (simp add: sample_flush sample_name Let_def ex_bool_eq)

text \<open>
  C2: the aggregated module keeps the checkpoints of a whole group of ranks apart. Each rank
  writes at the offset \<^verbatim>\<open>MPI_Exscan\<close> gave it; once every rank's flush has reported success, in
  whatever order, each rank that lost its local file finds the version listed and gets exactly
  its own bytes back from a restore that reports success.
\<close>

theorem agg_group_flush_restore:
  assumes "\<forall>c \<in> set cs. agg_member scratch persistent meta lens c fs"
    and "\<forall>c \<in> set cs. \<forall>c' \<in> set cs. same_group c c'" and "distinct (map unique_id cs)"
    and "agg_flush_all scratch persistent cs fs = Some fs1" and "c \<in> set cs"
  shows "let lost = del_node (filename c scratch) fs1
    in agg_exists persistent c lost \<and>
       (\<forall>r r'. agg_get_versions persistent c lost r = (Inr (), r') \<longrightarrow> version c \<in> set r') \<and>
       (\<forall>fs2. agg_restore scratch persistent meta c lost = (Ok True, fs2) \<longrightarrow>
          node_at fs2 (filename c scratch) = Some (Reg (contents fs (filename c scratch))))"
proof -
  let ?lost = "del_node (filename c scratch) fs1"
  have st: "agg_stored scratch persistent meta (exscan lens) c (contents fs (filename c scratch)) ?lost"
    using agg_flush_all_stores [OF assms] by (rule agg_stored_lose)
  have "node_at ?lost (filename c scratch) = None"
    by simp
  then show ?thesis
    using agg_stored_exists [OF st] agg_stored_listed [OF st] agg_restore_reads [OF st] by (simp add: Let_def)
qed

text \<open>Without faults the flush of a member succeeds.\<close>

lemma agg_flush_succeeds:
  assumes m: "agg_member scratch persistent meta lens c fs" and "faultless fs"
    and "is_dir fs persistent" and "node_at fs (agg_filename c persistent) \<noteq> Some Dir"
  shows "\<exists>fs1. agg_flush scratch persistent c fs = (Ok True, fs1)"
proof -
  let ?s = "filename c scratch" and ?d = "agg_filename c persistent"
  have r: "node_at fs ?s = Some (Reg (contents fs ?s))" "plain fs ?d" "?s \<noteq> ?d" "wf_command c"
      "length (contents fs ?s) < 2 ^ 63"
    using agg_member_ready [OF m] by (auto simp: agg_ready_def Let_def agg_name_differs)
  have wr: "\<exists>fs0. sys_open_wr False fs ?d = Some (?d, fs0)"
  proof (cases "node_at fs ?d")
    case None
    then show ?thesis
      using assms(2,3) r(4) by (simp add: open_wr_new dirname_agg_filename)
  next
    case (Some n)
    then show ?thesis
      using assms(2,4) r(2) by (cases n) (auto simp: open_wr_old plain_def)
  qed
  then obtain fs0 where wr: "sys_open_wr False fs ?d = Some (?d, fs0)" ..
  obtain ok fs1 where "posix_transfer_file fs ?s ?d 0 (unat (offset c)) SIZE_MAX = Some (ok, fs1)"
      and "\<not> io_error fs ?s \<Longrightarrow> \<not> io_error fs ?d \<Longrightarrow> wr_chunk fs = (\<lambda>n. n) \<Longrightarrow> ok"
    using posix_transfer_file_correct [OF open_rd_faultless [OF assms(2) r(1)] wr r(3) le0 r(5),
        where doff = "unat (offset c)" and sz = SIZE_MAX] by blast
  then show ?thesis
    using assms(2) by (simp add: agg_flush_def run_transfer_def faultless_def)
qed

definition sample_rank :: "int \<Rightarrow> size_t \<Rightarrow> command_t" where
  "sample_rank i off = \<lparr>unique_id = i, command = CHECKPOINT, version = 1, offset = off,
     cname = ''a'', original = ''''\<rparr>"

definition sample_group :: fsys where
  "sample_group = healthy [(''/s'', Dir), (''/p'', Dir), (''/m'', Dir), (''/s/a-0-1.dat'', Reg [1, 2]),
     (''/s/a-1-1.dat'', Reg [3]), (''/m/a-agg-1.dat'', Reg (offset_map [0, 2]))]"

lemma sample_rank_names:
  "filename (sample_rank 0 0) ''/s'' = ''/s/a-0-1.dat''" "filename (sample_rank 1 2) ''/s'' = ''/s/a-1-1.dat''"
  "agg_filename (sample_rank i off) ''/p'' = ''/p/a-agg-1.dat''"
  "agg_filename (sample_rank i off) ''/m'' = ''/m/a-agg-1.dat''"
  "wf_command (sample_rank 0 0)" "wf_command (sample_rank 1 2)"
proof -
  have "to_string 1 = ''1''"
    by code_simp
  then show "agg_filename (sample_rank i off) ''/p'' = ''/p/a-agg-1.dat''"
      "agg_filename (sample_rank i off) ''/m'' = ''/m/a-agg-1.dat''"
    by (simp_all add: agg_filename_def sample_rank_def)
qed code_simp+

lemma sample_exscan: "exscan [2, 1] = [0, 2]"
  by (simp add: exscan_def upt_rec)

lemma sample_members:
  "agg_member ''/s'' ''/p'' ''/m'' [2, 1] (sample_rank 0 0) sample_group"
  "agg_member ''/s'' ''/p'' ''/m'' [2, 1] (sample_rank 1 2) sample_group"
proof -
  have "deny_read sample_group = (\<lambda>_. False)"
    by (simp add: sample_group_def healthy_def)
  moreover have "unique_id (sample_rank i off) = i" "offset (sample_rank i off) = off" for i off
    by (simp_all add: sample_rank_def)
  ultimately show "agg_member ''/s'' ''/p'' ''/m'' [2, 1] (sample_rank 0 0) sample_group"
      "agg_member ''/s'' ''/p'' ''/m'' [2, 1] (sample_rank 1 2) sample_group"
    unfolding agg_member_def agg_table_def sample_rank_names sample_exscan plain_def contents_def
    by (simp_all add: sample_rank_names) (simp_all add: sample_group_def sys_opendir_def is_dir_def)
qed

lemma sample_flush_all: "\<exists>fs1. agg_flush_all ''/s'' ''/p'' [sample_rank 0 0, sample_rank 1 2] sample_group = Some fs1"
proof -
  let ?a = "sample_rank 0 0" and ?b = "sample_rank 1 2"
  have dirs: "is_dir sample_group ''/p''" "node_at sample_group ''/p/a-agg-1.dat'' = None"
    and fl: "faultless sample_group"
    by (simp_all add: sample_group_def is_dir_def)
  then obtain fs1 where 1: "agg_flush ''/s'' ''/p'' ?a sample_group = (Ok True, fs1)"
    using agg_flush_succeeds [OF sample_members(1)] by (auto simp: sample_rank_names)
  have eff: "fs1 = set_node ''/p/a-agg-1.dat'' (Reg (write_at (contents sample_group ''/p/a-agg-1.dat'')
      (exscan [2, 1] ! 0) (contents sample_group ''/s/a-0-1.dat''))) sample_group"
    using agg_flush_effect [OF agg_member_ready [OF sample_members(1)] 1]
    by (simp add: sample_rank_names) (simp add: sample_rank_def)
  have "agg_member ''/s'' ''/p'' ''/m'' [2, 1] ?b fs1"
    by (rule agg_member_flush(1) [OF sample_members(2,1) _ 1]) (simp add: same_group_def sample_rank_def)
  from agg_flush_succeeds [OF this] obtain fs2 where "agg_flush ''/s'' ''/p'' ?b fs1 = (Ok True, fs2)"
    using dirs fl by (auto simp: eff sample_rank_names is_dir_def)
  with 1 show ?thesis by simp
qed

theorem agg_group_flush_restore_witness:
  "\<exists>fs1. agg_flush_all ''/s'' ''/p'' [sample_rank 0 0, sample_rank 1 2] sample_group = Some fs1 \<and>
     agg_exists ''/p'' (sample_rank 1 2) (del_node ''/s/a-1-1.dat'' fs1) \<and>
     (\<forall>fs2. agg_restore ''/s'' ''/p'' ''/m'' (sample_rank 1 2) (del_node ''/s/a-1-1.dat'' fs1) = (Ok True, fs2) \<longrightarrow>
        node_at fs2 ''/s/a-1-1.dat'' = Some (Reg [3]))"
proof -
  obtain fs1 where fs1: "agg_flush_all ''/s'' ''/p'' [sample_rank 0 0, sample_rank 1 2] sample_group = Some fs1"
    using sample_flush_all by blast
  have "contents sample_group ''/s/a-1-1.dat'' = [3]"
    by (simp add: contents_def sample_group_def)
  then show ?thesis
    using agg_group_flush_restore [of "[sample_rank 0 0, sample_rank 1 2]" "''/s''" "''/p''" "''/m''" "[2, 1]"
        sample_group fs1 "sample_rank 1 2"] fs1 sample_members
    by (simp add: sample_rank_names Let_def del: agg_flush_all.simps) (simp add: same_group_def sample_rank_def)
qed

end
