(* ===== verification/Config.thy ===== *)
theory Config
  imports Ini_Reader Storage
begin

text \<open>
  \<^verbatim>\<open>config_t\<close> of \<^verbatim>\<open>src/src/common/config.{hpp,cpp}\<close>: parameters come from the environment
  variable \<^verbatim>\<open>VELOC_<NAME>\<close> or else from the configuration file, and the constructor chooses the
  storage module. The environment is an argument. The AXL and DAOS classes wrap libraries; their
  constructors are arguments, \<open>None\<close> when the class was not compiled in.
\<close>

section \<open>Parameters\<close>

record 'x config =
  cfg_file :: string
  cfg_env :: "string \<Rightarrow> string option"
  cfg_reader :: "ini_reader option"
  cfg_sync :: bool
  cfg_storage :: "'x storage_module option"

definition env_param :: "(string \<Rightarrow> string option) \<Rightarrow> string \<Rightarrow> string" where
  "env_param env param =
     (case env (''VELOC_'' @ map toupper param) of None \<Rightarrow> '''' | Some v \<Rightarrow> v)"

text \<open>The text \<^verbatim>\<open>get_optional\<close> extracts the value from.\<close>

definition raw_param :: "'x config \<Rightarrow> string \<Rightarrow> string" where
  "raw_param cfg param =
     (let ret = env_param (cfg_env cfg) param
      in if ret = '''' then (case cfg_reader cfg of None \<Rightarrow> '''' | Some r \<Rightarrow> ini_get r '''' param '''')
         else ret)"

text \<open>\<^verbatim>\<open>stringstream >> std::string\<close>: the first word.\<close>

definition first_word :: "string \<Rightarrow> string option" where
  "first_word s = (let w = takeWhile (\<lambda>c. \<not> isspace c) (lskip s) in if w = '''' then None else Some w)"

definition get_optional :: "'x config \<Rightarrow> string \<Rightarrow> string option" where
  "get_optional cfg param =
     (let ret = raw_param cfg param in if ret = '''' then None else first_word ret)"

text \<open>\<^verbatim>\<open>stringstream >> int\<close>: sign and digits after blanks; out of range fails, the rest is ignored.\<close>

definition read_int :: "string \<Rightarrow> int option" where
  "read_int s =
     (let t = lskip s; neg = (t \<noteq> '''' \<and> hd t = CHR ''-'');
          body = (if t \<noteq> '''' \<and> (hd t = CHR ''-'' \<or> hd t = CHR ''+'') then tl t else t);
          ds = takeWhile is_digit body;
          n = (if neg then - int (text_nat ds) else int (text_nat ds))
      in if ds = '''' \<or> \<not> is_int32 n then None else Some n)"

text \<open>\<^verbatim>\<open>stringstream >> unsigned\<close>: a minus sign negates modulo \<open>2 ^ 32\<close>.\<close>

definition read_uint :: "string \<Rightarrow> int option" where
  "read_uint s =
     (let t = lskip s; neg = (t \<noteq> '''' \<and> hd t = CHR ''-'');
          body = (if t \<noteq> '''' \<and> (hd t = CHR ''-'' \<or> hd t = CHR ''+'') then tl t else t);
          ds = takeWhile is_digit body;
          n = int (text_nat ds)
      in if ds = '''' \<or> n \<ge> 2 ^ 32 then None else Some (if neg then (- n) mod 2 ^ 32 else n))"

definition get_optional_int :: "'x config \<Rightarrow> string \<Rightarrow> int option" where
  "get_optional_int cfg param =
     (let ret = raw_param cfg param in if ret = '''' then None else read_int ret)"

definition get_optional_uint :: "'x config \<Rightarrow> string \<Rightarrow> int option" where
  "get_optional_uint cfg param =
     (let ret = raw_param cfg param in if ret = '''' then None else read_uint ret)"

definition cfg_get :: "'x config \<Rightarrow> string \<Rightarrow> string res" where
  "cfg_get cfg param = (case get_optional cfg param of None \<Rightarrow> Inl Fatal | Some v \<Rightarrow> Inr v)"

definition get_bool :: "'x config \<Rightarrow> string \<Rightarrow> bool \<Rightarrow> bool" where
  "get_bool cfg param def =
     (case get_optional cfg param of None \<Rightarrow> def | Some v \<Rightarrow> map tolower v = ''true'')"

section \<open>The constructor\<close>

type_synonym 'x maker = "string \<Rightarrow> string \<Rightarrow> string \<Rightarrow> 'x fsys_scheme \<Rightarrow> 'x storage_module res \<times> 'x fsys_scheme"

definition open_log :: "'x config \<Rightarrow> bool \<Rightarrow> string \<Rightarrow> 'x fsys_scheme \<Rightarrow> 'x fsys_scheme" where
  "open_log cfg is_backend suffix fs =
     (let opt = get_optional cfg ''log_prefix'';
          log_prefix = (case opt of None \<Rightarrow> ''/dev/shm'' | Some v \<Rightarrow> v);
          log_file = log_prefix @ ''/'' @ (if is_backend then ''veloc-backend-'' else ''veloc-client-'') @ suffix @ ''.log''
      in if opt \<noteq> None \<or> is_backend
         then (case sys_open_wr True fs log_file of None \<Rightarrow> fs | Some (_, fs') \<Rightarrow> fs') else fs)"

definition choose_storage ::
    "'x maker option \<Rightarrow> 'x maker option \<Rightarrow> 'x config \<Rightarrow> string \<Rightarrow> 'x fsys_scheme \<Rightarrow>
     'x storage_module option res \<times> 'x fsys_scheme" where
  "choose_storage daos axl cfg scratch fs =
     (case (get_optional cfg ''daos_pool'', get_optional cfg ''daos_cont'') of
        (Some pool, Some cont) \<Rightarrow>
          (case daos of
             None \<Rightarrow> (Inl Fatal, fs)
           | Some mk \<Rightarrow> (case mk scratch pool cont fs of (r, fs') \<Rightarrow> (map_sum id Some r, fs')))
      | _ \<Rightarrow>
          (case get_optional cfg ''persistent'' of
             None \<Rightarrow> (Inr None, fs)
           | Some persistent \<Rightarrow>
               (case get_optional cfg ''axl_type'' of
                  Some ty \<Rightarrow>
                    (case axl of
                       None \<Rightarrow> (Inl Fatal, fs)
                     | Some mk \<Rightarrow> (case mk scratch persistent ty fs of (r, fs') \<Rightarrow> (map_sum id Some r, fs')))
                | None \<Rightarrow>
                    if get_bool cfg ''aggregated'' False then
                      (case new_posix_agg_module scratch persistent
                              (case get_optional cfg ''meta'' of None \<Rightarrow> '''' | Some m \<Rightarrow> m) fs of
                         (r, fs') \<Rightarrow> (map_sum id Some r, fs'))
                    else (case new_posix_module scratch persistent fs of
                            (r, fs') \<Rightarrow> (map_sum id Some r, fs')))))"

definition new_config ::
    "'x maker option \<Rightarrow> 'x maker option \<Rightarrow> (string \<Rightarrow> string option) \<Rightarrow> string \<Rightarrow> string \<Rightarrow> bool \<Rightarrow>
     'x fsys_scheme \<Rightarrow> 'x config res \<times> 'x fsys_scheme" where
  "new_config daos axl env suffix f is_backend fs =
     (let rd = (if f = '''' then None else Some (new_INIReader fs f));
          cfg = \<lparr>cfg_file = f, cfg_env = env, cfg_reader = rd, cfg_sync = False, cfg_storage = None\<rparr>
      in if (case rd of None \<Rightarrow> False | Some r \<Rightarrow> ini_error r \<noteq> 0) then (Inl Fatal, fs)
         else
           let fs1 = open_log cfg is_backend suffix fs in
           (case get_optional cfg ''mode'' of
              None \<Rightarrow> (Inl Fatal, fs1)
            | Some val \<Rightarrow>
                if val \<noteq> ''sync'' \<and> val \<noteq> ''async'' then (Inl Fatal, fs1)
                else
                  let cfg1 = cfg\<lparr>cfg_sync := (val = ''sync'')\<rparr> in
                  (case cfg_get cfg1 ''scratch'' of
                     Inl e \<Rightarrow> (Inl e, fs1)
                   | Inr scratch \<Rightarrow>
                       (case check_dir fs1 scratch of
                          (ok, fs2) \<Rightarrow>
                            if \<not> ok then (Inl Fatal, fs2)
                            else (case choose_storage daos axl cfg1 scratch fs2 of
                                    (Inl e, fs3) \<Rightarrow> (Inl e, fs3)
                                  | (Inr sm, fs3) \<Rightarrow> (Inr (cfg1\<lparr>cfg_storage := sm\<rparr>), fs3))))))"

section \<open>Properties\<close>

lemma get_optional_cong [simp]:
  "get_optional (cfg\<lparr>cfg_sync := b\<rparr>) = get_optional cfg" "get_optional (cfg\<lparr>cfg_storage := sm\<rparr>) = get_optional cfg"
  "get_bool (cfg\<lparr>cfg_sync := b\<rparr>) = get_bool cfg" "get_bool (cfg\<lparr>cfg_storage := sm\<rparr>) = get_bool cfg"
  "cfg_get (cfg\<lparr>cfg_sync := b\<rparr>) = cfg_get cfg" "cfg_get (cfg\<lparr>cfg_storage := sm\<rparr>) = cfg_get cfg"
  by (simp_all add: fun_eq_iff get_optional_def raw_param_def get_bool_def cfg_get_def Let_def)

lemma check_dir_empty: "\<not> fst (check_dir fs [])"
  by (simp add: check_dir_def sys_opendir_def Let_def)

lemma check_dir_opens: "check_dir fs d = (True, fs') \<Longrightarrow> sys_opendir fs' d"
  by (auto simp: check_dir_def Let_def)

definition posix_choice :: "'x config \<Rightarrow> string \<Rightarrow> 'x storage_module option" where
  "posix_choice cfg scratch =
     (case get_optional cfg ''persistent'' of
        None \<Rightarrow> None
      | Some p \<Rightarrow>
          Some (if get_bool cfg ''aggregated'' False
                then posix_agg_module scratch p (the (get_optional cfg ''meta'')) else posix_module scratch p))"

lemma choose_posix:
  assumes "choose_storage None None cfg scratch fs = (Inr sm, fs')"
  shows "sm = posix_choice cfg scratch \<and>
    (sm \<noteq> None \<and> get_bool cfg ''aggregated'' False \<longrightarrow> get_optional cfg ''meta'' \<noteq> None)"
proof (cases "get_optional cfg ''persistent''")
  case None
  then show ?thesis
    using assms by (auto simp: choose_storage_def posix_choice_def split: option.splits)
next
  case (Some p)
  have "get_optional cfg ''axl_type'' = None"
    using assms Some by (auto simp: choose_storage_def split: option.splits)
  moreover have "\<not> (\<exists>fs1. check_dir fs1 [] = (True, fs2))" for fs2 :: "'a fsys_scheme"
    using check_dir_empty by (metis fst_conv)
  ultimately show ?thesis
    using assms Some
    by (auto simp: choose_storage_def posix_choice_def new_posix_agg_module_def new_posix_module_def
        split: option.splits if_splits prod.splits sum.splits)
qed

text \<open>
  C18: a configuration that is accepted names a mode, sync or async, and a scratch directory;
  and without the optional libraries its storage module is none when no persistent path is
  given, the aggregated module when \<^verbatim>\<open>aggregated\<close> is true, in which case a metadata path is
  given too, and the plain POSIX module otherwise.
\<close>

theorem config_accepted:
  assumes "new_config None None env suffix f is_backend fs = (Inr cfg, fs')"
  shows "\<exists>scratch mode. cfg_get cfg ''scratch'' = Inr scratch \<and> get_optional cfg ''mode'' = Some mode \<and>
    mode \<in> {''sync'', ''async''} \<and> cfg_sync cfg = (mode = ''sync'') \<and>
    cfg_storage cfg = posix_choice cfg scratch \<and>
    (cfg_storage cfg \<noteq> None \<and> get_bool cfg ''aggregated'' False \<longrightarrow> get_optional cfg ''meta'' \<noteq> None)"
proof -
  define c0 where "c0 = \<lparr>cfg_file = f, cfg_env = env,
      cfg_reader = (if f = '''' then None else Some (new_INIReader fs f)), cfg_sync = False,
      cfg_storage = (None :: 'a storage_module option)\<rparr>"
  from assms obtain mode scratch fs2 sm where m: "get_optional c0 ''mode'' = Some mode"
      and md: "mode = ''sync'' \<or> mode = ''async''" and sc: "cfg_get c0 ''scratch'' = Inr scratch"
      and ch: "choose_storage None None (c0\<lparr>cfg_sync := (mode = ''sync'')\<rparr>) scratch fs2 = (Inr sm, fs')"
      and cfg: "cfg = c0\<lparr>cfg_sync := (mode = ''sync''), cfg_storage := sm\<rparr>"
    unfolding new_config_def c0_def [symmetric] Let_def
    by (auto split: if_splits option.splits sum.splits prod.splits)
  have "posix_choice cfg scratch = posix_choice (c0\<lparr>cfg_sync := (mode = ''sync'')\<rparr>) scratch"
    by (simp add: posix_choice_def cfg cong: option.case_cong if_cong)
  with choose_posix [OF ch] m md sc show ?thesis
    by (intro exI [of _ scratch] exI [of _ mode]) (simp add: cfg)
qed

definition sample_env :: "string \<Rightarrow> string option" where
  "sample_env = map_of [(''VELOC_MODE'', ''async''), (''VELOC_SCRATCH'', ''/s''), (''VELOC_PERSISTENT'', ''/p''),
     (''VELOC_AGGREGATED'', ''True''), (''VELOC_META'', ''/m'')]"

lemma sample_config:
  "case fst (new_config None None sample_env [] [] False sample_store) of
     Inl _ \<Rightarrow> False
   | Inr cfg \<Rightarrow> cfg_get cfg ''scratch'' = Inr ''/s'' \<and> get_optional cfg ''mode'' = Some ''async'' \<and>
       get_optional cfg ''persistent'' = Some ''/p'' \<and> get_bool cfg ''aggregated'' False \<and>
       get_optional cfg ''meta'' = Some ''/m''"
  by code_simp

theorem config_accepted_witness:
  "\<exists>cfg fs'. new_config None None sample_env [] [] False sample_store = (Inr cfg, fs') \<and> \<not> cfg_sync cfg \<and>
     cfg_storage cfg = Some (posix_agg_module ''/s'' ''/p'' ''/m'')"
proof -
  obtain cfg fs' where n: "new_config None None sample_env [] [] False sample_store = (Inr cfg, fs')"
    using sample_config by (cases "new_config None None sample_env [] [] False sample_store") (auto split: sum.splits)
  then show ?thesis
    using sample_config config_accepted [OF n] by (auto simp: posix_choice_def)
qed

end
