(* ===== verification/Watchdog.thy ===== *)
theory Watchdog
  imports Config
begin

text \<open>
  \<^verbatim>\<open>client_watchdog_t\<close> of \<^verbatim>\<open>src/src/modules/client_watchdog.cpp\<close>: clients register with INIT and
  push their deadline forward with every CHECKPOINT; a background thread reports the clients
  whose deadline has passed. A time point is a count of nanoseconds; the reading of the clock
  is an argument.
\<close>

section \<open>The module\<close>

abbreviation seconds :: "int \<Rightarrow> int" where "seconds s \<equiv> s * 1000000000"

record watchdog =
  wd_timeout :: int
  client_map :: "(int \<times> int) list"

definition new_watchdog :: "'x config \<Rightarrow> watchdog" where
  "new_watchdog cfg =
     \<lparr>wd_timeout = (case get_optional_int cfg ''watchdog_interval'' of None \<Rightarrow> 0 | Some t \<Rightarrow> t), client_map = []\<rparr>"

text \<open>One round of \<^verbatim>\<open>timeout_check\<close>: the clients it reports.\<close>

definition timeout_check :: "int \<Rightarrow> watchdog \<Rightarrow> int list" where
  "timeout_check t w = map fst (filter (\<lambda>e. t > snd e) (client_map w))"

definition watchdog_process :: "int \<Rightarrow> command_t \<Rightarrow> watchdog \<Rightarrow> int \<times> watchdog" where
  "watchdog_process now c w =
     (if wd_timeout w = 0 then (VELOC_IGNORED, w)
      else (case command c of
          INIT \<Rightarrow>
            (VELOC_SUCCESS, w\<lparr>client_map := omap_assign (unique_id c) (now + seconds (wd_timeout w)) (client_map w)\<rparr>)
        | CHECKPOINT \<Rightarrow>
            if map_of (client_map w) (unique_id c) = None then (VELOC_FAILURE, w)
            else (VELOC_SUCCESS, w\<lparr>client_map := omap_assign (unique_id c) (now + seconds (wd_timeout w)) (client_map w)\<rparr>)
        | _ \<Rightarrow> (VELOC_IGNORED, w)))"

section \<open>Properties\<close>

text \<open>The time of the last sign of life of client \<open>i\<close> in a history, newest entry first.\<close>

fun last_ping :: "int \<Rightarrow> (int \<times> command_t) list \<Rightarrow> int option" where
  "last_ping i [] = None"
| "last_ping i ((t, c) # h) =
     (if unique_id c = i \<and> (command c = INIT \<or> command c = CHECKPOINT \<and> last_ping i h \<noteq> None)
      then Some t else last_ping i h)"

abbreviation watchdog_run :: "(int \<times> command_t) list \<Rightarrow> watchdog \<Rightarrow> watchdog" where
  "watchdog_run h w \<equiv> foldr (\<lambda>(t, c) w. snd (watchdog_process t c w)) h w"

lemma watchdog_run_map:
  assumes "wd_timeout w \<noteq> 0" and "client_map w = []"
  shows "wd_timeout (watchdog_run h w) = wd_timeout w \<and> omap_wf (client_map (watchdog_run h w)) \<and>
    map_of (client_map (watchdog_run h w)) =
      (\<lambda>i. map_option (\<lambda>t. t + seconds (wd_timeout w)) (last_ping i h))"
proof (induction h)
  case Nil
  then show ?case using assms by (simp add: fun_eq_iff)
next
  case (Cons e h)
  obtain t c where e: "e = (t, c)" by (cases e)
  show ?case
    using Cons assms(1)
    by (cases "command c") (auto simp: e watchdog_process_def omap_simps fun_eq_iff)
qed

text \<open>
  C28: a check reports exactly the clients that have registered and whose last registration or
  checkpoint lies more than the configured interval back; a checkpoint of a client that never
  registered is refused and registers nothing.
\<close>

theorem watchdog_reports_silent_clients:
  assumes "wd_timeout w \<noteq> 0" and "client_map w = []"
  shows "(i \<in> set (timeout_check now (watchdog_run h w)) \<longleftrightarrow>
      (\<exists>t. last_ping i h = Some t \<and> t + seconds (wd_timeout w) < now)) \<and>
    (command c = CHECKPOINT \<and> last_ping (unique_id c) h = None \<longrightarrow>
      watchdog_process now c (watchdog_run h w) = (VELOC_FAILURE, watchdog_run h w))"
proof
  let ?w = "watchdog_run h w"
  note r = watchdog_run_map [OF assms, of h]
  then have "distinct (map fst (client_map ?w))"
    by (simp add: omap_wf_distinct)
  then have "i \<in> set (timeout_check now ?w) \<longleftrightarrow> (\<exists>d. map_of (client_map ?w) i = Some d \<and> d < now)"
    by (simp add: timeout_check_def image_iff Bex_def)
  then show "i \<in> set (timeout_check now ?w) \<longleftrightarrow> (\<exists>t. last_ping i h = Some t \<and> t + seconds (wd_timeout w) < now)"
    using r by auto
  show "command c = CHECKPOINT \<and> last_ping (unique_id c) h = None \<longrightarrow>
      watchdog_process now c ?w = (VELOC_FAILURE, ?w)"
    using r assms(1) by (simp add: watchdog_process_def)
qed

theorem watchdog_reports_silent_clients_witness:
  "7 \<in> set (timeout_check 40000000000 (watchdog_run
      [(2000000000, sample_command\<lparr>unique_id := 7, command := CHECKPOINT\<rparr>), (1000000000, sample_command\<lparr>unique_id := 7, command := INIT\<rparr>)]
      \<lparr>wd_timeout = 30, client_map = []\<rparr>))"
  using watchdog_reports_silent_clients [of "\<lparr>wd_timeout = 30, client_map = []\<rparr>" 7 40000000000
      "[(2000000000, sample_command\<lparr>unique_id := 7, command := CHECKPOINT\<rparr>), (1000000000, sample_command\<lparr>unique_id := 7, command := INIT\<rparr>)]" sample_command]
  by (simp add: sample_command_def)

end
