(* ===== verification/Transfer_Module.thy ===== *)
theory Transfer_Module
  imports Watchdog
begin

text \<open>
  \<^verbatim>\<open>transfer_module_t\<close> of \<^verbatim>\<open>src/src/modules/transfer_module.cpp\<close>: it flushes checkpoints to the
  persistent storage, at most once per interval and client, and brings lost ones back on a
  restart. The storage module is the one of the configuration; what is proved of the pair uses
  the contract of \<open>Storage\<close> only, so it holds for both POSIX classes.
\<close>

section \<open>The module\<close>

record transfer_module =
  tr_interval :: int
  last_timestamp :: "(int \<times> int) list"

definition new_transfer_module :: "'x config \<Rightarrow> transfer_module" where
  "new_transfer_module cfg =
     \<lparr>tr_interval =
        (case cfg_storage cfg of
           None \<Rightarrow> - 1
         | Some _ \<Rightarrow> (case get_optional_int cfg ''persistent_interval'' of None \<Rightarrow> 0 | Some i \<Rightarrow> i)),
      last_timestamp = []\<rparr>"

text \<open>\<^verbatim>\<open>operator[]\<close> creates a missing entry as the epoch.\<close>

definition time_of :: "int \<Rightarrow> (int \<times> int) list \<Rightarrow> int" where
  "time_of i m = (case map_of m i of None \<Rightarrow> 0 | Some t \<Rightarrow> t)"

definition transfer_process ::
    "'x config \<Rightarrow> int \<Rightarrow> command_t \<Rightarrow> transfer_module \<Rightarrow> 'x fsys_scheme \<Rightarrow>
     int outcome \<times> transfer_module \<times> 'x fsys_scheme" where
  "transfer_process cfg now c m fs =
     (if tr_interval m < 0 then (Ok VELOC_IGNORED, m, fs)
      else (case cfg_get cfg ''scratch'' of
          Inl e \<Rightarrow> (Throws e, m, fs)
        | Inr scratch \<Rightarrow>
            (case command c of
               INIT \<Rightarrow>
                 (Ok VELOC_SUCCESS,
                  m\<lparr>last_timestamp := omap_assign (unique_id c) (now + seconds (tr_interval m)) (last_timestamp m)\<rparr>, fs)
             | CHECKPOINT \<Rightarrow>
                 if tr_interval m > 0 \<and> now < time_of (unique_id c) (last_timestamp m)
                 then (Ok VELOC_SUCCESS, m\<lparr>last_timestamp := omap_insert (unique_id c) 0 (last_timestamp m)\<rparr>, fs)
                 else
                   let m' = (if tr_interval m > 0
                             then m\<lparr>last_timestamp := omap_assign (unique_id c) (now + seconds (tr_interval m)) (last_timestamp m)\<rparr>
                             else m)
                   in (case cfg_storage cfg of
                         None \<Rightarrow> (Throws Undefined, m', fs)
                       | Some sm \<Rightarrow>
                           (case sm_flush sm c fs of
                              (r, fs') \<Rightarrow> (map_outcome (\<lambda>ok. if ok then VELOC_SUCCESS else VELOC_FAILURE) r, m', fs')))
             | RESTART \<Rightarrow>
                 if sys_access fs (filename c scratch) then (Ok VELOC_SUCCESS, m, fs)
                 else (case cfg_storage cfg of
                         None \<Rightarrow> (Throws Undefined, m, fs)
                       | Some sm \<Rightarrow>
                           if \<not> sm_exists sm c fs then (Ok VELOC_IGNORED, m, fs)
                           else (case sm_restore sm c fs of
                              (r, fs') \<Rightarrow> (map_outcome (\<lambda>ok. if ok then VELOC_SUCCESS else VELOC_IGNORED) r, m, fs')))
             | _ \<Rightarrow> (Ok VELOC_IGNORED, m, fs))))"

lemma map_outcome_Ok: "map_outcome f r = Ok v \<longleftrightarrow> (\<exists>a. r = Ok a \<and> v = f a)"
  by (cases r) auto

section \<open>With a storage that keeps its contract\<close>

text \<open>The client's checkpoint is due: every checkpoint is, or its interval has passed.\<close>

definition due :: "int \<Rightarrow> command_t \<Rightarrow> transfer_module \<Rightarrow> bool" where
  "due now c m \<longleftrightarrow> tr_interval m = 0 \<or> 0 < tr_interval m \<and> time_of (unique_id c) (last_timestamp m) \<le> now"

lemma due_interval: "due now c m \<Longrightarrow> 0 \<le> tr_interval m"
  by (auto simp: due_def)

lemma process_interval: "transfer_process cfg now c m fs = (r, m', fs') \<Longrightarrow> tr_interval m' = tr_interval m"
  by (auto simp: transfer_process_def Let_def split: if_splits sum.splits cmd_kind.splits option.splits prod.splits)

context storage_contract
begin

lemma transfer_checkpoint:
  assumes "cfg_storage cfg = Some sm" and "cfg_get cfg ''scratch'' = Inr scratch" and "command c = CHECKPOINT"
    and "due now c m" and "ready c fs"
  shows "\<exists>ok m' fs'. transfer_process cfg now c m fs = (Ok (if ok then VELOC_SUCCESS else VELOC_FAILURE), m', fs') \<and>
    sm_flush sm c fs = (Ok ok, fs')"
proof -
  obtain ok fs' where "sm_flush sm c fs = (Ok ok, fs')"
    using flush_returns [OF assms(5)] by blast
  then show ?thesis
    using assms(1-4) by (auto simp: transfer_process_def due_def Let_def)
qed

lemma transfer_restart:
  assumes "cfg_storage cfg = Some sm" and "cfg_get cfg ''scratch'' = Inr scratch" and "command c = RESTART"
    and "0 \<le> tr_interval m" and "stored c bs fs" and "node_at fs (filename c scratch) = None"
    and "transfer_process cfg now c m fs = (Ok VELOC_SUCCESS, m', fs')"
  shows "node_at fs' (filename c scratch) = Some (Reg bs)"
proof -
  have "real_path fs (filename c scratch) = Some (filename c scratch)"
    using assms(6) by (intro real_path_self) simp
  then have "\<not> sys_access fs (filename c scratch)"
    using assms(6) by (simp add: sys_access_def)
  moreover have "sm_exists sm c fs"
    using assms(5) by (rule stored_exists)
  ultimately have "sm_restore sm c fs = (Ok True, fs')"
    using assms(1-4,7) by (auto simp: transfer_process_def map_outcome_Ok split: if_splits prod.splits)
  then show ?thesis
    by (rule restore_reads [OF assms(5,6)])
qed

end

section \<open>Properties\<close>

text \<open>The flushes of one client, as times, in a history with the newest entry first.\<close>

definition flushes :: "int \<Rightarrow> command_t \<Rightarrow> transfer_module \<Rightarrow> bool" where
  "flushes now c m \<longleftrightarrow> 0 \<le> tr_interval m \<and> command c = CHECKPOINT \<and>
     \<not> (tr_interval m > 0 \<and> now < time_of (unique_id c) (last_timestamp m))"

text \<open>
  C27: the interval is kept: once a client's checkpoint was flushed at some time, no checkpoint
  of that client is flushed before the interval has passed, whatever other commands come in
  between, and a checkpoint that is skipped reports success and leaves the files alone.
\<close>

theorem transfer_interval_kept:
  assumes "0 < tr_interval m" and "flushes t c m" and "unique_id c' = unique_id c" and "command c' = CHECKPOINT"
    and "t' < t + seconds (tr_interval m)" and "cfg_get cfg ''scratch'' = Inr scratch" and "omap_wf (last_timestamp m)"
    and "fold (\<lambda>(s, d) (m, fs). snd (transfer_process cfg s d m fs)) ((t, c) # h) (m, fs) = (m', fs')"
    and "\<forall>(s, d) \<in> set h. t \<le> s"
  shows "\<not> flushes t' c' m' \<and> fst (transfer_process cfg t' c' m' fs') = Ok VELOC_SUCCESS \<and>
    snd (snd (transfer_process cfg t' c' m' fs')) = fs'"
proof -
  let ?i = "unique_id c"
  let ?I = "\<lambda>m'. tr_interval m' = tr_interval m \<and> omap_wf (last_timestamp m') \<and>
      t + seconds (tr_interval m) \<le> time_of ?i (last_timestamp m')"
  have first: "?I (fst (snd (transfer_process cfg t c m fs)))"
    using assms(1,2,6,7)
    by (auto simp: transfer_process_def flushes_def Let_def time_of_def omap_simps split: option.splits prod.splits)
  have step: "?I (fst (snd (transfer_process cfg s d n fs)))" if "?I n" "t \<le> s" for s d n and fs :: "'a fsys_scheme"
    using that assms(1,6)
    by (cases "command d") (auto simp: transfer_process_def Let_def time_of_def omap_simps
        split: option.splits prod.splits if_splits)
  have "?I (fst (fold (\<lambda>(s, d) (m, fs). snd (transfer_process cfg s d m fs)) h (n, fs)))"
    if "?I n" "\<forall>(s, d) \<in> set h. t \<le> s" for n and fs :: "'a fsys_scheme"
    using that
  proof (induction h arbitrary: n fs)
    case (Cons e h)
    obtain s d where e: "e = (s, d)" by (cases e)
    obtain r n1 fs1 where p: "transfer_process cfg s d n fs = (r, n1, fs1)"
      using prod_cases3 by blast
    have "?I n1"
      using step [of n s d fs] Cons.prems by (simp add: e p)
    from Cons.IH [OF this, of fs1] Cons.prems(2) show ?case
      by (simp add: e p)
  qed simp
  from this [OF first assms(9), of "snd (snd (transfer_process cfg t c m fs))"] have "?I m'"
    using assms(8) by simp
  with assms(1,3-6) show ?thesis
    by (auto simp: flushes_def transfer_process_def)
qed

definition sample_cfg :: "unit config" where
  "sample_cfg = \<lparr>cfg_file = '''', cfg_env = sample_env, cfg_reader = None, cfg_sync = False,
     cfg_storage = Some (posix_module ''/s'' ''/p'')\<rparr>"

lemma sample_cfg_get: "cfg_get sample_cfg ''scratch'' = Inr ''/s''" "cfg_get sample_cfg ''meta'' = Inr ''/m''"
  by code_simp+

lemma sample_cfg_storage: "cfg_storage sample_cfg = Some (posix_module ''/s'' ''/p'')"
  by (simp add: sample_cfg_def)

theorem transfer_interval_kept_witness:
  "\<exists>m' fs'. fold (\<lambda>(s, d) (m, fs). snd (transfer_process sample_cfg s d m fs)) [(5, sample_command)]
       (\<lparr>tr_interval = 60, last_timestamp = []\<rparr>, sample_store) = (m', fs') \<and>
     \<not> flushes 59000000000 sample_command m'"
proof -
  obtain m' fs' where "fold (\<lambda>(s, d) (m, fs). snd (transfer_process sample_cfg s d m fs)) [(5, sample_command)]
       (\<lparr>tr_interval = 60, last_timestamp = []\<rparr>, sample_store) = (m', fs')"
    by fastforce
  with transfer_interval_kept [of "\<lparr>tr_interval = 60, last_timestamp = []\<rparr>" 5 sample_command sample_command
      59000000000 sample_cfg "''/s''" "[]" sample_store m' fs'] show ?thesis
    by (auto simp: flushes_def sample_command_def sample_cfg_get time_of_def)
qed

end
