(* ===== verification/Chksum_Module.thy ===== *)
theory Chksum_Module
  imports Transfer_Module
begin

text \<open>
  \<^verbatim>\<open>chksum_module_t\<close> of \<^verbatim>\<open>src/src/modules/chksum_module.cpp\<close>: the SHA-256 of every checkpoint file
  is kept in a file of the metadata directory and compared on a restart. The hash function is
  an argument \<open>sha256\<close>; what the module relies on is that a hash has 32 bytes and, for the
  detection of a change, that the two contents at hand do not collide. The file is hashed
  through \<^verbatim>\<open>mmap\<close>, which fails on an empty file; a page that cannot be read kills the process.
\<close>

section \<open>The module\<close>

definition new_chksum_module :: "'x config \<Rightarrow> 'x fsys_scheme \<Rightarrow> bool res \<times> 'x fsys_scheme" where
  "new_chksum_module cfg fs =
     (if \<not> get_bool cfg ''chksum'' False then (Inr False, fs)
      else (case cfg_get cfg ''meta'' of
              Inl e \<Rightarrow> (Inl e, fs)
            | Inr meta \<Rightarrow> (case check_dir fs meta of (ok, fs') \<Rightarrow> (Inr ok, fs'))))"

text \<open>\<open>Inr None\<close> is the return value false.\<close>

definition chksum_file :: "(byte list \<Rightarrow> byte list) \<Rightarrow> 'x fsys_scheme \<Rightarrow> string \<Rightarrow> byte list option res" where
  "chksum_file sha256 fs source =
     (case sys_open_rd fs source of
        None \<Rightarrow> Inr None
      | Some fd \<Rightarrow>
          let buff = contents fs fd
          in if buff = [] then Inr None
             else if io_error fs fd then Inl Fatal
             else Inr (Some (sha256 buff)))"

abbreviation HASH_SIZE :: nat where "HASH_SIZE \<equiv> 32"

definition chksum_process ::
    "(byte list \<Rightarrow> byte list) \<Rightarrow> 'x config \<Rightarrow> command_t \<Rightarrow> bool \<Rightarrow> 'x fsys_scheme \<Rightarrow> int outcome \<times> 'x fsys_scheme" where
  "chksum_process sha256 cfg c active fs =
     (if \<not> active then (Ok VELOC_IGNORED, fs)
      else (case (cfg_get cfg ''meta'', cfg_get cfg ''scratch'') of
          (Inl e, _) \<Rightarrow> (Throws e, fs)
        | (_, Inl e) \<Rightarrow> (Throws e, fs)
        | (Inr meta_dir, Inr scratch) \<Rightarrow>
            let meta = meta_filename c meta_dir; local = filename c scratch
            in (case command c of
                  CHECKPOINT \<Rightarrow>
                    (case chksum_file sha256 fs local of
                       Inl e \<Rightarrow> (Throws e, fs)
                     | Inr None \<Rightarrow> (Ok VELOC_FAILURE, fs)
                     | Inr (Some chksum) \<Rightarrow>
                         (case write_file fs meta chksum of
                            (ok, fs') \<Rightarrow> (Ok (if ok then VELOC_SUCCESS else VELOC_FAILURE), fs')))
                | RESTART \<Rightarrow>
                    (case read_file fs meta HASH_SIZE of
                       None \<Rightarrow> (Ok VELOC_FAILURE, fs)
                     | Some orig_chksum \<Rightarrow>
                         (case chksum_file sha256 fs local of
                            Inl e \<Rightarrow> (Throws e, fs)
                          | Inr None \<Rightarrow> (Ok VELOC_FAILURE, fs)
                          | Inr (Some chksum) \<Rightarrow>
                              (Ok (if chksum = orig_chksum then VELOC_SUCCESS else VELOC_FAILURE), fs)))
                | _ \<Rightarrow> (Ok VELOC_IGNORED, fs))))"

section \<open>Lemmas\<close>

lemma chksum_file_reg:
  assumes "chksum_file sha256 fs p = Inr (Some h)" and "node_at fs p = Some (Reg bs)"
  shows "h = sha256 bs" and "bs \<noteq> []"
proof -
  have "sys_open_rd fs p = Some p"
    using assms open_rd_reg [of fs p] by (auto simp: chksum_file_def split: option.splits)
  then show "h = sha256 bs" "bs \<noteq> []"
    using assms by (auto simp: chksum_file_def contents_def Let_def split: if_splits)
qed

lemma chksum_file_faultless:
  "faultless fs \<Longrightarrow> node_at fs p = Some (Reg bs) \<Longrightarrow> bs \<noteq> [] \<Longrightarrow> chksum_file sha256 fs p = Inr (Some (sha256 bs))"
  by (simp add: chksum_file_def open_rd_faultless contents_def faultless_def)

text \<open>The record of a checksum: a plain file of the metadata directory.\<close>

definition recorded :: "(byte list \<Rightarrow> byte list) \<Rightarrow> string \<Rightarrow> command_t \<Rightarrow> byte list \<Rightarrow> 'x fsys_scheme \<Rightarrow> bool" where
  "recorded sha256 meta c bs fs \<longleftrightarrow> node_at fs (meta_filename c meta) = Some (Reg (sha256 bs)) \<and> bs \<noteq> []"

lemma chksum_checkpoint_records:
  assumes "chksum_process sha256 cfg c True fs = (Ok VELOC_SUCCESS, fs')" and "command c = CHECKPOINT"
    and "cfg_get cfg ''meta'' = Inr meta" and "cfg_get cfg ''scratch'' = Inr scratch"
    and "node_at fs (filename c scratch) = Some (Reg bs)" and "plain fs (meta_filename c meta)"
  shows "fs' = set_node (meta_filename c meta) (Reg (sha256 bs)) fs" and "recorded sha256 meta c bs fs'"
proof -
  obtain h where h: "chksum_file sha256 fs (filename c scratch) = Inr (Some h)"
      and w: "write_file fs (meta_filename c meta) h = (True, fs')"
    using assms(1-4) by (auto simp: chksum_process_def Let_def split: sum.splits option.splits prod.splits if_splits)
  have "real_path fs (meta_filename c meta) = Some (meta_filename c meta)"
    using assms(6) by (intro real_path_self) (simp add: plain_iff)
  then show "fs' = set_node (meta_filename c meta) (Reg (sha256 bs)) fs"
    using write_file_content [OF w] chksum_file_reg(1) [OF h assms(5)] by auto
  then show "recorded sha256 meta c bs fs'"
    using chksum_file_reg(2) [OF h assms(5)] by (simp add: recorded_def)
qed

lemma read_recorded:
  assumes "node_at fs p = Some (Reg h)" and "length h = n" and "read_file fs p n = Some h'"
  shows "h' = h"
proof -
  have "real_path fs p = Some p"
    using assms(1) by (intro real_path_self) simp
  with read_file_content [OF assms(3)] assms(1,2) show ?thesis
    by (auto simp: contents_def)
qed

lemma chksum_restart_sound:
  assumes "chksum_process sha256 cfg c True fs = (Ok VELOC_SUCCESS, fs')" and "command c = RESTART"
    and "cfg_get cfg ''meta'' = Inr meta" and "cfg_get cfg ''scratch'' = Inr scratch"
    and "\<And>bs. length (sha256 bs) = HASH_SIZE" and "recorded sha256 meta c bs fs"
    and "node_at fs (filename c scratch) = Some (Reg bs')"
  shows "sha256 bs' = sha256 bs \<and> fs' = fs"
proof -
  obtain h h' where r: "read_file fs (meta_filename c meta) HASH_SIZE = Some h'"
      and h: "chksum_file sha256 fs (filename c scratch) = Inr (Some h)" and eq: "h = h'" "fs' = fs"
    using assms(1-4) by (auto simp: chksum_process_def Let_def split: sum.splits option.splits if_splits)
  have "h' = sha256 bs"
    using assms(5,6) r by (intro read_recorded) (auto simp: recorded_def)
  then show ?thesis
    using chksum_file_reg(1) [OF h assms(7)] eq by simp
qed

lemma chksum_restart_complete:
  assumes "faultless fs" and "command c = RESTART"
    and "cfg_get cfg ''meta'' = Inr meta" and "cfg_get cfg ''scratch'' = Inr scratch"
    and "\<And>bs. length (sha256 bs) = HASH_SIZE" and "recorded sha256 meta c bs fs"
    and "node_at fs (filename c scratch) = Some (Reg bs)"
  shows "chksum_process sha256 cfg c True fs = (Ok VELOC_SUCCESS, fs)"
proof -
  have m: "node_at fs (meta_filename c meta) = Some (Reg (sha256 bs))" "bs \<noteq> []"
    using assms(6) by (auto simp: recorded_def)
  have "read_file fs (meta_filename c meta) HASH_SIZE = Some (sha256 bs)"
    using assms(5) by (simp add: read_file_def open_rd_faultless [OF assms(1) m(1)] pread_faultless [OF assms(1)] contents_def m(1))
  then show ?thesis
    using assms(2-4) chksum_file_faultless [OF assms(1,7) m(2), of sha256] by (simp add: chksum_process_def Let_def)
qed

section \<open>Properties\<close>

text \<open>
  C20: after a checkpoint whose checksum was recorded, a restart that finds the record untouched
  succeeds only when the local file has the hash of the bytes that were checkpointed, so with a
  hash that does not make the two contents collide only when they are the same bytes; and when
  they are and no system call fails, it does succeed.
\<close>

theorem chksum_detects_corruption:
  assumes "chksum_process sha256 cfg c True fs = (Ok VELOC_SUCCESS, fs1)" and "command c = CHECKPOINT"
    and "cfg_get cfg ''meta'' = Inr meta" and "cfg_get cfg ''scratch'' = Inr scratch"
    and "node_at fs (filename c scratch) = Some (Reg bs)" and "plain fs (meta_filename c meta)"
    and "\<And>bs. length (sha256 bs) = HASH_SIZE"
    and "sha256 bs' = sha256 bs \<Longrightarrow> bs' = bs"
    and "node_at fs2 (meta_filename c meta) = node_at fs1 (meta_filename c meta)"
    and "node_at fs2 (filename c scratch) = Some (Reg bs')"
  shows "(fst (chksum_process sha256 cfg (c\<lparr>command := RESTART\<rparr>) True fs2) = Ok VELOC_SUCCESS \<longrightarrow> bs' = bs) \<and>
    (faultless fs2 \<and> bs' = bs \<longrightarrow> fst (chksum_process sha256 cfg (c\<lparr>command := RESTART\<rparr>) True fs2) = Ok VELOC_SUCCESS)"
proof (intro conjI impI)
  let ?c = "c\<lparr>command := RESTART\<rparr>"
  have names: "meta_filename ?c meta = meta_filename c meta" "filename ?c scratch = filename c scratch"
    by (simp_all add: meta_filename_def filename_def stem_def)
  have rec: "recorded sha256 meta ?c bs fs2"
    using chksum_checkpoint_records(2) [OF assms(1-6)] assms(9) by (simp add: recorded_def names)
  show "bs' = bs" if "fst (chksum_process sha256 cfg ?c True fs2) = Ok VELOC_SUCCESS"
  proof -
    from that have "chksum_process sha256 cfg ?c True fs2 = (Ok VELOC_SUCCESS, snd (chksum_process sha256 cfg ?c True fs2))"
      by (simp add: prod_eq_iff)
    from chksum_restart_sound [OF this _ assms(3,4) assms(7) rec] show ?thesis
      using assms(8,10) by (simp add: names)
  qed
  show "fst (chksum_process sha256 cfg ?c True fs2) = Ok VELOC_SUCCESS" if "faultless fs2 \<and> bs' = bs"
    using chksum_restart_complete [OF _ _ assms(3,4) assms(7) rec] that assms(10) by (simp add: names)
qed

definition sample_hash :: "byte list \<Rightarrow> byte list" where
  "sample_hash bs = map (\<lambda>i. if i < length bs then bs ! i else 0) [0..<HASH_SIZE]"

definition sample_meta :: fsys where
  "sample_meta = set_node ''/m'' Dir sample_store"

lemma sample_meta_names: "filename sample_command ''/s'' = ''/s/heat.2d-3-12.dat''"
    "meta_filename sample_command ''/m'' = ''/m/heat.2d-3-12.dat.chksum''" "command sample_command = CHECKPOINT"
  by code_simp+

theorem chksum_detects_corruption_witness:
  "\<exists>fs1. chksum_process sample_hash sample_cfg sample_command True sample_meta = (Ok VELOC_SUCCESS, fs1) \<and>
     fst (chksum_process sample_hash sample_cfg (sample_command\<lparr>command := RESTART\<rparr>) True
       (set_node ''/s/heat.2d-3-12.dat'' (Reg [4, 5, 7]) fs1)) \<noteq> Ok VELOC_SUCCESS"
proof -
  have "fst (chksum_process sample_hash sample_cfg sample_command True sample_meta) = Ok VELOC_SUCCESS"
    by code_simp
  then obtain fs1 where p: "chksum_process sample_hash sample_cfg sample_command True sample_meta = (Ok VELOC_SUCCESS, fs1)"
    by (metis prod.collapse)
  have ne: "sample_hash [4, 5, 7] \<noteq> sample_hash [4, 5, 6]"
    by code_simp
  have "length (sample_hash bs) = HASH_SIZE" for bs
    by (simp add: sample_hash_def)
  from chksum_detects_corruption [OF p _ sample_cfg_get(2,1) _ _ this, of "[4, 5, 6]" "[4, 5, 7]"
      "set_node ''/s/heat.2d-3-12.dat'' (Reg [4, 5, 7]) fs1"] ne
  have "fst (chksum_process sample_hash sample_cfg (sample_command\<lparr>command := RESTART\<rparr>) True
      (set_node ''/s/heat.2d-3-12.dat'' (Reg [4, 5, 7]) fs1)) \<noteq> Ok VELOC_SUCCESS"
    by (simp add: sample_meta_names plain_def sample_meta_def sample_store_def)
  with p show ?thesis by blast
qed

end
