(* ===== verification/Versioning_Module.thy ===== *)
theory Versioning_Module
  imports Chksum_Module
begin

text \<open>
  \<^verbatim>\<open>versioning_module_t\<close> of \<^verbatim>\<open>src/src/modules/versioning_module.cpp\<close>: it answers which version a
  restart can use and deletes versions beyond the configured number, separately on the
  persistent storage and on scratch. A history is the ascending list of the versions of one
  checkpoint name and one process. While a directory is scanned its entries are deleted; the
  scan goes over the entries it found at its start.
\<close>

section \<open>The module\<close>

type_synonym history_map = "((string \<times> int) \<times> int list) list"

record versioning_module =
  persistent_history :: history_map
  scratch_history :: history_map
  max_versions :: int
  scratch_versions :: int
  vs_meta :: string

definition hist_of :: "history_map \<Rightarrow> command_t \<Rightarrow> int list" where
  "hist_of h c = (case map_of h (cname c, unique_id c) of None \<Rightarrow> [] | Some s \<Rightarrow> s)"

abbreviation set_ph :: "command_t \<Rightarrow> int list \<Rightarrow> versioning_module \<Rightarrow> versioning_module" where
  "set_ph c s \<equiv> persistent_history_update (AList.update (cname c, unique_id c) s)"

abbreviation set_sh :: "command_t \<Rightarrow> int list \<Rightarrow> versioning_module \<Rightarrow> versioning_module" where
  "set_sh c s \<equiv> scratch_history_update (AList.update (cname c, unique_id c) s)"

text \<open>
  The constructor. Its log message reads \<^verbatim>\<open>persistent\<close> while the lock of the logger is held;
  when the parameter is missing (the DAOS storage does not need it) the error path takes the
  same lock a second time, which is undefined. Without a storage \<^verbatim>\<open>max_versions\<close> is not
  initialised, and not read.
\<close>

definition new_versioning_module :: "'x config \<Rightarrow> versioning_module res" where
  "new_versioning_module cfg =
     (let sv = (case get_optional_int cfg ''scratch_versions'' of None \<Rightarrow> 0 | Some n \<Rightarrow> n);
          meta = (case get_optional cfg ''meta'' of None \<Rightarrow> '''' | Some m \<Rightarrow> m);
          made = (\<lambda>mv. \<lparr>persistent_history = [], scratch_history = [], max_versions = mv,
                        scratch_versions = sv, vs_meta = meta\<rparr>)
      in (case cfg_storage cfg of
            None \<Rightarrow> Inr (made 0)
          | Some _ \<Rightarrow>
              (case get_optional_int cfg ''max_versions'' of
                 Some mv \<Rightarrow> Inr (made mv)
               | None \<Rightarrow> (case cfg_get cfg ''persistent'' of Inl _ \<Rightarrow> Inl Undefined | Inr _ \<Rightarrow> Inr (made 0)))))"

definition scratch_version_set ::
    "'x fsys_scheme \<Rightarrow> string \<Rightarrow> string \<Rightarrow> int \<Rightarrow> int list \<Rightarrow> unit res \<times> int list" where
  "scratch_version_set fs p nm req_id result =
     discard (parse_dir fs p nm
       (\<lambda>_ i v r. if i = ID_EC \<or> i = req_id then insort_insert v r else r) result)"

text \<open>The descending union of the two histories and the first element that is not above the request.\<close>

definition best_version :: "int \<Rightarrow> int list \<Rightarrow> int list \<Rightarrow> int" where
  "best_version req ph sh =
     (let versions = rev (fold insort_insert ph sh)
      in case versions of
           [] \<Rightarrow> VELOC_IGNORED
         | v # _ \<Rightarrow>
             if req = 0 then v
             else (case dropWhile (\<lambda>w. w > req) versions of [] \<Rightarrow> VELOC_IGNORED | w # _ \<Rightarrow> w))"

fun prune_persistent ::
    "'x storage_module \<Rightarrow> string \<Rightarrow> nat \<Rightarrow> command_t \<Rightarrow> int list \<Rightarrow> 'x fsys_scheme \<Rightarrow> int list \<times> 'x fsys_scheme" where
  "prune_persistent sm meta m c [] fs = ([], fs)"
| "prune_persistent sm meta m c (v # ph) fs =
     (if length (v # ph) > m then
        let old = c\<lparr>version := v\<rparr>;
            fs1 = snd (sm_remove sm old fs);
            fs2 = (if meta = '''' then fs1 else snd (sys_unlink fs1 (meta_filename old meta)))
        in prune_persistent sm meta m c ph fs2
      else (v # ph, fs))"

fun prune_scratch ::
    "string \<Rightarrow> nat \<Rightarrow> command_t \<Rightarrow> int list \<Rightarrow> 'x fsys_scheme \<Rightarrow> unit res \<times> int list \<times> 'x fsys_scheme" where
  "prune_scratch scratch m c [] fs = (Inr (), [], fs)"
| "prune_scratch scratch m c (v # sh) fs =
     (if length (v # sh) > m then
        (case parse_dir fs scratch (cname c) (\<lambda>f _ w s. if w = v then snd (sys_unlink s f) else s) fs of
           (Inl e, fs1) \<Rightarrow> (Inl e, v # sh, fs1)
         | (Inr _, fs1) \<Rightarrow> prune_scratch scratch m c sh fs1)
      else (Inr (), v # sh, fs))"

definition versioning_test ::
    "'x config \<Rightarrow> command_t \<Rightarrow> versioning_module \<Rightarrow> 'x fsys_scheme \<Rightarrow> int outcome \<times> versioning_module" where
  "versioning_test cfg c vm fs =
     (case (case cfg_storage cfg of None \<Rightarrow> (Inr (), []) | Some sm \<Rightarrow> sm_get_versions sm c fs []) of
        (Inl e, ph) \<Rightarrow> (Throws e, set_ph c ph vm)
      | (Inr _, ph) \<Rightarrow>
          (case cfg_get cfg ''scratch'' of
             Inl e \<Rightarrow> (Throws e, set_sh c [] (set_ph c ph vm))
           | Inr scratch \<Rightarrow>
               (case scratch_version_set fs scratch (cname c) (unique_id c) [] of
                  (Inl e, sh) \<Rightarrow> (Throws e, set_sh c sh (set_ph c ph vm))
                | (Inr _, sh) \<Rightarrow> (Ok (best_version (version c) ph sh), set_sh c sh (set_ph c ph vm)))))"

definition versioning_checkpoint ::
    "'x config \<Rightarrow> command_t \<Rightarrow> versioning_module \<Rightarrow> 'x fsys_scheme \<Rightarrow>
     int outcome \<times> versioning_module \<times> 'x fsys_scheme" where
  "versioning_checkpoint cfg c vm fs =
     (let (vm1, fs1) =
        (case cfg_storage cfg of
           None \<Rightarrow> (vm, fs)
         | Some sm \<Rightarrow>
             if max_versions vm > 0 then
               (case prune_persistent sm (vs_meta vm) (nat (max_versions vm)) c
                       (insort_insert (version c) (hist_of (persistent_history vm) c)) fs of
                  (ph, fs') \<Rightarrow> (set_ph c ph vm, fs'))
             else (vm, fs))
      in if scratch_versions vm > 0 then
           (case cfg_get cfg ''scratch'' of
              Inl e \<Rightarrow> (Throws e, vm1, fs1)
            | Inr scratch \<Rightarrow>
                (case prune_scratch scratch (nat (scratch_versions vm)) c
                        (insort_insert (version c) (hist_of (scratch_history vm) c)) fs1 of
                   (Inl e, sh, fs2) \<Rightarrow> (Throws e, set_sh c sh vm1, fs2)
                 | (Inr _, sh, fs2) \<Rightarrow> (Ok VELOC_SUCCESS, set_sh c sh vm1, fs2)))
         else (Ok VELOC_SUCCESS, vm1, fs1))"

definition versioning_restart ::
    "'x config \<Rightarrow> command_t \<Rightarrow> versioning_module \<Rightarrow> 'x fsys_scheme \<Rightarrow> int outcome \<times> versioning_module" where
  "versioning_restart cfg c vm fs =
     (let vm1 = (case cfg_storage cfg of
            None \<Rightarrow> vm
          | Some sm \<Rightarrow>
              if sm_exists sm c fs
              then set_ph c (insort_insert (version c) (hist_of (persistent_history vm) c)) vm else vm)
      in (case cfg_get cfg ''scratch'' of
            Inl e \<Rightarrow> (Throws e, vm1)
          | Inr scratch \<Rightarrow>
              (Ok VELOC_IGNORED,
               if sys_access fs (filename c scratch)
               then set_sh c (insort_insert (version c) (hist_of (scratch_history vm1) c)) vm1 else vm1)))"

definition versioning_process ::
    "'x config \<Rightarrow> command_t \<Rightarrow> versioning_module \<Rightarrow> 'x fsys_scheme \<Rightarrow>
     int outcome \<times> versioning_module \<times> 'x fsys_scheme" where
  "versioning_process cfg c vm fs =
     (case command c of
        TEST \<Rightarrow> (case versioning_test cfg c vm fs of (r, vm') \<Rightarrow> (r, vm', fs))
      | CHECKPOINT \<Rightarrow> versioning_checkpoint cfg c vm fs
      | RESTART \<Rightarrow> (case versioning_restart cfg c vm fs of (r, vm') \<Rightarrow> (r, vm', fs))
      | _ \<Rightarrow> (Ok VELOC_IGNORED, vm, fs))"

section \<open>The answer to a test\<close>

definition wf_hist :: "int list \<Rightarrow> bool" where
  "wf_hist s \<longleftrightarrow> sorted s \<and> distinct s"

lemma wf_hist_Nil [simp]: "wf_hist []"
  by (simp add: wf_hist_def)

lemma wf_hist_insert [intro]: "wf_hist s \<Longrightarrow> wf_hist (insort_insert v s)"
  by (simp add: wf_hist_def sorted_insort_insert distinct_insort_insert)

lemma wf_hist_drop [intro]: "wf_hist s \<Longrightarrow> wf_hist (drop n s)"
  by (simp add: wf_hist_def sorted_wrt_drop)

lemma wf_hist_union: "wf_hist sh \<Longrightarrow> wf_hist (fold insort_insert ph sh)"
  by (induction ph arbitrary: sh) auto

lemma set_union_hist: "set (fold insort_insert ph (sh :: int list)) = set ph \<union> set sh"
  by (induction ph arbitrary: sh) (auto simp: set_insort_insert)

lemma first_below:
  assumes "sorted_wrt (\<ge>) (ys :: int list)"
  shows "(case dropWhile (\<lambda>w. w > req) ys of [] \<Rightarrow> d | w # _ \<Rightarrow> w) =
    (if {w \<in> set ys. w \<le> req} = {} then d else Max {w \<in> set ys. w \<le> req})"
  using assms
proof (induction ys)
  case (Cons y ys)
  show ?case
  proof (cases "y > req")
    case True
    then have E: "{w \<in> set (y # ys). w \<le> req} = {w \<in> set ys. w \<le> req}"
      by auto
    show ?thesis
      unfolding E using True Cons.IH Cons.prems by simp
  next
    case False
    have "Max {w \<in> set (y # ys). w \<le> req} = y"
      using False Cons.prems by (intro Max_eqI) auto
    moreover have "y \<in> {w \<in> set (y # ys). w \<le> req}"
      using False by simp
    ultimately show ?thesis
      using False by (auto simp del: set_simps)
  qed
qed simp

lemma best_version_Max:
  assumes "wf_hist sh"
  shows "best_version req ph sh =
    (let V = {v \<in> set ph \<union> set sh. req = 0 \<or> v \<le> req} in if V = {} then VELOC_IGNORED else Max V)"
proof -
  let ?xs = "fold insort_insert ph sh"
  have wf: "wf_hist ?xs" and st: "set (rev ?xs) = set ph \<union> set sh"
    using assms by (simp_all add: wf_hist_union set_union_hist)
  then have desc: "sorted_wrt (\<ge>) (rev ?xs)"
    by (simp add: wf_hist_def sorted_wrt_rev)
  show ?thesis
  proof (cases "rev ?xs")
    case Nil
    then show ?thesis
      using st by (simp add: best_version_def Let_def)
  next
    case (Cons y ys)
    have y: "Max (set ph \<union> set sh) = y"
      using desc unfolding st [symmetric] Cons by (intro Max_eqI) auto
    have ne: "set ph \<union> set sh \<noteq> {}"
      unfolding st [symmetric] Cons by simp
    show ?thesis
    proof (cases "req = 0")
      case True
      then have V: "{v \<in> set ph \<union> set sh. req = 0 \<or> v \<le> req} = set ph \<union> set sh"
        by auto
      show ?thesis
        unfolding V Let_def using True ne y by (auto simp: best_version_def Let_def Cons)
    next
      case False
      then have V: "{v \<in> set ph \<union> set sh. req = 0 \<or> v \<le> req} = {w \<in> set (rev ?xs). w \<le> req}"
        using st by auto
      have "best_version req ph sh = (case dropWhile (\<lambda>w. w > req) (rev ?xs) of [] \<Rightarrow> VELOC_IGNORED | w # _ \<Rightarrow> w)"
        using False by (simp add: best_version_def Let_def Cons)
      also have "\<dots> = (if {w \<in> set (rev ?xs). w \<le> req} = {} then VELOC_IGNORED else Max {w \<in> set (rev ?xs). w \<le> req})"
        by (rule first_below [OF desc])
      finally show ?thesis
        unfolding V Let_def .
    qed
  qed
qed

lemma snd_discard: "snd (discard x) = snd x"
  by (simp add: discard_def split: prod.split sum.split)

lemma scan_wf_hist:
  assumes "wf_hist r"
  shows "wf_hist (snd (discard (parse_dir fs p nm (\<lambda>_ i v r. if P i then insort_insert v r else r) r)))"
proof -
  have "wf_hist (snd (dir_loop p ex (\<lambda>_ i v r. if P i then insort_insert v r else r) ds r))" if "wf_hist r" for ex ds r
    using that by (induction ds arbitrary: r) (auto split: sum.splits option.splits)
  then show ?thesis
    using assms by (simp add: snd_discard parse_dir_def split: sum.split)
qed

lemma versioning_test_Ok:
  assumes "versioning_test cfg c vm fs = (Ok r, vm')" and "cfg_storage cfg = Some sm" and "cfg_get cfg ''scratch'' = Inr scratch"
  shows "\<exists>ph sh. sm_get_versions sm c fs [] = (Inr (), ph) \<and>
    scratch_version_set fs scratch (cname c) (unique_id c) [] = (Inr (), sh) \<and> r = best_version (version c) ph sh"
proof -
  obtain x ph where ph: "sm_get_versions sm c fs [] = (x, ph)"
    by fastforce
  obtain y sh where sh: "scratch_version_set fs scratch (cname c) (unique_id c) [] = (y, sh)"
    by fastforce
  show ?thesis
    using assms by (cases x; cases y) (simp_all add: versioning_test_def ph sh)
qed

text \<open>The versions a directory holds for a checkpoint name, restricted to the selected ids.\<close>

definition versions_in :: "'x fsys_scheme \<Rightarrow> string \<Rightarrow> string \<Rightarrow> (int \<Rightarrow> bool) \<Rightarrow> int set" where
  "versions_in fs p nm P =
     {v. \<exists>d i. d \<in> set (sys_readdir fs p) \<and> P i \<and> command_match d (map atom_of nm) = Inr (Some (i, v))}"


definition sample_vm :: versioning_module where
  "sample_vm = \<lparr>persistent_history = [], scratch_history = [((''heat.2d'', 3), [13, 14])], max_versions = 0,
     scratch_versions = 2, vs_meta = ''''\<rparr>"


section \<open>Retention\<close>

lemma prune_persistent_fold:
  "prune_persistent sm meta m c ph fs =
     (drop (length ph - m) ph,
      fold (\<lambda>v fs. let fs1 = snd (sm_remove sm (c\<lparr>version := v\<rparr>) fs)
                   in if meta = '''' then fs1 else snd (sys_unlink fs1 (meta_filename (c\<lparr>version := v\<rparr>) meta)))
        (take (length ph - m) ph) fs)"
proof (induction ph arbitrary: fs)
  case (Cons v ph)
  show ?case
  proof (cases "length (v # ph) > m")
    case True
    then have "length (v # ph) - m = Suc (length ph - m)"
      by simp
    with True Cons show ?thesis
      by (simp add: Let_def)
  qed simp
qed simp

text \<open>The files of one version of a checkpoint in a directory, of whatever process.\<close>

definition version_file :: "string \<Rightarrow> string \<Rightarrow> int \<Rightarrow> string \<Rightarrow> bool" where
  "version_file dir nm v p \<longleftrightarrow>
     (\<exists>d i. p = dir @ ''/'' @ d \<and> d \<noteq> [] \<and> CHR ''/'' \<notin> set d \<and> command_match d (map atom_of nm) = Inr (Some (i, v)))"

lemma unlink_effect:
  "node_at (snd (sys_unlink fs p)) =
     (if node_at fs p \<noteq> Some Dir \<and> \<not> deny_write fs p then (node_at fs)(p := None) else node_at fs)"
  "deny_write (snd (sys_unlink fs p)) = deny_write fs" "deny_read (snd (sys_unlink fs p)) = deny_read fs"
  "fs_wf fs \<Longrightarrow> fs_wf (snd (sys_unlink fs p))"
  by (auto simp: sys_unlink_def fun_eq_iff split: option.splits node.splits)

lemma unlink_fold:
  fixes fs :: "'x fsys_scheme"
  assumes "fs_wf fs"
  shows "let fs' = fold (\<lambda>p s. if P p then snd (sys_unlink s (f p)) else s) xs fs
    in node_at fs' = (\<lambda>q. if q \<in> f ` {p \<in> set xs. P p} \<and> node_at fs q \<noteq> Some Dir \<and> \<not> deny_write fs q
          then None else node_at fs q) \<and>
       deny_write fs' = deny_write fs \<and> deny_read fs' = deny_read fs \<and> fs_wf fs'"
  using assms
proof (induction xs arbitrary: fs)
  case (Cons x xs)
  let ?fs1 = "if P x then snd (sys_unlink fs (f x)) else fs"
  have "fs_wf ?fs1"
    using Cons.prems by (simp add: unlink_effect)
  from Cons.IH [OF this] show ?case
    by (auto simp: Let_def unlink_effect fun_eq_iff)
qed simp

lemma scan_delete:
  fixes fs :: "'x fsys_scheme"
  assumes "parse_dir fs dir nm (\<lambda>f _ w s. if w = v then snd (sys_unlink s f) else s) fs = (Inr b, fs')"
    and "validate_name nm" and "sys_opendir fs dir" and "fs_wf fs"
  shows "node_at fs' = (\<lambda>q. if version_file dir nm v q \<and> node_at fs q \<noteq> Some Dir \<and> \<not> deny_write fs q
      then None else node_at fs q)"
    and "deny_write fs' = deny_write fs" and "fs_wf fs'" and "sys_opendir fs' dir"
proof -
  let ?f = "\<lambda>f _ w s. if w = v then snd (sys_unlink s f) else s"
  let ?ex = "map atom_of nm"
  let ?hits = "dir_hits ?ex (sys_readdir fs dir)"
  have loop: "dir_loop dir ?ex ?f (sys_readdir fs dir) fs = (Inr b, fs')"
    using assms(1,3) validate_name_regex [OF assms(2)] by (simp add: parse_dir_def)
  have "\<forall>d \<in> set (sys_readdir fs dir). \<exists>x. command_match d ?ex = Inr x"
    by (rule dir_loop_returns [of dir ?ex ?f "sys_readdir fs dir" fs b]) (simp add: loop)
  from dir_loop_fold [OF this, of dir ?f fs] loop
  have fs': "fs' = fold (\<lambda>h s. if snd (snd h) = v then snd (sys_unlink s (dir @ ''/'' @ fst h)) else s) ?hits fs"
    by (simp add: case_prod_unfold)
  note eff = unlink_fold [OF assms(4), where P = "\<lambda>h. snd (snd h) = v" and f = "\<lambda>h. dir @ ''/'' @ fst h" and xs = ?hits,
      folded fs', unfolded Let_def]
  have files: "q \<in> (\<lambda>h. dir @ ''/'' @ fst h) ` {h \<in> set ?hits. snd (snd h) = v} \<longleftrightarrow>
      version_file dir nm v q \<and> node_at fs q \<noteq> None \<and> node_at fs q \<noteq> Some Dir" for q
    by (auto simp: set_dir_hits set_readdir [OF assms(4)] version_file_def image_iff)
  show "node_at fs' = (\<lambda>q. if version_file dir nm v q \<and> node_at fs q \<noteq> Some Dir \<and> \<not> deny_write fs q
      then None else node_at fs q)"
    unfolding eff [THEN conjunct1] files by (auto simp: fun_eq_iff)
  then show "sys_opendir fs' dir"
    using assms(3) eff by (auto simp: sys_opendir_def is_dir_def)
  show "deny_write fs' = deny_write fs" "fs_wf fs'"
    using eff by simp_all
qed

lemma prune_scratch_effect:
  fixes fs :: "'x fsys_scheme"
  assumes "prune_scratch dir m c sh fs = (Inr (), sh', fs')"
    and "validate_name (cname c)" and "sys_opendir fs dir" and "fs_wf fs"
  shows "sh' = drop (length sh - m) sh \<and>
    node_at fs' = (\<lambda>q. if (\<exists>v \<in> set (take (length sh - m) sh). version_file dir (cname c) v q) \<and>
        node_at fs q \<noteq> Some Dir \<and> \<not> deny_write fs q then None else node_at fs q)"
  using assms
proof (induction sh arbitrary: fs)
  case (Cons v sh)
  show ?case
  proof (cases "length (v # sh) > m")
    case True
    then have len: "length (v # sh) - m = Suc (length sh - m)"
      by simp
    obtain x fs1 where p: "parse_dir fs dir (cname c) (\<lambda>f _ w s. if w = v then snd (sys_unlink s f) else s) fs = (x, fs1)"
      by fastforce
    with True Cons.prems(1) obtain b where x: "x = Inr b" and rest: "prune_scratch dir m c sh fs1 = (Inr (), sh', fs')"
      by (cases x) auto
    note sd = scan_delete [OF p [unfolded x] Cons.prems(2-4)]
    from Cons.IH [OF rest Cons.prems(2) sd(4,3)] show ?thesis
      unfolding len by (auto simp: sd(1,2) fun_eq_iff)
  qed (use Cons.prems in auto)
qed simp

lemma wf_hist_pruned:
  assumes "wf_hist s" and "v \<in> set (take n s)" and "w \<in> set (drop n s)"
  shows "v < w"
proof -
  have "sorted_wrt (<) (take n s @ drop n s)"
    using assms(1) by (simp add: wf_hist_def strict_sorted_iff)
  then show ?thesis
    using assms(2,3) by (simp only: sorted_wrt_append)
qed

lemma hist_of_update [simp]: "hist_of (AList.update (cname c, unique_id c) s h) c = s"
  by (simp add: hist_of_def AList.update_conv')

lemma checkpoint_prunes:
  assumes "command c = CHECKPOINT" and "versioning_process cfg c vm fs = (Ok r, vm', fs')"
    and "cfg_storage cfg = None \<or> max_versions vm \<le> 0" and "0 < scratch_versions vm"
    and "cfg_get cfg ''scratch'' = Inr scratch"
  shows "r = VELOC_SUCCESS \<and>
    prune_scratch scratch (nat (scratch_versions vm)) c (insort_insert (version c) (hist_of (scratch_history vm) c)) fs =
      (Inr (), hist_of (scratch_history vm') c, fs')"
proof -
  obtain x sh' fs2 where p: "prune_scratch scratch (nat (scratch_versions vm)) c
      (insort_insert (version c) (hist_of (scratch_history vm) c)) fs = (x, sh', fs2)"
    using prod_cases3 by blast
  show ?thesis
    using assms p by (cases x) (auto simp: versioning_process_def versioning_checkpoint_def split: option.splits)
qed

text \<open>
  C22: with a scratch limit of \<open>m\<close> versions a checkpoint keeps in its history the \<open>m\<close> greatest
  versions, the new one included, and deletes on scratch every file of the dropped ones, of all
  processes and with their redundancy files, and no other file.
\<close>

theorem scratch_retention:
  assumes "command c = CHECKPOINT" and "versioning_process cfg c vm fs = (Ok r, vm', fs')"
    and "cfg_storage cfg = None \<or> max_versions vm \<le> 0" and "0 < scratch_versions vm"
    and "cfg_get cfg ''scratch'' = Inr scratch" and "validate_name (cname c)" and "sys_opendir fs scratch" and "fs_wf fs"
    and "wf_hist (hist_of (scratch_history vm) c)"
  shows "let s = insert (version c) (set (hist_of (scratch_history vm) c));
             kept = set (hist_of (scratch_history vm') c)
    in r = VELOC_SUCCESS \<and> kept \<subseteq> s \<and> card kept = min (card s) (nat (scratch_versions vm)) \<and>
       (\<forall>v \<in> s - kept. \<forall>w \<in> kept. v < w) \<and>
       (\<forall>q. node_at fs' q = (if (\<exists>v \<in> s - kept. version_file scratch (cname c) v q) \<and>
          node_at fs q \<noteq> Some Dir \<and> \<not> deny_write fs q then None else node_at fs q))"
proof -
  define sh where "sh = insort_insert (version c) (hist_of (scratch_history vm) c)"
  define n where "n = length sh - nat (scratch_versions vm)"
  obtain sh' where r: "r = VELOC_SUCCESS" and vm': "hist_of (scratch_history vm') c = sh'"
      and p: "prune_scratch scratch (nat (scratch_versions vm)) c sh fs = (Inr (), sh', fs')"
    using checkpoint_prunes [OF assms(1-5)] unfolding sh_def by blast
  note eff = prune_scratch_effect [OF p assms(6-8), folded n_def]
  have wf: "wf_hist sh" and st: "set sh = insert (version c) (set (hist_of (scratch_history vm) c))"
    using assms(9) by (auto simp: sh_def set_insort_insert)
  have dis: "set (take n sh) \<inter> set (drop n sh) = {}"
    using wf_hist_pruned [OF wf] by force
  have "set sh = set (take n sh) \<union> set (drop n sh)"
    by (metis append_take_drop_id set_append)
  with dis have gone: "set sh - set sh' = set (take n sh)"
    using eff by auto
  have "card (set sh') = min (card (set sh)) (nat (scratch_versions vm))"
    using wf eff by (auto simp: wf_hist_def distinct_card n_def)
  moreover have "set sh' \<subseteq> set sh"
    using eff by (auto dest: in_set_dropD)
  moreover have "\<forall>v \<in> set sh - set sh'. \<forall>w \<in> set sh'. v < w"
    using wf_hist_pruned [OF wf] gone eff by auto
  moreover have "\<forall>q. node_at fs' q = (if (\<exists>v \<in> set sh - set sh'. version_file scratch (cname c) v q) \<and>
      node_at fs q \<noteq> Some Dir \<and> \<not> deny_write fs q then None else node_at fs q)"
    unfolding gone eff [THEN conjunct2] by simp
  ultimately show ?thesis
    unfolding Let_def vm' st [symmetric] r by blast
qed

lemma own_version_file:
  assumes "wf_command c"
  shows "version_file dir (cname c) (version c) (filename c dir)"
  unfolding version_file_def filename_def
  using command_match_stem [OF assms] stem_no_slash [OF assms] by (intro exI [of _ "stem c"]) (auto simp: stem_def)

definition sample_cfg_local :: "unit config" where
  "sample_cfg_local = \<lparr>cfg_file = '''', cfg_env = sample_env, cfg_reader = None, cfg_sync = False, cfg_storage = None\<rparr>"

lemma sample_facts: "cfg_get sample_cfg_local ''scratch'' = Inr ''/s''" "sys_opendir sample_store ''/s''"
    "fs_wf sample_store" "hist_of (scratch_history sample_vm) sample_command = [13, 14]" "version sample_command = 12"
    "scratch_versions sample_vm = 2" "fst (versioning_process sample_cfg_local sample_command sample_vm sample_store) = Ok VELOC_SUCCESS"
    "hist_of (scratch_history (fst (snd (versioning_process sample_cfg_local sample_command sample_vm sample_store)))) sample_command = [13, 14]"
  by code_simp+

lemma sample_storage: "cfg_storage sample_cfg_local = None"
  by (simp add: sample_cfg_local_def)

lemma sample_local_file: "node_at sample_store (filename sample_command ''/s'') = Some (Reg [4, 5, 6])"
    "\<not> deny_write sample_store p"
  by (simp_all add: sample_meta_names sample_store_def)

theorem scratch_retention_witness:
  "\<exists>vm' fs'. versioning_process sample_cfg_local sample_command sample_vm sample_store = (Ok VELOC_SUCCESS, vm', fs') \<and>
     hist_of (scratch_history vm') sample_command = [13, 14] \<and> node_at fs' (filename sample_command ''/s'') = None"
proof -
  obtain vm' fs' where p: "versioning_process sample_cfg_local sample_command sample_vm sample_store = (Ok VELOC_SUCCESS, vm', fs')"
      and h: "hist_of (scratch_history vm') sample_command = [13, 14]"
    using sample_facts(7,8) by (metis prod.collapse)
  have "validate_name (cname sample_command)" "version_file ''/s'' (cname sample_command) 12 (filename sample_command ''/s'')"
    using wf_sample_command own_version_file [OF wf_sample_command] by (simp_all add: wf_command_def sample_facts)
  with scratch_retention [OF sample_meta_names(3) p, of "''/s''"] p h show ?thesis
    by (simp add: sample_storage sample_facts sample_local_file wf_hist_def Let_def insert_Diff_if)
qed

text \<open>
  The limit applies to version numbers and not to the order of the checkpoints: when scratch
  already holds as many later versions as the limit allows, a checkpoint with a smaller version
  number reports success and deletes the very file it has just protected.
\<close>

lemma late_version_deletes_itself:
  assumes "command c = CHECKPOINT" and "versioning_process cfg c vm fs = (Ok r, vm', fs')"
    and "cfg_storage cfg = None \<or> max_versions vm \<le> 0" and "0 < scratch_versions vm"
    and "cfg_get cfg ''scratch'' = Inr scratch" and "wf_command c" and "sys_opendir fs scratch" and "fs_wf fs"
    and "scratch_versions vm \<le> int (length (hist_of (scratch_history vm) c))"
    and "\<forall>v \<in> set (hist_of (scratch_history vm) c). version c < v"
    and "node_at fs (filename c scratch) = Some (Reg bs)" and "\<not> deny_write fs (filename c scratch)"
  shows "r = VELOC_SUCCESS \<and> node_at fs' (filename c scratch) = None"
proof -
  define sh where "sh = insort_insert (version c) (hist_of (scratch_history vm) c)"
  define n where "n = length sh - nat (scratch_versions vm)"
  have "validate_name (cname c)"
    using assms(6) by (simp add: wf_command_def)
  note eff = prune_scratch_effect [OF checkpoint_prunes [OF assms(1-5), THEN conjunct2] this assms(7,8),
      folded sh_def, folded n_def]
  have sh: "sh = version c # hist_of (scratch_history vm) c"
    using assms(10) by (cases "hist_of (scratch_history vm) c") (auto simp: sh_def insort_insert_key_def)
  then have "0 < n"
    using assms(9) by (simp add: n_def)
  then have "version c \<in> set (take n sh)"
    unfolding sh by (cases n) auto
  then show ?thesis
    using eff assms(11,12) own_version_file [OF assms(6), of scratch] checkpoint_prunes [OF assms(1-5)] by auto
qed

section \<open>The histories stay ascending\<close>

text \<open>
  What \<^verbatim>\<open>set_union\<close> and the deletion from the front rely on: every history is ascending and
  free of repetitions. The storage module may only insert into the set it is given.
\<close>

definition vs_inv :: "versioning_module \<Rightarrow> bool" where
  "vs_inv vm \<longleftrightarrow> list_all wf_hist (map snd (persistent_history vm)) \<and> list_all wf_hist (map snd (scratch_history vm))"

lemma wf_hist_of: "list_all wf_hist (map snd h) \<Longrightarrow> wf_hist (hist_of h c)"
  by (auto simp: hist_of_def list_all_iff split: option.splits dest!: map_of_SomeD)

lemma wf_hist_update: "list_all wf_hist (map snd h) \<Longrightarrow> wf_hist s \<Longrightarrow> list_all wf_hist (map snd (AList.update k s h))"
  by (induction h) auto

lemma scratch_set_wf: "wf_hist (snd (scratch_version_set fs p nm i []))"
  by (simp add: scratch_version_set_def scan_wf_hist)

lemma test_keeps_inv:
  assumes "wf_hist (snd (case cfg_storage cfg of None \<Rightarrow> (Inr (), []) | Some sm \<Rightarrow> sm_get_versions sm c fs []))" and "vs_inv vm"
  shows "vs_inv (snd (versioning_test cfg c vm fs))"
proof -
  obtain x ph where ph: "(case cfg_storage cfg of None \<Rightarrow> (Inr (), []) | Some sm \<Rightarrow> sm_get_versions sm c fs []) = (x, ph)"
    by fastforce
  then have "wf_hist ph"
    using assms(1) by simp
  moreover obtain y sh where sh: "scratch_version_set fs (projr (cfg_get cfg ''scratch'')) (cname c) (unique_id c) [] = (y, sh)"
    by fastforce
  moreover from sh have "wf_hist sh"
    using scratch_set_wf [of fs "projr (cfg_get cfg ''scratch'')" "cname c" "unique_id c"] by simp
  ultimately show ?thesis
    using assms(2)
    by (cases x; cases y; cases "cfg_get cfg ''scratch''") (simp_all add: versioning_test_def ph vs_inv_def wf_hist_update)
qed

lemma prune_scratch_keeps: "wf_hist sh \<Longrightarrow> wf_hist (fst (snd (prune_scratch dir m c sh fs)))"
proof (induction sh arbitrary: fs)
  case (Cons v sh)
  then have "wf_hist sh"
    using wf_hist_drop [of "v # sh" 1] by simp
  then show ?case
    using Cons by (simp split: prod.split sum.split)
qed simp

lemma checkpoint_keeps_inv:
  assumes "vs_inv vm"
  shows "vs_inv (fst (snd (versioning_checkpoint cfg c vm fs)))"
proof -
  define vf where "vf = (case cfg_storage cfg of
           None \<Rightarrow> (vm, fs)
         | Some sm \<Rightarrow>
             if max_versions vm > 0 then
               (case prune_persistent sm (vs_meta vm) (nat (max_versions vm)) c
                       (insort_insert (version c) (hist_of (persistent_history vm) c)) fs of
                  (ph, fs') \<Rightarrow> (set_ph c ph vm, fs'))
             else (vm, fs))"
  have inv: "vs_inv (fst vf)"
    using assms
    by (auto simp: vf_def prune_persistent_fold vs_inv_def wf_hist_of intro!: wf_hist_update wf_hist_drop wf_hist_insert
        split: option.split)
  obtain x sh fs2 where p: "prune_scratch (projr (cfg_get cfg ''scratch'')) (nat (scratch_versions vm)) c
      (insort_insert (version c) (hist_of (scratch_history vm) c)) (snd vf) = (x, sh, fs2)"
    using prod_cases3 by blast
  have "wf_hist sh"
    using prune_scratch_keeps [of "insort_insert (version c) (hist_of (scratch_history vm) c)"
        "projr (cfg_get cfg ''scratch'')" "nat (scratch_versions vm)" c "snd vf"] assms
    by (simp add: p vs_inv_def wf_hist_of wf_hist_insert)
  then show ?thesis
    using inv p unfolding versioning_checkpoint_def vf_def [symmetric] Let_def
    by (cases vf; cases x; cases "cfg_get cfg ''scratch''") (auto simp: vs_inv_def wf_hist_update)
qed

lemma restart_keeps_inv: "vs_inv vm \<Longrightarrow> vs_inv (snd (versioning_restart cfg c vm fs))"
  by (auto simp: versioning_restart_def Let_def vs_inv_def wf_hist_of wf_hist_insert intro!: wf_hist_update
      split: option.split sum.split)

locale version_store =
  fixes sm :: "'x storage_module"
  assumes inserts_only: "wf_hist r \<Longrightarrow> wf_hist (snd (sm_get_versions sm c fs r))"
begin

lemma test_keeps:
  "cfg_storage cfg = Some sm \<Longrightarrow> vs_inv vm \<Longrightarrow> vs_inv (snd (versioning_test cfg c vm fs))"
  using inserts_only [of "[]" c fs] by (intro test_keeps_inv) simp_all

lemma process_keeps:
  "cfg_storage cfg = Some sm \<Longrightarrow> vs_inv vm \<Longrightarrow> vs_inv (fst (snd (versioning_process cfg c vm fs)))"
  using test_keeps [of cfg vm c fs] checkpoint_keeps_inv [of vm cfg c fs] restart_keeps_inv [of vm cfg c fs]
  by (simp add: versioning_process_def case_prod_unfold split: cmd_kind.split)

end

interpretation posix_vs: version_store "posix_module scratch persistent" for scratch persistent
  by unfold_locales (simp add: posix_module_def posix_get_versions_def scan_wf_hist)

interpretation agg_vs: version_store "posix_agg_module scratch persistent meta" for scratch persistent meta
  by unfold_locales (simp add: posix_agg_module_def agg_get_versions_def scan_wf_hist)



end
