(* ===== verification/Client_Aggregator.thy ===== *)
theory Client_Aggregator
  imports Config
begin

text \<open>
  \<^verbatim>\<open>client_aggregator_t\<close> of \<^verbatim>\<open>src/src/modules/client_aggregator.cpp\<close>: it collects one command of
  every client of a node and hands the group to a collective function. A thread that brings a
  command which does not complete the group waits on a condition variable. The part of
  \<^verbatim>\<open>process_command\<close> up to the wait is one function, since it runs under the lock; a wake-up is
  another. The collective and the single function are arguments; \<open>'s\<close> is the state they share.
\<close>

section \<open>The module\<close>

record aggregator =
  agg_cmds :: "cmd_kind \<Rightarrow> command_t list"
  client_set :: "int list"
  agg_res :: "cmd_kind \<Rightarrow> int"
  max_parallelism :: int

definition new_aggregator :: "int \<Rightarrow> 'x config \<Rightarrow> aggregator" where
  "new_aggregator hardware_concurrency cfg =
     \<lparr>agg_cmds = (\<lambda>_. []), client_set = [], agg_res = (\<lambda>_. 0),
      max_parallelism = (case get_optional_uint cfg ''max_parallelism'' of None \<Rightarrow> hardware_concurrency | Some n \<Rightarrow> n)\<rparr>"

text \<open>\<open>None\<close>: the thread waits.\<close>

definition agg_arrive ::
    "(command_t list \<Rightarrow> 's \<Rightarrow> int outcome \<times> 's) \<Rightarrow> (command_t \<Rightarrow> 's \<Rightarrow> int outcome \<times> 's) \<Rightarrow> command_t \<Rightarrow>
     aggregator \<Rightarrow> 's \<Rightarrow> int outcome option \<times> aggregator \<times> 's" where
  "agg_arrive agg_function single_function c ag s =
     (case command c of
        INIT \<Rightarrow>
          (let ag' = ag\<lparr>client_set := insort_insert (unique_id c) (client_set ag)\<rparr>
           in case single_function c s of (r, s') \<Rightarrow> (Some r, ag', s'))
      | TEST \<Rightarrow> (case single_function c s of (r, s') \<Rightarrow> (Some r, ag, s'))
      | STATUS \<Rightarrow> (Some (Ok VELOC_IGNORED), ag, s)
      | k \<Rightarrow>
          if max_parallelism ag < int (length (client_set ag)) then (Some (Ok VELOC_IGNORED), ag, s)
          else
            let group = agg_cmds ag k @ [c]
            in if length group = length (client_set ag) then
                 (case agg_function group s of
                    (Ok r, s') \<Rightarrow>
                      (Some (Ok r), ag\<lparr>agg_res := (agg_res ag)(k := r), agg_cmds := (agg_cmds ag)(k := [])\<rparr>, s')
                  | (x, s') \<Rightarrow> (Some x, ag\<lparr>agg_cmds := (agg_cmds ag)(k := group)\<rparr>, s'))
               else (None, ag\<lparr>agg_cmds := (agg_cmds ag)(k := group)\<rparr>, s))"

text \<open>A waiting thread looks again: \<open>None\<close>, and it goes on waiting.\<close>

definition agg_wake :: "cmd_kind \<Rightarrow> aggregator \<Rightarrow> int option" where
  "agg_wake k ag = (if agg_cmds ag k \<noteq> [] then None else Some (agg_res ag k))"

section \<open>Threads\<close>

text \<open>
  The threads of a node with the clients \<open>client_set\<close>: a client sends its next command only
  after the previous one was answered. \<open>groups\<close> logs the groups handed to the collective
  function, \<open>answers\<close> what the clients got.
\<close>

record 's node_state =
  ag_of :: aggregator
  shared :: 's
  waiting :: "command_t list"
  groups :: "command_t list list"
  answers :: "(command_t \<times> int) list"

definition grouped :: "command_t \<Rightarrow> bool" where
  "grouped c \<longleftrightarrow> command c = CHECKPOINT \<or> command c = RESTART"

inductive agg_step ::
    "(command_t list \<Rightarrow> 's \<Rightarrow> int outcome \<times> 's) \<Rightarrow> 's node_state \<Rightarrow> 's node_state \<Rightarrow> bool" for f where
  wait: "grouped c \<Longrightarrow> unique_id c \<in> set (client_set (ag_of n)) \<Longrightarrow> unique_id c \<notin> unique_id ` set (waiting n) \<Longrightarrow>
    agg_arrive f g c (ag_of n) (shared n) = (None, ag, s) \<Longrightarrow>
    agg_step f n (n\<lparr>ag_of := ag, shared := s, waiting := waiting n @ [c]\<rparr>)"
| complete: "grouped c \<Longrightarrow> unique_id c \<in> set (client_set (ag_of n)) \<Longrightarrow> unique_id c \<notin> unique_id ` set (waiting n) \<Longrightarrow>
    int (length (client_set (ag_of n))) \<le> max_parallelism (ag_of n) \<Longrightarrow>
    agg_arrive f g c (ag_of n) (shared n) = (Some (Ok r), ag, s) \<Longrightarrow>
    agg_step f n (n\<lparr>ag_of := ag, shared := s, groups := groups n @ [agg_cmds (ag_of n) (command c) @ [c]],
      answers := answers n @ [(c, r)]\<rparr>)"
| refuse: "grouped c \<Longrightarrow> max_parallelism (ag_of n) < int (length (client_set (ag_of n))) \<Longrightarrow>
    agg_arrive f g c (ag_of n) (shared n) = (Some (Ok r), ag, s) \<Longrightarrow>
    agg_step f n (n\<lparr>ag_of := ag, shared := s, answers := answers n @ [(c, r)]\<rparr>)"
| wake: "c \<in> set (waiting n) \<Longrightarrow> agg_wake (command c) (ag_of n) = Some r \<Longrightarrow>
    agg_step f n (n\<lparr>waiting := filter (\<lambda>d. unique_id d \<noteq> unique_id c) (waiting n), answers := answers n @ [(c, r)]\<rparr>)"

inductive_cases agg_stepE: "agg_step f n n'"

inductive agg_reach :: "(command_t list \<Rightarrow> 's \<Rightarrow> int outcome \<times> 's) \<Rightarrow> 's node_state \<Rightarrow> 's node_state \<Rightarrow> bool" for f where
  start: "agg_reach f n n"
| then_step: "agg_reach f n n' \<Longrightarrow> agg_step f n' n'' \<Longrightarrow> agg_reach f n n''"

definition node_start :: "int list \<Rightarrow> int \<Rightarrow> 's \<Rightarrow> 's node_state" where
  "node_start ids par s =
     \<lparr>ag_of = \<lparr>agg_cmds = (\<lambda>_. []), client_set = ids, agg_res = (\<lambda>_. 0), max_parallelism = par\<rparr>,
      shared = s, waiting = [], groups = [], answers = []\<rparr>"

section \<open>Groups are complete\<close>

text \<open>The collected commands of each kind come from different clients, all of them waiting.\<close>

definition node_inv :: "int list \<Rightarrow> 's node_state \<Rightarrow> bool" where
  "node_inv ids n \<longleftrightarrow> client_set (ag_of n) = ids \<and>
     (\<forall>k. distinct (map unique_id (agg_cmds (ag_of n) k)) \<and> set (agg_cmds (ag_of n) k) \<subseteq> set (waiting n) \<and>
          (\<forall>d \<in> set (agg_cmds (ag_of n) k). command d = k)) \<and>
     unique_id ` set (waiting n) \<subseteq> set ids \<and> distinct (map unique_id (waiting n)) \<and>
     (\<forall>g \<in> set (groups n). distinct (map unique_id g) \<and> unique_id ` set g = set ids)"

lemma arrive_waits:
  assumes "grouped c" and "agg_arrive f g c ag s = (None, ag', s')"
  shows "ag' = ag\<lparr>agg_cmds := (agg_cmds ag)(command c := agg_cmds ag (command c) @ [c])\<rparr> \<and> s' = s"
  using assms
  by (auto simp: agg_arrive_def grouped_def Let_def split: cmd_kind.splits if_splits prod.splits outcome.splits)

lemma arrive_completes:
  assumes "grouped c" and "agg_arrive f g c ag s = (Some (Ok r), ag', s')"
    and "int (length (client_set ag)) \<le> max_parallelism ag"
  shows "f (agg_cmds ag (command c) @ [c]) s = (Ok r, s') \<and>
    length (agg_cmds ag (command c) @ [c]) = length (client_set ag) \<and>
    ag' = ag\<lparr>agg_res := (agg_res ag)(command c := r), agg_cmds := (agg_cmds ag)(command c := [])\<rparr>"
  using assms
  by (auto simp: agg_arrive_def grouped_def Let_def split: cmd_kind.splits if_splits prod.splits outcome.splits)

lemma arrive_refuses:
  assumes "grouped c" and "agg_arrive f g c ag s = (Some (Ok r), ag', s')"
    and "max_parallelism ag < int (length (client_set ag))"
  shows "r = VELOC_IGNORED \<and> ag' = ag \<and> s' = s"
  using assms by (auto simp: agg_arrive_def grouped_def split: cmd_kind.splits)

lemma full_group:
  assumes "distinct (map unique_id g)" and "unique_id ` set g \<subseteq> set ids" and "length g = length ids" and "distinct ids"
  shows "unique_id ` set g = set ids"
proof (rule card_subset_eq)
  have "card (unique_id ` set g) = length g"
    using assms(1) by (metis distinct_card length_map set_map)
  then show "card (unique_id ` set g) = card (set ids)"
    using assms(3,4) by (simp add: distinct_card)
qed (use assms(2) in simp_all)

lemma node_inv_step:
  assumes "agg_step f n n'" and "node_inv ids n" and "distinct ids"
  shows "node_inv ids n'"
  using assms(1)
proof cases
  case (wait c g ag s)
  then show ?thesis
    using assms(2) arrive_waits [OF wait(2,5)] by (auto simp: node_inv_def)
next
  case (complete c g r ag s)
  let ?g = "agg_cmds (ag_of n) (command c) @ [c]"
  have inv: "distinct (map unique_id (agg_cmds (ag_of n) (command c)))"
      "set (agg_cmds (ag_of n) (command c)) \<subseteq> set (waiting n)" "unique_id ` set (waiting n) \<subseteq> set ids"
    using assms(2) by (auto simp: node_inv_def)
  have "distinct (map unique_id ?g)"
    using inv complete(4) by auto
  moreover have "unique_id ` set ?g = set ids"
    using inv complete(3) assms(2) arrive_completes [OF complete(2,6,5)]
    by (intro full_group [OF \<open>distinct (map unique_id ?g)\<close> _ _ assms(3)]) (auto simp: node_inv_def)
  ultimately show ?thesis
    using assms(2) arrive_completes [OF complete(2,6,5)] complete(1) by (auto simp: node_inv_def)
next
  case (refuse c g r ag s)
  then show ?thesis
    using assms(2) arrive_refuses [OF refuse(2,4,3)] by (simp add: node_inv_def)
next
  case (wake c r)
  have inv: "\<forall>k. set (agg_cmds (ag_of n) k) \<subseteq> set (waiting n) \<and> (\<forall>d \<in> set (agg_cmds (ag_of n) k). command d = k)"
      "distinct (map unique_id (waiting n))"
    using assms(2) by (auto simp: node_inv_def)
  have "unique_id d \<noteq> unique_id c" if "d \<in> set (agg_cmds (ag_of n) k)" for d k
  proof -
    have "command c \<noteq> k"
      using wake(3) that by (auto simp: agg_wake_def split: if_splits)
    then have "d \<noteq> c" "d \<in> set (waiting n)"
      using inv(1) that by auto
    then show ?thesis
      using inv(2) wake(2) by (auto simp: distinct_map dest: inj_onD)
  qed
  then show ?thesis
    using assms(2) wake(1) by (auto simp: node_inv_def distinct_map_filter)
qed

lemma node_inv_reach:
  "agg_reach f m n \<Longrightarrow> node_inv ids m \<Longrightarrow> distinct ids \<Longrightarrow> node_inv ids n"
  by (induction rule: agg_reach.induct) (auto intro: node_inv_step)

lemma node_inv_start: "node_inv ids (node_start ids par s)"
  by (simp add: node_inv_def node_start_def)

section \<open>Properties\<close>


text \<open>Two clients of a node: the first waits, the second completes the group and sends its next command.\<close>

definition cmd_of :: "int \<Rightarrow> int \<Rightarrow> command_t" where
  "cmd_of i v = \<lparr>unique_id = i, command = CHECKPOINT, version = v, offset = 0, cname = ''a'', original = ''''\<rparr>"

abbreviation always :: "int \<Rightarrow> command_t list \<Rightarrow> 's \<Rightarrow> int outcome \<times> 's" where
  "always r \<equiv> (\<lambda>_ s. (Ok r, s))"

definition first_round :: "int \<Rightarrow> 's \<Rightarrow> 's node_state" where
  "first_round r s =
     \<lparr>ag_of = \<lparr>agg_cmds = (\<lambda>_. []), client_set = [1, 2], agg_res = (\<lambda>_. 0)(CHECKPOINT := r), max_parallelism = 8\<rparr>,
      shared = s, waiting = [cmd_of 1 1], groups = [[cmd_of 1 1, cmd_of 2 1]], answers = [(cmd_of 2 1, r)]\<rparr>"

lemma first_round_reachable: "agg_reach (always r) (node_start [1, 2] 8 s) (first_round r s)"
proof -
  let ?n1 = "(node_start [1, 2] 8 s)\<lparr>ag_of := (ag_of (node_start [1, 2] 8 s))\<lparr>agg_cmds := (\<lambda>_. [])(CHECKPOINT := [cmd_of 1 1])\<rparr>,
      shared := s, waiting := [cmd_of 1 1]\<rparr>"
  have "agg_step (always r) (node_start [1, 2] 8 s) ?n1"
    using agg_step.wait [of "cmd_of 1 1" "node_start [1, 2] 8 s" "always r" "\<lambda>_ s. (Ok 0, s)"]
    by (simp add: grouped_def cmd_of_def node_start_def agg_arrive_def)
  moreover have "agg_step (always r) ?n1 (first_round r s)"
    using agg_step.complete [of "cmd_of 2 1" ?n1 "always r" "\<lambda>_ s. (Ok 0, s)"]
    by (simp add: grouped_def cmd_of_def node_start_def agg_arrive_def first_round_def fun_upd_idem [of "\<lambda>_. []"])
  ultimately show ?thesis
    by (blast intro: start then_step)
qed


text \<open>
  C25: a waiting thread decides by the group being empty whether its own group is done. When the
  client that completed a group sends its next command before the waiting thread has looked,
  the group is not empty any more: a state is reachable in which all clients wait, the answer
  of the finished round was never delivered, and no step is possible.
\<close>

theorem aggregator_can_deadlock:
  "\<exists>n. agg_reach (always r) (node_start [1, 2] 8 s) n \<and> unique_id ` set (waiting n) = {1, 2} \<and>
     groups n = [[cmd_of 1 1, cmd_of 2 1]] \<and> Collect (agg_step (always r) n) = {}"
proof -
  let ?n = "(first_round r s)\<lparr>ag_of := (ag_of (first_round r s))\<lparr>agg_cmds := (\<lambda>_. [])(CHECKPOINT := [cmd_of 2 2])\<rparr>,
      shared := s, waiting := [cmd_of 1 1, cmd_of 2 2]\<rparr>"
  have "agg_step (always r) (first_round r s) ?n"
    using agg_step.wait [of "cmd_of 2 2" "first_round r s" "always r" "\<lambda>_ s. (Ok 0, s)"]
    by (simp add: grouped_def cmd_of_def first_round_def agg_arrive_def)
  then have "agg_reach (always r) (node_start [1, 2] 8 s) ?n"
    by (rule then_step [OF first_round_reachable])
  moreover have "\<not> agg_step (always r) ?n m" for m
    by (auto simp: first_round_def agg_wake_def cmd_of_def elim!: agg_stepE)
  ultimately show ?thesis
    by (intro exI [of _ ?n]) (auto simp: first_round_def cmd_of_def)
qed

end
