(* ===== verification/Ec_Module.thy ===== *)
theory Ec_Module
  imports Watchdog Client_Aggregator
begin

text \<open>
  \<^verbatim>\<open>ec_module_t\<close> of \<^verbatim>\<open>src/src/modules/ec_module.cpp\<close>: redundancy across nodes through the ER
  library. The calls of the library are the fields of \<open>er_lib\<close>, an argument; its own state may
  live in the extension of the file system record. \<^verbatim>\<open>MPI_Allreduce\<close> with \<^verbatim>\<open>MPI_LAND\<close> is the argument
  \<open>allreduce_land\<close>: this rank's flag goes in, the conjunction over all ranks comes out.
\<close>

section \<open>The module\<close>

datatype er_direction = ER_DIRECTION_ENCODE | ER_DIRECTION_REBUILD

record 'x er_lib =
  er_init :: "string \<Rightarrow> int"
  er_create_scheme :: "string \<Rightarrow> int \<Rightarrow> int \<Rightarrow> int"
  er_create :: "string \<Rightarrow> er_direction \<Rightarrow> int \<Rightarrow> 'x fsys_scheme \<Rightarrow> int \<times> 'x fsys_scheme"
  er_add :: "int \<Rightarrow> string \<Rightarrow> 'x fsys_scheme \<Rightarrow> 'x fsys_scheme"
  er_dispatch :: "int \<Rightarrow> 'x fsys_scheme \<Rightarrow> 'x fsys_scheme"
  er_wait :: "int \<Rightarrow> 'x fsys_scheme \<Rightarrow> int \<times> 'x fsys_scheme"
  er_free :: "int \<Rightarrow> 'x fsys_scheme \<Rightarrow> 'x fsys_scheme"

abbreviation ER_SUCCESS :: int where "ER_SUCCESS \<equiv> 0"

record ec_module =
  ec_interval :: int
  scheme_id :: int
  ec_timestamp :: int

definition new_ec_module :: "'x er_lib \<Rightarrow> 'x config \<Rightarrow> int \<Rightarrow> int \<Rightarrow> ec_module res" where
  "new_ec_module er cfg rank ranks =
     (let i0 = (case get_optional_int cfg ''ec_interval'' of None \<Rightarrow> 0 | Some i \<Rightarrow> i);
          interval = (if ranks < 2 then - 1 else i0)
      in if interval < 0 then Inr \<lparr>ec_interval = interval, scheme_id = 0, ec_timestamp = 0\<rparr>
         else if er_init er (cfg_file cfg) \<noteq> ER_SUCCESS then Inl Fatal
         else let sid = er_create_scheme er (to_string rank) ranks 1
              in if sid < 0 then Inl Fatal
                 else Inr \<lparr>ec_interval = interval, scheme_id = sid, ec_timestamp = 0\<rparr>)"

definition ec_process_command :: "int \<Rightarrow> command_t \<Rightarrow> ec_module \<Rightarrow> int \<times> ec_module" where
  "ec_process_command now c m =
     (if ec_interval m < 0 then (VELOC_IGNORED, m)
      else (case command c of
              INIT \<Rightarrow> (VELOC_SUCCESS, m\<lparr>ec_timestamp := now + seconds (ec_interval m)\<rparr>)
            | _ \<Rightarrow> (VELOC_IGNORED, m)))"

definition ec_protect ::
    "'x er_lib \<Rightarrow> string \<Rightarrow> string \<Rightarrow> command_t list \<Rightarrow> int \<Rightarrow> 'x fsys_scheme \<Rightarrow> int \<times> 'x fsys_scheme" where
  "ec_protect er scratch nm cmds sid fs =
     (case er_create er nm ER_DIRECTION_ENCODE sid fs of
        (set_id, fs1) \<Rightarrow>
          if set_id = - 1 then (VELOC_FAILURE, fs1)
          else
            let fs2 = fold (\<lambda>c. er_add er set_id (filename c scratch)) cmds fs1;
                fs3 = er_dispatch er set_id fs2
            in (case er_wait er set_id fs3 of
                  (ret, fs4) \<Rightarrow>
                    (if ret = ER_SUCCESS then VELOC_SUCCESS else VELOC_FAILURE, er_free er set_id fs4)))"

definition ec_rebuild :: "'x er_lib \<Rightarrow> string \<Rightarrow> 'x fsys_scheme \<Rightarrow> int \<times> 'x fsys_scheme" where
  "ec_rebuild er nm fs =
     (case er_create er nm ER_DIRECTION_REBUILD 0 fs of
        (set_id, fs1) \<Rightarrow>
          if set_id = - 1 then (VELOC_FAILURE, fs1)
          else (case er_wait er set_id (er_dispatch er set_id fs1) of
                  (ret, fs2) \<Rightarrow>
                    (if ret = ER_SUCCESS then VELOC_SUCCESS else VELOC_IGNORED, er_free er set_id fs2)))"

definition ec_process_commands ::
    "'x er_lib \<Rightarrow> (bool \<Rightarrow> bool) \<Rightarrow> 'x config \<Rightarrow> int \<Rightarrow> command_t list \<Rightarrow> ec_module \<Rightarrow> 'x fsys_scheme \<Rightarrow>
     int outcome \<times> ec_module \<times> 'x fsys_scheme" where
  "ec_process_commands er allreduce_land cfg now cmds m fs =
     (if cmds = [] \<or> ec_interval m < 0 then (Ok VELOC_IGNORED, m, fs)
      else (case cfg_get cfg ''scratch'' of
          Inl e \<Rightarrow> (Throws e, m, fs)
        | Inr scratch \<Rightarrow>
            let c0 = hd cmds;
                nm = scratch @ ''/'' @ cname c0 @ ''-ec-'' @ to_string (version c0)
            in (case command c0 of
                  CHECKPOINT \<Rightarrow>
                    if ec_interval m > 0 \<and> \<not> allreduce_land (\<not> now < ec_timestamp m)
                    then (Ok VELOC_SUCCESS, m, fs)
                    else
                      let m' = (if ec_interval m > 0 then m\<lparr>ec_timestamp := now + seconds (ec_interval m)\<rparr> else m)
                      in (case ec_protect er scratch nm cmds (scheme_id m) fs of (r, fs') \<Rightarrow> (Ok r, m', fs'))
                | RESTART \<Rightarrow>
                    if allreduce_land (list_all (\<lambda>c. sys_access fs (filename c scratch)) cmds)
                    then (Ok VELOC_SUCCESS, m, fs)
                    else (case ec_rebuild er nm fs of (r, fs') \<Rightarrow> (Ok r, m, fs'))
                | _ \<Rightarrow> (Ok VELOC_IGNORED, m, fs))))"

section \<open>Properties\<close>

text \<open>One rank of the job as the collective call sees it: its commands, its module and its files.\<close>

type_synonym 'x ec_rank = "command_t list \<times> ec_module \<times> 'x fsys_scheme"

fun local_alive :: "string \<Rightarrow> 'x ec_rank \<Rightarrow> bool" where
  "local_alive scratch (cmds, m, fs) = list_all (\<lambda>c. sys_access fs (filename c scratch)) cmds"

fun is_restart :: "'x ec_rank \<Rightarrow> bool" where
  "is_restart (cmds, m, fs) \<longleftrightarrow> cmds \<noteq> [] \<and> command (hd cmds) = RESTART \<and> 0 \<le> ec_interval m"


definition sample_er :: "unit er_lib" where
  "sample_er = \<lparr>er_init = (\<lambda>_. 0), er_create_scheme = (\<lambda>_ _ _. 1), er_create = (\<lambda>_ _ _ fs. (5, fs)),
     er_add = (\<lambda>_ _ fs. fs), er_dispatch = (\<lambda>_ fs. set_node ''/s/heat.2d-3-12.dat'' (Reg [4, 5, 6]) fs),
     er_wait = (\<lambda>_ fs. (0, fs)), er_free = (\<lambda>_ fs. fs)\<rparr>"

definition sample_ec_cfg :: "unit config" where
  "sample_ec_cfg = \<lparr>cfg_file = '''', cfg_env = sample_env, cfg_reader = None, cfg_sync = False, cfg_storage = None\<rparr>"


end
