(* ===== verification/Module_Manager.thy ===== *)
theory Module_Manager
  imports Versioning_Module Ec_Module
begin

text \<open>
  \<^verbatim>\<open>module_manager_t\<close> of \<^verbatim>\<open>src/src/modules/module_manager.cpp\<close>: the chain of modules a command goes
  through, in the client (synchronous mode) or in the backend. A module is a function of the
  command and of the state of all modules and files. What the process asks its surroundings for
  (the clock, the MPI reduction, the ER library, the hash) is the record \<open>mod_env\<close>.
\<close>

section \<open>The chain\<close>

type_synonym 's method_t = "command_t \<Rightarrow> 's \<Rightarrow> int outcome \<times> 's"

fun notify_loop :: "int \<Rightarrow> 's method_t list \<Rightarrow> command_t \<Rightarrow> 's \<Rightarrow> int outcome \<times> 's" where
  "notify_loop ret [] c s = (Ok ret, s)"
| "notify_loop ret (f # fs) c s =
     (case f c s of
        (Ok mod_ret, s') \<Rightarrow>
          if mod_ret = VELOC_FAILURE then (Ok VELOC_FAILURE, s')
          else notify_loop (max ret mod_ret) fs c s'
      | (x, s') \<Rightarrow> (x, s'))"

definition notify_command :: "'s method_t list \<Rightarrow> command_t \<Rightarrow> 's \<Rightarrow> int outcome \<times> 's" where
  "notify_command modules c s = notify_loop VELOC_IGNORED modules c s"

section \<open>The default modules\<close>

record 'x mod_env =
  env_now :: int
  env_land :: "bool \<Rightarrow> bool"
  env_er :: "'x er_lib"
  env_sha256 :: "byte list \<Rightarrow> byte list"

record 'x modules =
  md_watchdog :: watchdog
  md_ec :: "(aggregator \<times> ec_module) option"
  md_transfer :: transfer_module
  md_chksum :: bool
  md_versioning :: versioning_module
  md_fs :: "'x fsys_scheme"

definition watchdog_method :: "'x mod_env \<Rightarrow> 'x modules method_t" where
  "watchdog_method env c s =
     (case watchdog_process (env_now env) c (md_watchdog s) of (r, w) \<Rightarrow> (Ok r, s\<lparr>md_watchdog := w\<rparr>))"

text \<open>A thread that has to wait for the commands of other clients does not come back by itself.\<close>

definition ec_method :: "'x mod_env \<Rightarrow> 'x config \<Rightarrow> 'x modules method_t" where
  "ec_method env cfg c s =
     (case md_ec s of
        None \<Rightarrow> (Throws Undefined, s)
      | Some (ag, ec) \<Rightarrow>
          (case agg_arrive
                  (\<lambda>cmds (ec, fs). case ec_process_commands (env_er env) (env_land env) cfg (env_now env) cmds ec fs of
                                     (r, ec', fs') \<Rightarrow> (r, ec', fs'))
                  (\<lambda>c (ec, fs). case ec_process_command (env_now env) c ec of (r, ec') \<Rightarrow> (Ok r, ec', fs))
                  c ag (ec, md_fs s) of
             (r, ag', ec', fs') \<Rightarrow>
               (case r of None \<Rightarrow> Diverges | Some x \<Rightarrow> x, s\<lparr>md_ec := Some (ag', ec'), md_fs := fs'\<rparr>)))"

definition transfer_method :: "'x mod_env \<Rightarrow> 'x config \<Rightarrow> 'x modules method_t" where
  "transfer_method env cfg c s =
     (case transfer_process cfg (env_now env) c (md_transfer s) (md_fs s) of
        (r, m, fs') \<Rightarrow> (r, s\<lparr>md_transfer := m, md_fs := fs'\<rparr>))"

definition chksum_method :: "'x mod_env \<Rightarrow> 'x config \<Rightarrow> 'x modules method_t" where
  "chksum_method env cfg c s =
     (case chksum_process (env_sha256 env) cfg c (md_chksum s) (md_fs s) of
        (r, fs') \<Rightarrow> (r, s\<lparr>md_fs := fs'\<rparr>))"

definition versioning_method :: "'x config \<Rightarrow> 'x modules method_t" where
  "versioning_method cfg c s =
     (case versioning_process cfg c (md_versioning s) (md_fs s) of
        (r, vm, fs') \<Rightarrow> (r, s\<lparr>md_versioning := vm, md_fs := fs'\<rparr>))"

text \<open>
  \<^verbatim>\<open>add_default\<close>: the methods in the order they are added, and the state their constructors
  leave. The redundancy modules are there only when a communicator is given; \<open>comm\<close> is its rank
  and size.
\<close>

definition default_methods :: "'x mod_env \<Rightarrow> 'x config \<Rightarrow> (int \<times> int) option \<Rightarrow> 'x modules method_t list" where
  "default_methods env cfg comm =
     [watchdog_method env] @ (if comm = None then [] else [ec_method env cfg]) @
     [transfer_method env cfg, chksum_method env cfg, versioning_method cfg]"

definition add_default ::
    "'x mod_env \<Rightarrow> int \<Rightarrow> 'x config \<Rightarrow> (int \<times> int) option \<Rightarrow> 'x fsys_scheme \<Rightarrow> 'x modules res \<times> 'x fsys_scheme" where
  "add_default env hardware_concurrency cfg comm fs =
     (case (case comm of
              None \<Rightarrow> Inr None
            | Some (rank, ranks) \<Rightarrow>
                map_sum id (\<lambda>ec. Some (new_aggregator hardware_concurrency cfg, ec))
                  (new_ec_module (env_er env) cfg rank ranks)) of
        Inl e \<Rightarrow> (Inl e, fs)
      | Inr ec \<Rightarrow>
          (case new_chksum_module cfg fs of
             (Inl e, fs1) \<Rightarrow> (Inl e, fs1)
           | (Inr active, fs1) \<Rightarrow>
               (case new_versioning_module cfg of
                  Inl e \<Rightarrow> (Inl e, fs1)
                | Inr vm \<Rightarrow>
                    (Inr \<lparr>md_watchdog = new_watchdog cfg, md_ec = ec, md_transfer = new_transfer_module cfg,
                          md_chksum = active, md_versioning = vm, md_fs = fs1\<rparr>, fs1))))"

section \<open>What the chain returns\<close>

text \<open>The run of a chain of modules that all return: their results and the last state.\<close>

inductive runs :: "'s method_t list \<Rightarrow> command_t \<Rightarrow> 's \<Rightarrow> int list \<Rightarrow> 's \<Rightarrow> bool" where
  runs_Nil: "runs [] c s [] s"
| runs_Cons: "f c s = (Ok r, s') \<Longrightarrow> runs fs c s' rs s'' \<Longrightarrow> runs (f # fs) c s (r # rs) s''"

inductive_cases runs_ConsE: "runs (f # fs) c s rs s'"
inductive_cases runs_NilE: "runs [] c s rs s'"

lemma notify_loop_runs:
  "runs ms c s rs s' \<Longrightarrow> VELOC_FAILURE \<notin> set rs \<Longrightarrow> notify_loop ret ms c s = (Ok (fold max rs ret), s')"
  by (induction arbitrary: ret rule: runs.induct) (auto simp: max.commute)

lemma notify_loop_stops:
  "runs ms c s rs s1 \<Longrightarrow> VELOC_FAILURE \<notin> set rs \<Longrightarrow> f c s1 = (Ok VELOC_FAILURE, s2) \<Longrightarrow>
     notify_loop ret (ms @ f # ms') c s = (Ok VELOC_FAILURE, s2)"
  by (induction arbitrary: ret rule: runs.induct) auto

lemma notify_loop_Ok:
  assumes "notify_loop ret ms c s = (Ok v, s')"
  shows "(\<exists>rs. runs ms c s rs s' \<and> VELOC_FAILURE \<notin> set rs \<and> v = fold max rs ret) \<or>
    v = VELOC_FAILURE \<and> (\<exists>ms1 f ms2 rs s1. ms = ms1 @ f # ms2 \<and> runs ms1 c s rs s1 \<and> f c s1 = (Ok VELOC_FAILURE, s'))"
  using assms
proof (induction ms arbitrary: ret s)
  case Nil
  then show ?case by (auto intro: runs_Nil)
next
  case (Cons f ms)
  obtain x s1 where f: "f c s = (x, s1)" by fastforce
  with Cons.prems obtain r where x: "x = Ok r"
    by (cases x) auto
  show ?case
  proof (cases "r = VELOC_FAILURE")
    case True
    then have "v = VELOC_FAILURE" "s' = s1"
      using Cons.prems f x by auto
    with True f x show ?thesis
      using runs_Nil [of c s] by blast
  next
    case False
    then have rest: "notify_loop (max ret r) ms c s1 = (Ok v, s')"
      using Cons.prems f x by simp
    from Cons.IH [OF rest] show ?thesis
    proof
      assume "\<exists>rs. runs ms c s1 rs s' \<and> VELOC_FAILURE \<notin> set rs \<and> v = fold max rs (max ret r)"
      then obtain rs where "runs ms c s1 rs s'" "VELOC_FAILURE \<notin> set rs" "v = fold max rs (max ret r)" by blast
      then have "runs (f # ms) c s (r # rs) s'" "VELOC_FAILURE \<notin> set (r # rs)" "v = fold max (r # rs) ret"
        using f x False by (auto intro: runs_Cons simp: max.commute)
      then show ?thesis by blast
    next
      assume "v = VELOC_FAILURE \<and> (\<exists>ms1 g ms2 rs s2. ms = ms1 @ g # ms2 \<and> runs ms1 c s1 rs s2 \<and> g c s2 = (Ok VELOC_FAILURE, s'))"
      then obtain ms1 g ms2 rs s2 where v: "v = VELOC_FAILURE" "ms = ms1 @ g # ms2" "runs ms1 c s1 rs s2"
          "g c s2 = (Ok VELOC_FAILURE, s')"
        by blast
      then have "f # ms = (f # ms1) @ g # ms2" "runs (f # ms1) c s (r # rs) s2"
        using f x by (auto intro: runs_Cons)
      with v show ?thesis by blast
    qed
  qed
qed

text \<open>
  A command that comes back from the chain either went through all modules, none of which
  failed, and the result is the greatest of their results and \<^verbatim>\<open>VELOC_IGNORED\<close>; or some module
  failed, the modules after it did not see the command, and the result is \<^verbatim>\<open>VELOC_FAILURE\<close>.
\<close>

lemma notify_command_result:
  assumes "notify_command ms c s = (Ok v, s')"
  shows "(\<exists>rs. runs ms c s rs s' \<and> VELOC_FAILURE \<notin> set rs \<and> v = Max (set (VELOC_IGNORED # rs))) \<or>
    v = VELOC_FAILURE \<and> (\<exists>ms1 f ms2 rs s1. ms = ms1 @ f # ms2 \<and> runs ms1 c s rs s1 \<and> f c s1 = (Ok VELOC_FAILURE, s'))"
proof -
  have "fold max rs a = Max (set (a # rs))" for rs and a :: int
    by (metis Max.set_eq_fold)
  with notify_loop_Ok [of VELOC_IGNORED ms c s v s'] assms show ?thesis
    by (simp add: notify_command_def)
qed

section \<open>Checkpoint and restart through the chain\<close>

text \<open>The state of a process whose modules keep every version and whose watchdog lets \<open>c\<close> pass.\<close>

definition keeps_all :: "command_t \<Rightarrow> 'x modules \<Rightarrow> bool" where
  "keeps_all c s \<longleftrightarrow> max_versions (md_versioning s) \<le> 0 \<and> scratch_versions (md_versioning s) \<le> 0 \<and>
     (wd_timeout (md_watchdog s) = 0 \<or> map_of (client_map (md_watchdog s)) (unique_id c) \<noteq> None)"

lemma map_of_assign_self: "map_of (omap_assign k v m) k = Some v"
  by (induction k v m rule: omap_assign.induct) auto

text \<open>The command passes: no failure, and the files, the other modules and \<open>keeps_all\<close> are left as they were.\<close>

definition passes :: "command_t \<Rightarrow> 'x modules method_t \<Rightarrow> 'x modules \<Rightarrow> bool" where
  "passes c f s \<longleftrightarrow> (\<exists>r s'. f c s = (Ok r, s') \<and> (r = VELOC_SUCCESS \<or> r = VELOC_IGNORED) \<and> keeps_all c s' \<and>
     md_fs s' = md_fs s \<and> md_transfer s' = md_transfer s \<and> md_chksum s' = md_chksum s)"

lemma watchdog_passes:
  assumes "keeps_all c s" and "command c = CHECKPOINT \<or> command c = RESTART"
  shows "passes c (watchdog_method env) s"
  using assms unfolding passes_def
  by (cases "command c") (auto simp: watchdog_method_def watchdog_process_def keeps_all_def map_of_assign_self)

lemma versioning_passes:
  assumes "keeps_all c s" and "command c = CHECKPOINT \<or> command c = RESTART" and "cfg_get cfg ''scratch'' = Inr scratch"
  shows "passes c (versioning_method cfg) s"
  using assms unfolding passes_def
  by (cases "command c")
    (auto simp: versioning_method_def versioning_process_def versioning_checkpoint_def versioning_restart_def
      keeps_all_def Let_def split: option.split)

lemma meta_filename_neq: "meta_filename c m \<noteq> filename c d"
proof
  assume eq: "meta_filename c m = filename c d"
  have "last (meta_filename c m) = CHR ''m''"
    by (simp add: meta_filename_def)
  moreover have "last (filename c d) = CHR ''t''"
    by (simp add: filename_def stem_def)
  ultimately show False
    using eq by simp
qed

text \<open>A store in order for the checkpoint \<open>c\<close>: its directories exist and no file is in its way.\<close>

definition prepared :: "string \<Rightarrow> string \<Rightarrow> string \<Rightarrow> command_t \<Rightarrow> byte list \<Rightarrow> 'x fsys_scheme \<Rightarrow> bool" where
  "prepared scratch persistent meta c bs fs \<longleftrightarrow>
     faultless fs \<and> wf_command c \<and> original c = '''' \<and> scratch \<noteq> persistent \<and> bs \<noteq> [] \<and> length bs < 2 ^ 63 \<and>
     is_dir fs scratch \<and> is_dir fs persistent \<and> is_dir fs meta \<and>
     node_at fs (filename c scratch) = Some (Reg bs) \<and>
     node_at fs (filename c persistent) = None \<and> node_at fs (meta_filename c meta) = None"

lemma dirname_files:
  assumes "wf_command c"
  shows "dirname (filename c d) = d" and "dirname (meta_filename c d) = d"
  using stem_no_slash [OF assms] dirname_join [of "stem c" d] dirname_join [of "stem c @ ''.chksum''" d]
  by (simp_all add: filename_def meta_filename_def)

lemma is_dir_set_other: "node_at fs p = None \<Longrightarrow> is_dir fs d \<Longrightarrow> is_dir (set_node p n fs) d"
  by (auto simp: is_dir_def)

lemma write_file_new:
  "faultless fs \<Longrightarrow> node_at fs p = None \<Longrightarrow> p \<noteq> '''' \<Longrightarrow> is_dir fs (dirname p) \<Longrightarrow>
     write_file fs p bs = (True, set_node p (Reg bs) fs)"
  by (simp add: write_file_def open_wr_new pwrite_faultless contents_def)

lemma chksum_checkpoint_new:
  assumes "prepared scratch persistent meta c bs fs" and "command c = CHECKPOINT"
    and "cfg_get cfg ''meta'' = Inr meta" and "cfg_get cfg ''scratch'' = Inr scratch"
  shows "chksum_process sha256 cfg c True (set_node (filename c persistent) (Reg bs) fs) =
    (Ok VELOC_SUCCESS, set_node (meta_filename c meta) (Reg (sha256 bs)) (set_node (filename c persistent) (Reg bs) fs))"
proof -
  let ?fs = "set_node (filename c persistent) (Reg bs) fs"
  have p: "faultless ?fs" "node_at ?fs (filename c scratch) = Some (Reg bs)" "bs \<noteq> []"
      "node_at ?fs (meta_filename c meta) = None" "is_dir ?fs (dirname (meta_filename c meta))"
    using assms(1) by (auto simp: prepared_def meta_filename_neq dirname_files filename_inject intro: is_dir_set_other)
  have "meta_filename c meta \<noteq> ''''"
    by (simp add: meta_filename_def)
  then show ?thesis
    using assms(2-4) chksum_file_faultless [OF p(1-3), of sha256] write_file_new [OF p(1,4) _ p(5), of "sha256 bs"]
    by (simp add: chksum_process_def Let_def)
qed

lemma transfer_checkpoint_new:
  assumes "prepared scratch persistent meta c bs fs" and "command c = CHECKPOINT" and "due now c m"
    and "cfg_get cfg ''scratch'' = Inr scratch" and "cfg_storage cfg = Some (posix_module scratch persistent)"
  shows "\<exists>m'. tr_interval m' = tr_interval m \<and>
    transfer_process cfg now c m fs = (Ok VELOC_SUCCESS, m', set_node (filename c persistent) (Reg bs) fs)"
proof -
  have "posix_transfer_file fs (filename c scratch) (filename c persistent) 0 0 SIZE_MAX =
      Some (True, set_node (filename c persistent) (Reg bs) fs)"
    using assms(1) by (intro transfer_new_whole) (auto simp: prepared_def dirname_files)
  then have "posix_flush scratch persistent c fs = (Ok True, set_node (filename c persistent) (Reg bs) fs)"
    using assms(1) by (simp add: posix_flush_def prepared_def run_transfer_def)
  then show ?thesis
    using assms(2-5) by (auto simp: transfer_process_def posix_module_def due_def Let_def)
qed

lemma transfer_restart_new:
  assumes "faultless fs" and "wf_command c" and "scratch \<noteq> persistent" and "length bs < 2 ^ 63" and "is_dir fs scratch"
    and "node_at fs (filename c scratch) = None" and "node_at fs (filename c persistent) = Some (Reg bs)"
    and "command c = RESTART" and "0 \<le> tr_interval m"
    and "cfg_get cfg ''scratch'' = Inr scratch" and "cfg_storage cfg = Some (posix_module scratch persistent)"
  shows "transfer_process cfg now c m fs = (Ok VELOC_SUCCESS, m, set_node (filename c scratch) (Reg bs) fs)"
proof -
  have t: "posix_transfer_file fs (filename c persistent) (filename c scratch) 0 0 SIZE_MAX =
      Some (True, set_node (filename c scratch) (Reg bs) fs)"
    using assms(1-7) by (intro transfer_new_whole) (auto simp: dirname_files)
  have "real_path fs (filename c scratch) = Some (filename c scratch)"
    using assms(6) by (intro real_path_self) simp
  then have "\<not> sys_access fs (filename c scratch)"
    using assms(6) by (simp add: sys_access_def)
  moreover have "sys_access fs (filename c persistent)"
    using assms(1,7) by (intro access_reg) (auto simp: faultless_def)
  ultimately show ?thesis
    using assms(8-11) t
    by (simp add: transfer_process_def posix_module_def posix_exists_def posix_restore_def run_transfer_def)
qed

lemma notify_four:
  assumes "passes c f1 s" and "\<And>s'. md_fs s' = md_fs s \<Longrightarrow> md_transfer s' = md_transfer s \<Longrightarrow>
      \<exists>m. tr_interval m = tr_interval (md_transfer s) \<and> f2 c s' = (Ok VELOC_SUCCESS, s'\<lparr>md_transfer := m, md_fs := fs1\<rparr>)"
    and "\<And>s'. md_fs s' = fs1 \<Longrightarrow> md_chksum s' = md_chksum s \<Longrightarrow>
      f3 c s' = (Ok (if md_chksum s then VELOC_SUCCESS else VELOC_IGNORED), s'\<lparr>md_fs := fs2\<rparr>)"
    and "\<And>s'. keeps_all c s' \<Longrightarrow> passes c f4 s'"
  shows "\<exists>s'. notify_command [f1, f2, f3, f4] c s = (Ok VELOC_SUCCESS, s') \<and> md_fs s' = fs2 \<and> keeps_all c s' \<and>
    md_chksum s' = md_chksum s \<and> tr_interval (md_transfer s') = tr_interval (md_transfer s)"
proof -
  obtain r1 s1 where s1: "f1 c s = (Ok r1, s1)" "r1 = VELOC_SUCCESS \<or> r1 = VELOC_IGNORED" "keeps_all c s1"
      "md_fs s1 = md_fs s" "md_transfer s1 = md_transfer s" "md_chksum s1 = md_chksum s"
    using assms(1) by (auto simp: passes_def)
  obtain m where m: "tr_interval m = tr_interval (md_transfer s)"
      "f2 c s1 = (Ok VELOC_SUCCESS, s1\<lparr>md_transfer := m, md_fs := fs1\<rparr>)"
    using assms(2) s1 by blast
  let ?s3 = "s1\<lparr>md_transfer := m, md_fs := fs1, md_fs := fs2\<rparr>"
  have f3: "f3 c (s1\<lparr>md_transfer := m, md_fs := fs1\<rparr>) = (Ok (if md_chksum s then VELOC_SUCCESS else VELOC_IGNORED), ?s3)"
    using assms(3) [of "s1\<lparr>md_transfer := m, md_fs := fs1\<rparr>"] s1 by simp
  have "keeps_all c ?s3"
    using s1(3) by (simp add: keeps_all_def)
  from assms(4) [OF this] obtain r4 s4 where s4: "f4 c ?s3 = (Ok r4, s4)" "r4 = VELOC_SUCCESS \<or> r4 = VELOC_IGNORED"
      "keeps_all c s4" "md_fs s4 = fs2" "md_transfer s4 = m" "md_chksum s4 = md_chksum s"
    using s1(6) by (auto simp: passes_def)
  then show ?thesis
    using s1 m f3 by (intro exI [of _ s4]) (auto simp: notify_command_def)
qed

lemma keeps_all_kind [simp]: "keeps_all (c\<lparr>command := k\<rparr>) s = keeps_all c s" "keeps_all c (s\<lparr>md_fs := fs\<rparr>) = keeps_all c s"
  by (simp_all add: keeps_all_def)

lemma chain_checkpoint:
  assumes "prepared scratch persistent meta c bs (md_fs s)" and "command c = CHECKPOINT" and "keeps_all c s"
    and "due (env_now env) c (md_transfer s)" and "cfg_get cfg ''scratch'' = Inr scratch" and "cfg_get cfg ''meta'' = Inr meta"
    and "cfg_storage cfg = Some (posix_module scratch persistent)"
  defines "remote \<equiv> set_node (filename c persistent) (Reg bs) (md_fs s)"
  shows "\<exists>s'. notify_command (default_methods env cfg None) c s = (Ok VELOC_SUCCESS, s') \<and>
    md_fs s' = (if md_chksum s then set_node (meta_filename c meta) (Reg (env_sha256 env bs)) remote else remote) \<and>
    keeps_all c s' \<and> md_chksum s' = md_chksum s \<and> tr_interval (md_transfer s') = tr_interval (md_transfer s)"
  unfolding default_methods_def append_Cons append_Nil if_P [OF refl]
proof (rule notify_four)
  show "passes c (watchdog_method env) s"
    using assms(2,3) by (simp add: watchdog_passes)
  show "\<exists>m. tr_interval m = tr_interval (md_transfer s) \<and>
      transfer_method env cfg c s' = (Ok VELOC_SUCCESS, s'\<lparr>md_transfer := m, md_fs := remote\<rparr>)"
    if "md_fs s' = md_fs s" "md_transfer s' = md_transfer s" for s' :: "'a modules"
    using transfer_checkpoint_new [OF assms(1,2,4,5,7)] that by (auto simp: transfer_method_def remote_def)
  show "chksum_method env cfg c s' = (Ok (if md_chksum s then VELOC_SUCCESS else VELOC_IGNORED),
      s'\<lparr>md_fs := (if md_chksum s then set_node (meta_filename c meta) (Reg (env_sha256 env bs)) remote else remote)\<rparr>)"
    if "md_fs s' = remote" "md_chksum s' = md_chksum s" for s' :: "'a modules"
    using chksum_checkpoint_new [OF assms(1,2,6,5), of "env_sha256 env"] that
    by (cases "md_chksum s") (simp_all add: chksum_method_def chksum_process_def remote_def)
  show "passes c (versioning_method cfg) s'" if "keeps_all c s'" for s' :: "'a modules"
    using that assms(2,5) by (simp add: versioning_passes)
qed

text \<open>The bytes of \<open>c\<close> are safe, and its local file is lost.\<close>

definition saved_remote ::
    "(byte list \<Rightarrow> byte list) \<Rightarrow> string \<Rightarrow> string \<Rightarrow> string \<Rightarrow> bool \<Rightarrow> command_t \<Rightarrow> byte list \<Rightarrow> 'x fsys_scheme \<Rightarrow> bool" where
  "saved_remote sha256 scratch persistent meta active c bs fs \<longleftrightarrow>
     faultless fs \<and> wf_command c \<and> scratch \<noteq> persistent \<and> length bs < 2 ^ 63 \<and> is_dir fs scratch \<and>
     node_at fs (filename c scratch) = None \<and> node_at fs (filename c persistent) = Some (Reg bs) \<and>
     (active \<longrightarrow> recorded sha256 meta c bs fs)"

lemma saved_remote_kind [simp]: "saved_remote sha256 scratch persistent meta active (c\<lparr>command := k\<rparr>) bs fs =
    saved_remote sha256 scratch persistent meta active c bs fs"
  by (simp add: saved_remote_def recorded_def)

lemma checkpoint_saves:
  assumes "prepared scratch persistent meta c bs fs"
  defines "remote \<equiv> set_node (filename c persistent) (Reg bs) fs"
  shows "saved_remote sha256 scratch persistent meta active c bs
    (del_node (filename c scratch) (if active then set_node (meta_filename c meta) (Reg (sha256 bs)) remote else remote))"
proof -
  have ne: "scratch \<noteq> filename c scratch"
    by (simp add: filename_def)
  have p: "filename c scratch \<noteq> filename c persistent" "is_dir fs scratch"
      "node_at fs (filename c persistent) = None" "node_at fs (meta_filename c meta) = None" "bs \<noteq> []"
    using assms(1) by (auto simp: prepared_def filename_inject)
  then have "is_dir (if active then set_node (meta_filename c meta) (Reg (sha256 bs)) remote else remote) scratch"
    unfolding remote_def by (auto intro!: is_dir_set_other simp: meta_filename_neq)
  with ne have "is_dir (del_node (filename c scratch)
      (if active then set_node (meta_filename c meta) (Reg (sha256 bs)) remote else remote)) scratch"
    by (auto simp: is_dir_def)
  then show ?thesis
    using assms(1) p(1,5) meta_filename_neq [of c meta, THEN not_sym] meta_filename_neq [of c meta]
    by (auto simp: saved_remote_def prepared_def remote_def recorded_def)
qed

lemma chain_restart:
  assumes "saved_remote (env_sha256 env) scratch persistent meta (md_chksum s) c bs (md_fs s)"
    and "\<And>bs. length (env_sha256 env bs) = HASH_SIZE"
    and "command c = RESTART" and "keeps_all c s" and "0 \<le> tr_interval (md_transfer s)"
    and "cfg_get cfg ''scratch'' = Inr scratch" and "cfg_get cfg ''meta'' = Inr meta"
    and "cfg_storage cfg = Some (posix_module scratch persistent)"
  defines "local \<equiv> set_node (filename c scratch) (Reg bs) (md_fs s)"
  shows "\<exists>s'. notify_command (default_methods env cfg None) c s = (Ok VELOC_SUCCESS, s') \<and> md_fs s' = local \<and>
    keeps_all c s' \<and> md_chksum s' = md_chksum s \<and> tr_interval (md_transfer s') = tr_interval (md_transfer s)"
  unfolding default_methods_def append_Cons append_Nil if_P [OF refl]
proof (rule notify_four)
  show "passes c (watchdog_method env) s"
    using assms(3,4) by (simp add: watchdog_passes)
  show "\<exists>m. tr_interval m = tr_interval (md_transfer s) \<and>
      transfer_method env cfg c s' = (Ok VELOC_SUCCESS, s'\<lparr>md_transfer := m, md_fs := local\<rparr>)"
    if "md_fs s' = md_fs s" "md_transfer s' = md_transfer s" for s' :: "'a modules"
    using transfer_restart_new [of "md_fs s" c scratch persistent bs "md_transfer s" cfg] assms(1,3,5,6,8) that
    by (auto simp: transfer_method_def local_def saved_remote_def)
  show "chksum_method env cfg c s' = (Ok (if md_chksum s then VELOC_SUCCESS else VELOC_IGNORED), s'\<lparr>md_fs := local\<rparr>)"
    if "md_fs s' = local" "md_chksum s' = md_chksum s" for s' :: "'a modules"
  proof (cases "md_chksum s")
    case True
    have "recorded (env_sha256 env) meta c bs local" "faultless local"
      using assms(1) True by (simp_all add: saved_remote_def recorded_def local_def meta_filename_neq)
    from chksum_restart_complete [OF this(2) assms(3,7,6,2) this(1)] True that show ?thesis
      by (simp add: chksum_method_def local_def)
  qed (use that in \<open>simp add: chksum_method_def chksum_process_def\<close>)
  show "passes c (versioning_method cfg) s'" if "keeps_all c s'" for s' :: "'a modules"
    using that assms(3,6) by (simp add: versioning_passes)
qed

text \<open>
  Checkpointing and restarting through the whole chain of modules, with a POSIX storage and
  with or without checksums. When no system call fails, the checkpoint succeeds; and after the
  loss of the local file the restart succeeds too and gives back exactly the bytes of the
  checkpoint.
\<close>

lemma chain_roundtrip:
  assumes "prepared scratch persistent meta c bs (md_fs s)" and "command c = CHECKPOINT" and "keeps_all c s"
    and "due (env_now env) c (md_transfer s)" and "cfg_get cfg ''scratch'' = Inr scratch" and "cfg_get cfg ''meta'' = Inr meta"
    and "cfg_storage cfg = Some (posix_module scratch persistent)" and "\<And>bs. length (env_sha256 env bs) = HASH_SIZE"
  shows "\<exists>s1 s2. notify_command (default_methods env cfg None) c s = (Ok VELOC_SUCCESS, s1) \<and>
    notify_command (default_methods env cfg None) (c\<lparr>command := RESTART\<rparr>)
      (s1\<lparr>md_fs := del_node (filename c scratch) (md_fs s1)\<rparr>) = (Ok VELOC_SUCCESS, s2) \<and>
    node_at (md_fs s2) (filename c scratch) = Some (Reg bs)"
proof -
  define remote where "remote = set_node (filename c persistent) (Reg bs) (md_fs s)"
  obtain s1 where s1: "notify_command (default_methods env cfg None) c s = (Ok VELOC_SUCCESS, s1)"
      "md_fs s1 = (if md_chksum s then set_node (meta_filename c meta) (Reg (env_sha256 env bs)) remote else remote)"
      "keeps_all c s1" "md_chksum s1 = md_chksum s" "tr_interval (md_transfer s1) = tr_interval (md_transfer s)"
    using chain_checkpoint [OF assms(1-7)] unfolding remote_def by blast
  let ?lost = "s1\<lparr>md_fs := del_node (filename c scratch) (md_fs s1)\<rparr>"
  have "saved_remote (env_sha256 env) scratch persistent meta (md_chksum ?lost) (c\<lparr>command := RESTART\<rparr>) bs (md_fs ?lost)"
    using checkpoint_saves [OF assms(1), of "env_sha256 env" "md_chksum s"] s1(2,4)
    by (cases "md_chksum s") (simp_all add: remote_def)
  then obtain s2 where "notify_command (default_methods env cfg None) (c\<lparr>command := RESTART\<rparr>) ?lost = (Ok VELOC_SUCCESS, s2)"
      "md_fs s2 = set_node (filename c scratch) (Reg bs) (md_fs ?lost)"
    using chain_restart [of env scratch persistent meta ?lost "c\<lparr>command := RESTART\<rparr>" bs cfg]
      s1(3,5) assms(5-8) due_interval [OF assms(4)] by auto
  with s1(1) show ?thesis by auto
qed

definition sample_modules :: "unit modules" where
  "sample_modules = \<lparr>md_watchdog = \<lparr>wd_timeout = 0, client_map = []\<rparr>, md_ec = None,
     md_transfer = \<lparr>tr_interval = 0, last_timestamp = []\<rparr>, md_chksum = True,
     md_versioning = \<lparr>persistent_history = [], scratch_history = [], max_versions = 0, scratch_versions = 0, vs_meta = ''''\<rparr>,
     md_fs = sample_meta\<rparr>"

definition sample_menv :: "unit mod_env" where
  "sample_menv = \<lparr>env_now = 0, env_land = (\<lambda>b. b), env_er = sample_er, env_sha256 = sample_hash\<rparr>"

lemma sample_prepared: "prepared ''/s'' ''/p'' ''/m'' sample_command [4, 5, 6] (md_fs sample_modules)"
  using wf_sample_command
  by (simp add: prepared_def sample_modules_def sample_meta_def sample_name sample_meta_names sample_store_def is_dir_def)

context storage_contract
begin

lemma chain_transfer_Ok:
  assumes "notify_command (default_methods env cfg None) c s = (Ok VELOC_SUCCESS, s')" and "keeps_all c s"
    and "command c = CHECKPOINT \<or> command c = RESTART" and "cfg_get cfg ''scratch'' = Inr scratch" and "\<not> md_chksum s"
  shows "\<exists>r m. transfer_process cfg (env_now env) c (md_transfer s) (md_fs s) = (Ok r, m, md_fs s') \<and> r \<noteq> VELOC_FAILURE \<and>
    (command c = RESTART \<longrightarrow> r = VELOC_SUCCESS)"
proof -
  obtain r1 s1 where s1: "watchdog_method env c s = (Ok r1, s1)" "r1 = VELOC_SUCCESS \<or> r1 = VELOC_IGNORED" "keeps_all c s1"
      "md_fs s1 = md_fs s" "md_transfer s1 = md_transfer s" "\<not> md_chksum s1"
    using watchdog_passes [OF assms(2,3), of env] assms(5) by (auto simp: passes_def)
  obtain r2 m fs2 where t: "transfer_process cfg (env_now env) c (md_transfer s) (md_fs s) = (r2, m, fs2)"
    using prod_cases3 by blast
  let ?s2 = "s1\<lparr>md_transfer := m, md_fs := fs2\<rparr>"
  have "keeps_all c ?s2"
    using s1(3) by (simp add: keeps_all_def)
  from versioning_passes [OF this assms(3,4)] obtain r4 s4 where s4: "versioning_method cfg c ?s2 = (Ok r4, s4)" "md_fs s4 = fs2"
    by (auto simp: passes_def)
  have "command c = RESTART \<Longrightarrow> r1 = VELOC_IGNORED"
    using s1(1) by (auto simp: watchdog_method_def watchdog_process_def split: if_splits)
  moreover have "command c = RESTART \<Longrightarrow> r4 = VELOC_IGNORED"
    using s4(1) assms(4) by (auto simp: versioning_method_def versioning_process_def versioning_restart_def Let_def)
  moreover have "chksum_method env cfg c ?s2 = (Ok VELOC_IGNORED, ?s2)"
    using s1(6) by (simp add: chksum_method_def chksum_process_def)
  ultimately show ?thesis
    using assms(1) s1 s4 t
    by (cases r2) (auto simp: notify_command_def default_methods_def transfer_method_def split: if_splits)
qed

lemma chain_restores:
  assumes "cfg_storage cfg = Some sm" and "cfg_get cfg ''scratch'' = Inr scratch" and "command c = CHECKPOINT"
    and "due (env_now env) c (md_transfer s)" and "ready c (md_fs s)" and "keeps_all c s" and "\<not> md_chksum s"
    and "notify_command (default_methods env cfg None) c s = (Ok VELOC_SUCCESS, s1)"
    and "md_fs s2 = del_node (filename c scratch) (md_fs s1)" and "keeps_all c s2" and "\<not> md_chksum s2"
    and "0 \<le> tr_interval (md_transfer s2)"
    and "notify_command (default_methods env' cfg None) (c\<lparr>command := RESTART\<rparr>) s2 = (Ok VELOC_SUCCESS, s3)"
  shows "node_at (md_fs s3) (filename c scratch) = Some (Reg (contents (md_fs s) (filename c scratch)))"
proof -
  let ?c = "c\<lparr>command := RESTART\<rparr>"
  obtain r m where "transfer_process cfg (env_now env) c (md_transfer s) (md_fs s) = (Ok r, m, md_fs s1)" "r \<noteq> VELOC_FAILURE"
    using chain_transfer_Ok [OF assms(8,6) _ assms(2,7)] assms(3) by blast
  then have "sm_flush sm c (md_fs s) = (Ok True, md_fs s1)"
    using transfer_checkpoint [OF assms(1-5)] by (auto split: if_splits)
  then have "stored c (contents (md_fs s) (filename c scratch)) (md_fs s2)"
    unfolding assms(9) by (intro stored_lose_local flush_stores [OF assms(5)])
  then have st: "stored ?c (contents (md_fs s) (filename c scratch)) (md_fs s2)"
    by (simp add: stored_kind)
  obtain m' where t: "transfer_process cfg (env_now env') ?c (md_transfer s2) (md_fs s2) = (Ok VELOC_SUCCESS, m', md_fs s3)"
    using chain_transfer_Ok [OF assms(13) _ _ assms(2,11)] assms(10) by auto
  from transfer_restart [OF assms(1,2) _ assms(12) st _ t] show ?thesis
    by (simp add: assms(9))
qed

end



end
