(* ===== verification/Comm_Queue.thy ===== *)
theory Comm_Queue
  imports Command
begin

text \<open>
  The three client-backend queues of \<^verbatim>\<open>src/src/common\<close>: \<^verbatim>\<open>ipc_queue.hpp\<close> (shared memory),
  \<^verbatim>\<open>socket_queue.hpp\<close> (UNIX sockets) and \<^verbatim>\<open>thallium_queue.hpp\<close> (RPC). Each keeps, per client,
  the commands that wait, the commands that are being worked on and a status. A handler that
  runs under the queue's lock is one function; \<open>None\<close> is blocking. An iterator into the
  progress list is a ticket that is used once. The order in which the clients' queues are
  visited is that of the list; where a new client enters that order is an argument, because
  the containers do not promise it. The locale \<open>comm_backend\<close> is what the backend's main loop
  relies on; all three classes are shown to keep it.
\<close>

section \<open>Queues\<close>

record client_queue =
  q_status :: int
  q_pending :: "command_t list"
  q_progress :: "(nat \<times> command_t) list"

record 'q backend =
  clients :: "(int \<times> 'q) list"
  next_it :: nat

definition new_queue :: client_queue where
  "new_queue = \<lparr>q_status = VELOC_SUCCESS, q_pending = [], q_progress = []\<rparr>"

definition combine_status :: "int \<Rightarrow> int \<Rightarrow> int" where
  "combine_status old st = (if old < 0 \<or> st < 0 then min old st else max old st)"

definition push_pending :: "command_t \<Rightarrow> 'a client_queue_scheme \<Rightarrow> 'a client_queue_scheme" where
  "push_pending e q = q\<lparr>q_pending := q_pending q @ [e]\<rparr>"

definition take_front :: "nat \<Rightarrow> 'a client_queue_scheme \<Rightarrow> 'a client_queue_scheme" where
  "take_front it q = q\<lparr>q_pending := tl (q_pending q), q_progress := q_progress q @ [(it, hd (q_pending q))]\<rparr>"

definition finish :: "nat \<Rightarrow> int \<Rightarrow> 'a client_queue_scheme \<Rightarrow> 'a client_queue_scheme" where
  "finish it status q =
     q\<lparr>q_progress := filter (\<lambda>x. fst x \<noteq> it) (q_progress q),
       q_status := combine_status (q_status q) status\<rparr>"

definition idle :: "'a client_queue_scheme \<Rightarrow> bool" where
  "idle q \<longleftrightarrow> q_pending q = [] \<and> q_progress q = []"

text \<open>Lookup with insertion of a fresh entry, and update in place.\<close>

definition attach :: "nat \<Rightarrow> int \<Rightarrow> 'q \<Rightarrow> (int \<times> 'q) list \<Rightarrow> (int \<times> 'q) list" where
  "attach k i q cs = (if map_of cs i = None then take k cs @ (i, q) # drop k cs else cs)"

definition at_client :: "int \<Rightarrow> ('q \<Rightarrow> 'q) \<Rightarrow> (int \<times> 'q) list \<Rightarrow> (int \<times> 'q) list" where
  "at_client i f cs = map (\<lambda>(j, q). (j, if j = i then f q else q)) cs"

fun find_non_empty_pending :: "(int \<times> 'a client_queue_scheme) list \<Rightarrow> (int \<times> 'a client_queue_scheme) option" where
  "find_non_empty_pending [] = None"
| "find_non_empty_pending ((i, q) # cs) =
     (if q_pending q \<noteq> [] then Some (i, q) else find_non_empty_pending cs)"

definition dequeue_front ::
    "('a client_queue_scheme, 'b) backend_scheme \<Rightarrow>
     ((int \<times> nat \<times> command_t) \<times> ('a client_queue_scheme, 'b) backend_scheme) option" where
  "dequeue_front st =
     (case find_non_empty_pending (clients st) of
        None \<Rightarrow> None
      | Some (i, q) \<Rightarrow>
          Some ((i, next_it st, hd (q_pending q)),
            st\<lparr>clients := at_client i (take_front (next_it st)) (clients st), next_it := next_it st + 1\<rparr>))"

section \<open>Shared memory\<close>

definition ipc_attach :: "nat \<Rightarrow> int \<Rightarrow> client_queue backend \<Rightarrow> client_queue backend" where
  "ipc_attach k i st = st\<lparr>clients := attach k i new_queue (clients st)\<rparr>"

definition ipc_enqueue :: "int \<Rightarrow> command_t \<Rightarrow> client_queue backend \<Rightarrow> client_queue backend" where
  "ipc_enqueue i e st = st\<lparr>clients := at_client i (push_pending e) (clients st)\<rparr>"

definition ipc_dequeue_any ::
    "client_queue backend \<Rightarrow> ((int \<times> nat \<times> command_t) \<times> client_queue backend) option" where
  "ipc_dequeue_any st = dequeue_front st"

definition ipc_set_completion :: "int \<Rightarrow> nat \<Rightarrow> int \<Rightarrow> client_queue backend \<Rightarrow> client_queue backend" where
  "ipc_set_completion i it status st = st\<lparr>clients := at_client i (finish it status) (clients st)\<rparr>"

definition ipc_wait_completion :: "int \<Rightarrow> bool \<Rightarrow> client_queue backend \<Rightarrow> (int \<times> client_queue backend) option" where
  "ipc_wait_completion i reset_status st =
     (case map_of (clients st) i of
        None \<Rightarrow> None
      | Some q \<Rightarrow>
          if \<not> idle q then None
          else Some (q_status q,
            if reset_status
            then st\<lparr>clients := at_client i (q_status_update (\<lambda>_. VELOC_SUCCESS)) (clients st)\<rparr> else st))"

definition ipc_check_completion :: "int \<Rightarrow> client_queue backend \<Rightarrow> bool" where
  "ipc_check_completion i st = (case map_of (clients st) i of None \<Rightarrow> False | Some q \<Rightarrow> idle q)"

section \<open>Sockets\<close>

record sock_queue = client_queue +
  q_fd :: int
  q_waiting :: bool
  q_reset :: bool

record sock_backend = "sock_queue backend" +
  sent :: "(int \<times> int) list"

definition new_sock_queue :: sock_queue where
  "new_sock_queue = \<lparr>q_status = VELOC_SUCCESS, q_pending = [], q_progress = [],
     q_fd = - 1, q_waiting = False, q_reset = True\<rparr>"

text \<open>\<open>wr_ok fd\<close>: the operating system accepts the four bytes of a reply on \<open>fd\<close>.\<close>

definition send_wait_reply :: "(int \<Rightarrow> bool) \<Rightarrow> sock_queue \<Rightarrow> (int \<times> int) list res \<times> sock_queue" where
  "send_wait_reply wr_ok q =
     (if q_waiting q \<and> q_pending q = [] \<and> q_progress q = [] then
        (if wr_ok (q_fd q) then Inr [(q_fd q, q_status q)] else Inl Fatal,
         q\<lparr>q_status := (if q_reset q then VELOC_SUCCESS else q_status q), q_waiting := False\<rparr>)
      else (Inr [], q))"

definition sock_reply :: "(int \<Rightarrow> bool) \<Rightarrow> int \<Rightarrow> sock_backend \<Rightarrow> unit res \<times> sock_backend" where
  "sock_reply wr_ok i st =
     (case map_of (clients st) i of
        None \<Rightarrow> (Inr (), st)
      | Some q \<Rightarrow>
          (case send_wait_reply wr_ok q of
             (r, q') \<Rightarrow>
               (case r of Inl e \<Rightarrow> Inl e | Inr _ \<Rightarrow> Inr (),
                st\<lparr>clients := at_client i (\<lambda>_. q') (clients st),
                   sent := sent st @ (case r of Inl _ \<Rightarrow> [] | Inr out \<Rightarrow> out)\<rparr>)))"

definition sock_set_completion ::
    "(int \<Rightarrow> bool) \<Rightarrow> int \<Rightarrow> nat \<Rightarrow> int \<Rightarrow> sock_backend \<Rightarrow> unit res \<times> sock_backend" where
  "sock_set_completion wr_ok i it status st =
     sock_reply wr_ok i (st\<lparr>clients := at_client i (finish it status) (clients st)\<rparr>)"

definition sock_enqueue ::
    "(int \<Rightarrow> bool) \<Rightarrow> nat \<Rightarrow> command_t \<Rightarrow> int \<Rightarrow> sock_backend \<Rightarrow> unit res \<times> sock_backend" where
  "sock_enqueue wr_ok k e sock st =
     (let st1 = st\<lparr>clients := at_client sock (q_fd_update (\<lambda>_. sock)) (attach k sock new_sock_queue (clients st))\<rparr>
      in if command e = STATUS then
           sock_reply wr_ok sock (st1\<lparr>clients := at_client sock
             (\<lambda>q. q\<lparr>q_waiting := True, q_reset := (version e \<noteq> 0)\<rparr>) (clients st1)\<rparr>)
         else (Inr (), st1\<lparr>clients := at_client sock (push_pending e) (clients st1)\<rparr>))"

definition sock_dequeue_any :: "sock_backend \<Rightarrow> ((int \<times> nat \<times> command_t) \<times> sock_backend) option" where
  "sock_dequeue_any st = dequeue_front st"

text \<open>The message \<^verbatim>\<open>wait_completion\<close> of the client sends; it then blocks for the reply.\<close>

definition sock_wait_request :: "int \<Rightarrow> bool \<Rightarrow> command_t res" where
  "sock_wait_request i reset_status = mk_command i STATUS (if reset_status then 1 else 0) ''''"

subsection \<open>Connections\<close>

abbreviation MAX_CLIENTS :: nat where "MAX_CLIENTS \<equiv> 256"

text \<open>
  One round of \<^verbatim>\<open>handle_connections\<close>. The descriptors are the first \<^verbatim>\<open>fds_size\<close> slots of an
  array of \<^verbatim>\<open>MAX_CLIENTS\<close>; slot 0 is the listening socket. \<open>rd fd\<close> is the command read from a
  descriptor, \<open>None\<close> a short read; \<open>place\<close> is where a new client enters the visiting order.
\<close>

fun serve_clients ::
    "(int \<Rightarrow> bool) \<Rightarrow> (int \<Rightarrow> nat) \<Rightarrow> (int \<Rightarrow> command_t option) \<Rightarrow> (int \<times> bool) list \<Rightarrow> sock_backend \<Rightarrow>
     int list res \<times> sock_backend" where
  "serve_clients wr_ok place rd [] st = (Inr [], st)"
| "serve_clients wr_ok place rd ((f, ready) # fds) st =
     (if \<not> ready then
        (case serve_clients wr_ok place rd fds st of (r, st') \<Rightarrow> (map_sum id ((#) f) r, st'))
      else
        (case rd f of
           None \<Rightarrow> (case serve_clients wr_ok place rd fds st of (r, st') \<Rightarrow> (map_sum id ((#) (- 1)) r, st'))
         | Some c \<Rightarrow>
             (case sock_enqueue wr_ok (place f) c f st of
                (Inl e, st1) \<Rightarrow> (Inl e, st1)
              | (Inr _, st1) \<Rightarrow>
                  (case serve_clients wr_ok place rd fds st1 of (r, st') \<Rightarrow> (map_sum id ((#) f) r, st')))))"

definition add_client :: "int list \<Rightarrow> int \<Rightarrow> int list res" where
  "add_client fds client =
     (let i = length (takeWhile (\<lambda>f. f \<noteq> - 1) fds)
      in if i > MAX_CLIENTS then Inl Fatal
         else if i \<ge> MAX_CLIENTS then Inl Undefined
         else Inr (if i < length fds then fds[i := client] else fds @ [client]))"

definition handle_round ::
    "(int \<Rightarrow> bool) \<Rightarrow> (int \<Rightarrow> nat) \<Rightarrow> (int \<Rightarrow> command_t option) \<Rightarrow> int option \<Rightarrow>
     bool \<Rightarrow> bool list \<Rightarrow> int list \<Rightarrow> sock_backend \<Rightarrow> int list res \<times> sock_backend" where
  "handle_round wr_ok place rd acc new_conn ready fds st =
     (case serve_clients wr_ok place rd (zip (tl fds) ready) st of
        (Inl e, st1) \<Rightarrow> (Inl e, st1)
      | (Inr cl, st1) \<Rightarrow>
          if \<not> new_conn then (Inr (hd fds # cl), st1)
          else (case acc of
                  None \<Rightarrow> (Inl Fatal, st1)
                | Some client \<Rightarrow> (add_client (hd fds # cl) client, st1)))"

section \<open>Remote procedure calls\<close>

definition thal_enqueue :: "nat \<Rightarrow> command_t \<Rightarrow> client_queue backend \<Rightarrow> client_queue backend" where
  "thal_enqueue k e st =
     st\<lparr>clients := at_client (unique_id e) (push_pending e) (attach k (unique_id e) new_queue (clients st))\<rparr>"

definition thal_poll ::
    "nat \<Rightarrow> int \<Rightarrow> bool \<Rightarrow> client_queue backend \<Rightarrow> (nat \<times> int) \<times> client_queue backend" where
  "thal_poll k i reset_status st =
     (let cs = attach k i new_queue (clients st); q = the (map_of cs i)
      in ((length (q_pending q) + length (q_progress q), q_status q),
          st\<lparr>clients := (if reset_status then at_client i (q_status_update (\<lambda>_. VELOC_SUCCESS)) cs else cs)\<rparr>))"

definition thal_set_completion :: "int \<Rightarrow> nat \<Rightarrow> int \<Rightarrow> client_queue backend \<Rightarrow> client_queue backend" where
  "thal_set_completion i it status st = st\<lparr>clients := at_client i (finish it status) (clients st)\<rparr>"

definition thal_dequeue_any ::
    "client_queue backend \<Rightarrow> ((int \<times> nat \<times> command_t) \<times> client_queue backend) option" where
  "thal_dequeue_any st = dequeue_front st"

text \<open>
  \<^verbatim>\<open>wait_completion\<close> polls until nothing is left; the elements of the list are what the
  backend does between two polls, \<open>None\<close> means that the client is still polling afterwards.
\<close>

fun thal_wait_completion ::
    "nat \<Rightarrow> int \<Rightarrow> bool \<Rightarrow> (client_queue backend \<Rightarrow> client_queue backend) list \<Rightarrow> client_queue backend \<Rightarrow>
     (int \<times> client_queue backend) option" where
  "thal_wait_completion k i reset_status fs st =
     (case thal_poll k i reset_status st of
        ((n, s), st') \<Rightarrow>
          if n = 0 then Some (s, st')
          else (case fs of [] \<Rightarrow> None | f # fs' \<Rightarrow> thal_wait_completion k i reset_status fs' (f st')))"

declare thal_wait_completion.simps [simp del]

section \<open>What the main loop relies on\<close>

text \<open>A history of queue operations, with the commands that went in and came out and the results.\<close>

datatype qop = Enq int command_t | Deq | Fin int nat int

type_synonym 's history = "'s \<times> (int \<times> command_t) list \<times> (int \<times> command_t) list \<times> (int \<times> int) list"

fun qstep ::
    "(int \<Rightarrow> command_t \<Rightarrow> 's \<Rightarrow> 's) \<Rightarrow> ('s \<Rightarrow> ((int \<times> nat \<times> command_t) \<times> 's) option) \<Rightarrow>
     (int \<Rightarrow> nat \<Rightarrow> int \<Rightarrow> 's \<Rightarrow> 's) \<Rightarrow> ('s \<Rightarrow> int \<Rightarrow> (nat \<times> command_t) list) \<Rightarrow> qop \<Rightarrow> 's history \<Rightarrow> 's history" where
  "qstep enq deq fin prog (Enq k e) (s, ins, outs, rs) = (enq k e s, ins @ [(k, e)], outs, rs)"
| "qstep enq deq fin prog Deq (s, ins, outs, rs) =
     (case deq s of None \<Rightarrow> (s, ins, outs, rs) | Some ((k, t, e), s') \<Rightarrow> (s', ins, outs @ [(k, e)], rs))"
| "qstep enq deq fin prog (Fin k t r) (s, ins, outs, rs) =
     (if t \<in> fst ` set (prog s k) then (fin k t r s, ins, outs, rs @ [(k, r)]) else (s, ins, outs, rs))"

definition of_client :: "int \<Rightarrow> (int \<times> 'a) list \<Rightarrow> 'a list" where
  "of_client k xs = map snd (filter (\<lambda>x. fst x = k) xs)"

lemma of_client_simps [simp]:
  "of_client k [] = []" "of_client k (xs @ ys) = of_client k xs @ of_client k ys"
  "of_client k [(j, x)] = (if j = k then [x] else [])"
  by (simp_all add: of_client_def)

fun is_input :: "(int \<Rightarrow> command_t \<Rightarrow> bool) \<Rightarrow> qop \<Rightarrow> bool" where
  "is_input ok (Enq k e) = ok k e"
| "is_input ok _ = True"

locale comm_backend =
  fixes inv :: "'s \<Rightarrow> bool"
    and ok :: "int \<Rightarrow> command_t \<Rightarrow> bool"
    and pend :: "'s \<Rightarrow> int \<Rightarrow> command_t list"
    and prog :: "'s \<Rightarrow> int \<Rightarrow> (nat \<times> command_t) list"
    and enq :: "int \<Rightarrow> command_t \<Rightarrow> 's \<Rightarrow> 's"
    and deq :: "'s \<Rightarrow> ((int \<times> nat \<times> command_t) \<times> 's) option"
    and fin :: "int \<Rightarrow> nat \<Rightarrow> int \<Rightarrow> 's \<Rightarrow> 's"
  assumes enq_law: "inv s \<Longrightarrow> ok k e \<Longrightarrow>
      inv (enq k e s) \<and> pend (enq k e s) = (pend s)(k := pend s k @ [e]) \<and> prog (enq k e s) = prog s"
    and deq_none: "inv s \<Longrightarrow> deq s = None \<longleftrightarrow> (\<forall>k. pend s k = [])"
    and deq_some: "inv s \<Longrightarrow> deq s = Some ((k, t, e), s') \<Longrightarrow>
      inv s' \<and> pend s k = e # pend s' k \<and> pend s' = (pend s)(k := pend s' k) \<and>
      prog s' = (prog s)(k := prog s k @ [(t, e)]) \<and> (\<forall>j. t \<notin> fst ` set (prog s j))"
    and fin_law: "inv s \<Longrightarrow>
      inv (fin k t r s) \<and> pend (fin k t r s) = pend s \<and>
      prog (fin k t r s) = (prog s)(k := filter (\<lambda>x. fst x \<noteq> t) (prog s k))"
begin

lemma qstep_keeps:
  assumes "inv s" and "is_input ok p" and "qstep enq deq fin prog p (s, ins, outs, rs) = (s', ins', outs', rs')"
    and "\<And>k. of_client k ins = of_client k outs @ pend s k"
    and "\<And>k. set (map snd (prog s k)) \<subseteq> set (of_client k outs)"
  shows "inv s' \<and> (\<forall>k. of_client k ins' = of_client k outs' @ pend s' k) \<and>
    (\<forall>k. set (map snd (prog s' k)) \<subseteq> set (of_client k outs'))"
proof (cases p)
  case (Enq k e)
  then show ?thesis
    using assms enq_law [of s k e] by auto
next
  case Deq
  show ?thesis
  proof (cases "deq s")
    case None
    with Deq assms show ?thesis by simp
  next
    case (Some x)
    obtain k t e s2 where x: "x = ((k, t, e), s2)"
      by (metis prod.exhaust)
    with Some Deq assms(3) have eq: "s' = s2" "ins' = ins" "outs' = outs @ [(k, e)]"
      by auto
    have d: "inv s2" "pend s k = e # pend s2 k" "pend s2 = (pend s)(k := pend s2 k)"
        "prog s2 = (prog s)(k := prog s k @ [(t, e)])"
      using deq_some [OF assms(1)] Some x by blast+
    have "of_client j ins = of_client j (outs @ [(k, e)]) @ pend s2 j" for j
      using assms(4) [of j] d(2) by (subst d(3)) auto
    moreover have "set (map snd (prog s2 j)) \<subseteq> set (of_client j (outs @ [(k, e)]))" for j
      using assms(5) [of j] by (auto simp: d(4))
    ultimately show ?thesis
      using d(1) eq by blast
  qed
next
  case (Fin k t r)
  show ?thesis
  proof (cases "t \<in> fst ` set (prog s k)")
    case True
    with Fin assms(3) have "s' = fin k t r s" "ins' = ins" "outs' = outs"
      by auto
    then show ?thesis
      using fin_law [OF assms(1), of k t r] assms(4,5) by (auto split: if_splits)
  qed (use Fin assms in auto)
qed

lemma history_keeps:
  assumes "inv s" and "\<forall>p \<in> set ps. is_input ok p"
    and "fold (qstep enq deq fin prog) ps (s, ins, outs, rs) = (s', ins', outs', rs')"
    and "\<And>k. of_client k ins = of_client k outs @ pend s k"
    and "\<And>k. set (map snd (prog s k)) \<subseteq> set (of_client k outs)"
  shows "inv s' \<and> (\<forall>k. of_client k ins' = of_client k outs' @ pend s' k) \<and>
    (\<forall>k. set (map snd (prog s' k)) \<subseteq> set (of_client k outs'))"
  using assms
proof (induction ps arbitrary: s ins outs rs)
  case (Cons p ps)
  obtain s1 ins1 outs1 rs1 where q: "qstep enq deq fin prog p (s, ins, outs, rs) = (s1, ins1, outs1, rs1)"
    by (metis prod.exhaust)
  have "inv s1 \<and> (\<forall>k. of_client k ins1 = of_client k outs1 @ pend s1 k) \<and>
      (\<forall>k. set (map snd (prog s1 k)) \<subseteq> set (of_client k outs1))"
    using Cons.prems(1,2,4,5) by (intro qstep_keeps [OF _ _ q]) simp_all
  with Cons.prems(2,3) q show ?case
    by (intro Cons.IH [of s1 ins1 outs1 rs1]) simp_all
qed auto

lemma fifo:
  assumes "inv s" and "pend s = (\<lambda>_. [])" and "prog s = (\<lambda>_. [])" and "\<forall>p \<in> set ps. is_input ok p"
    and "fold (qstep enq deq fin prog) ps (s, [], [], []) = (s', ins, outs, rs)"
  shows "of_client k ins = of_client k outs @ pend s' k \<and>
    set (map snd (prog s' k)) \<subseteq> set (of_client k outs) \<and> (deq s' = None \<longleftrightarrow> (\<forall>j. pend s' j = []))"
  using history_keeps [OF assms(1,4,5)] assms(2,3) deq_none [of s'] by simp

end

text \<open>Queues whose status collects the results of every completion.\<close>

locale status_backend = comm_backend +
  fixes stat :: "'a \<Rightarrow> int \<Rightarrow> int"
  assumes enq_stat: "inv s \<Longrightarrow> ok k e \<Longrightarrow> stat (enq k e s) = stat s"
    and deq_stat: "inv s \<Longrightarrow> deq s = Some (x, s') \<Longrightarrow> stat s' = stat s"
    and fin_stat: "inv s \<Longrightarrow> t \<in> fst ` set (prog s k) \<Longrightarrow>
      stat (fin k t r s) = (stat s)(k := combine_status (stat s k) r)"
begin

lemma status_collects:
  assumes "inv s" and "\<forall>p \<in> set ps. is_input ok p" and "\<And>k. stat s k = fold (\<lambda>r a. combine_status a r) (of_client k rs) a"
    and "fold (qstep enq deq fin prog) ps (s, ins, outs, rs) = (s', ins', outs', rs')"
  shows "inv s' \<and> (\<forall>k. stat s' k = fold (\<lambda>r a. combine_status a r) (of_client k rs') a)"
  using assms
proof (induction ps arbitrary: s ins outs rs)
  case (Cons p ps)
  obtain s1 ins1 outs1 rs1 where q: "qstep enq deq fin prog p (s, ins, outs, rs) = (s1, ins1, outs1, rs1)"
    by (metis prod.exhaust)
  have "inv s1 \<and> (\<forall>k. stat s1 k = fold (\<lambda>r a. combine_status a r) (of_client k rs1) a)"
  proof (cases p)
    case (Enq k e)
    then show ?thesis
      using q Cons.prems(1,2,3) enq_law [of s k e] enq_stat [of s k e] by auto
  next
    case Deq
    show ?thesis
    proof (cases "deq s")
      case (Some x)
      obtain k t e s2 where "x = ((k, t, e), s2)"
        by (metis prod.exhaust)
      with Some Deq q show ?thesis
        using deq_some [OF Cons.prems(1)] deq_stat [OF Cons.prems(1)] Cons.prems(3) by auto
    qed (use Deq q Cons.prems in auto)
  next
    case (Fin k t r)
    then show ?thesis
      using q Cons.prems(1,3) fin_law [of s k t r] fin_stat [of s t k r] by (auto split: if_splits)
  qed
  with Cons.prems(2,4) q show ?case
    by (intro Cons.IH [of s1 rs1 ins1 outs1]) simp_all
qed auto

end

section \<open>All three queues keep the contract\<close>

definition pend_of :: "('a client_queue_scheme, 'b) backend_scheme \<Rightarrow> int \<Rightarrow> command_t list" where
  "pend_of st k = (case map_of (clients st) k of None \<Rightarrow> [] | Some q \<Rightarrow> q_pending q)"

definition prog_of :: "('a client_queue_scheme, 'b) backend_scheme \<Rightarrow> int \<Rightarrow> (nat \<times> command_t) list" where
  "prog_of st k = (case map_of (clients st) k of None \<Rightarrow> [] | Some q \<Rightarrow> q_progress q)"

definition stat_of :: "('a client_queue_scheme, 'b) backend_scheme \<Rightarrow> int \<Rightarrow> int" where
  "stat_of st k = (case map_of (clients st) k of None \<Rightarrow> VELOC_SUCCESS | Some q \<Rightarrow> q_status q)"

text \<open>One entry per client, and every ticket handed out is below the next one.\<close>

definition backend_ok :: "('a client_queue_scheme, 'b) backend_scheme \<Rightarrow> bool" where
  "backend_ok st \<longleftrightarrow> distinct (map fst (clients st)) \<and>
     (\<forall>(i, q) \<in> set (clients st). \<forall>x \<in> set (q_progress q). fst x < next_it st)"

named_theorems queue_simps

declare map_of_eq_Some_iff [simp del] map_of_eq_Some_iff [iff del]

lemma fst_at_client [queue_simps]: "map fst (at_client i f cs) = map fst cs"
  by (induction cs) (auto simp: at_client_def)

lemma map_of_at_client [queue_simps]:
  "map_of (at_client i f cs) j = (if j = i then map_option f (map_of cs i) else map_of cs j)"
  by (induction cs) (auto simp: at_client_def)

lemma map_of_attach [queue_simps]:
  "map_of (attach k i q cs) j =
     (if j = i then Some (case map_of cs i of None \<Rightarrow> q | Some q' \<Rightarrow> q') else map_of cs j)"
proof (cases "map_of cs i")
  case None
  have "map_of cs j = map_of (take k cs @ drop k cs) j"
    by simp
  then show ?thesis
    using None by (auto simp: attach_def map_add_def simp del: append_take_drop_id split: option.splits)
qed (auto simp: attach_def)

lemma distinct_attach [queue_simps]:
  assumes "distinct (map fst cs)"
  shows "distinct (map fst (attach k i q cs))"
proof (cases "map_of cs i")
  case None
  have "distinct (map fst (take k cs @ drop k cs))"
    using assms by simp
  moreover have "i \<notin> fst ` set (take k cs @ drop k cs)"
    using None by (simp add: map_of_eq_None_iff)
  ultimately show ?thesis
    using None unfolding attach_def by (auto simp del: append_take_drop_id)
qed (use assms in \<open>simp add: attach_def\<close>)

lemma backend_ok_map:
  "backend_ok st \<longleftrightarrow> distinct (map fst (clients st)) \<and>
     (\<forall>i q t e. map_of (clients st) i = Some q \<longrightarrow> (t, e) \<in> set (q_progress q) \<longrightarrow> t < next_it st)"
  unfolding backend_ok_def by (cases "distinct (map fst (clients st))") (force simp: map_of_eq_Some_iff)+

lemma find_none:
  "distinct (map fst cs) \<Longrightarrow>
     find_non_empty_pending cs = None \<longleftrightarrow> (\<forall>i q. map_of cs i = Some q \<longrightarrow> q_pending q = [])"
proof -
  assume "distinct (map fst cs)"
  then have "(\<forall>i q. map_of cs i = Some q \<longrightarrow> q_pending q = []) \<longleftrightarrow> (\<forall>x \<in> set cs. q_pending (snd x) = [])"
    by (force simp: map_of_eq_Some_iff)
  moreover have "find_non_empty_pending cs = None \<longleftrightarrow> (\<forall>x \<in> set cs. q_pending (snd x) = [])"
    by (induction cs rule: find_non_empty_pending.induct) auto
  ultimately show ?thesis by simp
qed

lemma find_some:
  "distinct (map fst cs) \<Longrightarrow> find_non_empty_pending cs = Some (i, q) \<Longrightarrow>
     map_of cs i = Some q \<and> q_pending q \<noteq> []"
  by (induction cs rule: find_non_empty_pending.induct)
    (auto split: if_splits dest!: map_of_SomeD, (metis fst_conv image_eqI)+)

lemma dequeue_none: "backend_ok st \<Longrightarrow> dequeue_front st = None \<longleftrightarrow> (\<forall>k. pend_of st k = [])"
proof -
  assume "backend_ok st"
  then have "find_non_empty_pending (clients st) = None \<longleftrightarrow>
      (\<forall>i q. map_of (clients st) i = Some q \<longrightarrow> q_pending q = [])"
    by (intro find_none) (simp add: backend_ok_def)
  moreover have "dequeue_front st = None \<longleftrightarrow> find_non_empty_pending (clients st) = None"
    by (simp add: dequeue_front_def split: option.splits)
  moreover have "(\<forall>k. pend_of st k = []) \<longleftrightarrow> (\<forall>i q. map_of (clients st) i = Some q \<longrightarrow> q_pending q = [])"
    by (auto simp: pend_of_def split: option.splits)
  ultimately show ?thesis by simp
qed

lemma dequeue_some:
  assumes "backend_ok st" and "dequeue_front st = Some ((k, t, e), st')"
  shows "backend_ok st' \<and> pend_of st k = e # pend_of st' k \<and> pend_of st' = (pend_of st)(k := pend_of st' k) \<and>
    prog_of st' = (prog_of st)(k := prog_of st k @ [(t, e)]) \<and> (\<forall>j. t \<notin> fst ` set (prog_of st j)) \<and>
    stat_of st' = stat_of st"
proof -
  from assms(2) obtain q where find: "find_non_empty_pending (clients st) = Some (k, q)"
      and t: "t = next_it st" and e: "e = hd (q_pending q)"
      and st': "st' = st\<lparr>clients := at_client k (take_front t) (clients st), next_it := t + 1\<rparr>"
    by (auto simp: dequeue_front_def split: option.splits)
  from find assms(1) have q: "map_of (clients st) k = Some q" "q_pending q \<noteq> []"
    by (auto simp: backend_ok_map dest: find_some)
  have "backend_ok st'"
    using assms(1) q(1)
    by (auto simp: backend_ok_map st' queue_simps take_front_def t split: if_splits) (blast intro: less_SucI)+
  moreover have "t \<notin> fst ` set (prog_of st j)" for j
    using assms(1) unfolding backend_ok_map prog_of_def t
    by (cases "map_of (clients st) j") fastforce+
  ultimately show ?thesis
    using q by (auto simp: pend_of_def prog_of_def stat_of_def st' queue_simps take_front_def e fun_eq_iff
        split: option.splits)
qed

lemma finish_laws:
  assumes "backend_ok st"
  shows "backend_ok (st\<lparr>clients := at_client k (finish t r) (clients st)\<rparr>)"
    and "pend_of (st\<lparr>clients := at_client k (finish t r) (clients st)\<rparr>) = pend_of st"
    and "prog_of (st\<lparr>clients := at_client k (finish t r) (clients st)\<rparr>) =
      (prog_of st)(k := filter (\<lambda>x. fst x \<noteq> t) (prog_of st k))"
    and "t \<in> fst ` set (prog_of st k) \<Longrightarrow> stat_of (st\<lparr>clients := at_client k (finish t r) (clients st)\<rparr>) =
      (stat_of st)(k := combine_status (stat_of st k) r)"
proof -
  show "backend_ok (st\<lparr>clients := at_client k (finish t r) (clients st)\<rparr>)"
    using assms by (auto simp: backend_ok_map queue_simps finish_def split: if_splits) blast
qed (auto simp: pend_of_def prog_of_def stat_of_def queue_simps finish_def fun_eq_iff split: option.splits)

lemma enqueue_laws:
  assumes "backend_ok st" and "q_pending q = []" and "q_progress q = []" and "q_status q = VELOC_SUCCESS"
    and "st' = st\<lparr>clients := at_client k (push_pending e) (attach n k q (clients st))\<rparr>"
  shows "backend_ok st'" and "pend_of st' = (pend_of st)(k := pend_of st k @ [e])"
    and "prog_of st' = prog_of st" and "stat_of st' = stat_of st"
  using assms
  by (auto simp: backend_ok_map pend_of_def prog_of_def stat_of_def queue_simps push_pending_def fun_eq_iff
      split: option.splits if_splits)

lemma new_queue_fields [simp]:
  "q_pending new_queue = []" "q_progress new_queue = []" "q_status new_queue = VELOC_SUCCESS"
  by (simp_all add: new_queue_def)

interpretation ipc: status_backend "backend_ok :: client_queue backend \<Rightarrow> bool" "\<lambda>_ _. True" pend_of prog_of
    "\<lambda>k e st. ipc_enqueue k e (ipc_attach n k st)" ipc_dequeue_any ipc_set_completion stat_of
  for n
proof
  fix s :: "client_queue backend" and s' x e k t r
  assume s: "backend_ok s"
  have enq: "ipc_enqueue k e (ipc_attach n k s) =
      s\<lparr>clients := at_client k (push_pending e) (attach n k new_queue (clients s))\<rparr>"
    by (simp add: ipc_enqueue_def ipc_attach_def)
  show "backend_ok (ipc_enqueue k e (ipc_attach n k s)) \<and>
      pend_of (ipc_enqueue k e (ipc_attach n k s)) = (pend_of s)(k := pend_of s k @ [e]) \<and>
      prog_of (ipc_enqueue k e (ipc_attach n k s)) = prog_of s"
    "stat_of (ipc_enqueue k e (ipc_attach n k s)) = stat_of s"
    using enqueue_laws [OF s _ _ _ enq] by simp_all
  show "ipc_dequeue_any s = None \<longleftrightarrow> (\<forall>k. pend_of s k = [])"
    using dequeue_none [OF s] by (simp add: ipc_dequeue_any_def)
  show "backend_ok (ipc_set_completion k t r s) \<and> pend_of (ipc_set_completion k t r s) = pend_of s \<and>
      prog_of (ipc_set_completion k t r s) = (prog_of s)(k := filter (\<lambda>x. fst x \<noteq> t) (prog_of s k))"
    "t \<in> fst ` set (prog_of s k) \<Longrightarrow>
      stat_of (ipc_set_completion k t r s) = (stat_of s)(k := combine_status (stat_of s k) r)"
    using finish_laws [OF s, where k = k and t = t and r = r] by (simp_all add: ipc_set_completion_def)
  show "ipc_dequeue_any s = Some ((k, t, e), s') \<Longrightarrow>
      backend_ok s' \<and> pend_of s k = e # pend_of s' k \<and> pend_of s' = (pend_of s)(k := pend_of s' k) \<and>
      prog_of s' = (prog_of s)(k := prog_of s k @ [(t, e)]) \<and> (\<forall>j. t \<notin> fst ` set (prog_of s j))"
    using dequeue_some [OF s, of k t e s'] by (simp add: ipc_dequeue_any_def)
  show "ipc_dequeue_any s = Some (x, s') \<Longrightarrow> stat_of s' = stat_of s"
    using dequeue_some [OF s, of "fst x" "fst (snd x)" "snd (snd x)" s'] by (simp add: ipc_dequeue_any_def)
qed

interpretation thal: status_backend "backend_ok :: client_queue backend \<Rightarrow> bool" "\<lambda>k e. unique_id e = k"
    pend_of prog_of "\<lambda>k e st. thal_enqueue n e st" thal_dequeue_any thal_set_completion stat_of
  for n
proof
  fix s :: "client_queue backend" and s' x e k t r
  assume s: "backend_ok s"
  have enq: "unique_id e = k \<Longrightarrow> thal_enqueue n e s =
      s\<lparr>clients := at_client k (push_pending e) (attach n k new_queue (clients s))\<rparr>"
    by (simp add: thal_enqueue_def)
  show "unique_id e = k \<Longrightarrow> backend_ok (thal_enqueue n e s) \<and>
      pend_of (thal_enqueue n e s) = (pend_of s)(k := pend_of s k @ [e]) \<and> prog_of (thal_enqueue n e s) = prog_of s"
    "unique_id e = k \<Longrightarrow> stat_of (thal_enqueue n e s) = stat_of s"
    using enqueue_laws [OF s _ _ _ enq] by simp_all
  show "thal_dequeue_any s = None \<longleftrightarrow> (\<forall>k. pend_of s k = [])"
    using dequeue_none [OF s] by (simp add: thal_dequeue_any_def)
  show "backend_ok (thal_set_completion k t r s) \<and> pend_of (thal_set_completion k t r s) = pend_of s \<and>
      prog_of (thal_set_completion k t r s) = (prog_of s)(k := filter (\<lambda>x. fst x \<noteq> t) (prog_of s k))"
    "t \<in> fst ` set (prog_of s k) \<Longrightarrow>
      stat_of (thal_set_completion k t r s) = (stat_of s)(k := combine_status (stat_of s k) r)"
    using finish_laws [OF s, where k = k and t = t and r = r] by (simp_all add: thal_set_completion_def)
  show "thal_dequeue_any s = Some ((k, t, e), s') \<Longrightarrow>
      backend_ok s' \<and> pend_of s k = e # pend_of s' k \<and> pend_of s' = (pend_of s)(k := pend_of s' k) \<and>
      prog_of s' = (prog_of s)(k := prog_of s k @ [(t, e)]) \<and> (\<forall>j. t \<notin> fst ` set (prog_of s j))"
    using dequeue_some [OF s, of k t e s'] by (simp add: thal_dequeue_any_def)
  show "thal_dequeue_any s = Some (x, s') \<Longrightarrow> stat_of s' = stat_of s"
    using dequeue_some [OF s, of "fst x" "fst (snd x)" "snd (snd x)" s'] by (simp add: thal_dequeue_any_def)
qed

text \<open>A reply changes neither the waiting commands nor those in progress.\<close>

lemma send_wait_reply_lists:
  "send_wait_reply wr_ok q = (r, q') \<Longrightarrow> q_pending q' = q_pending q \<and> q_progress q' = q_progress q"
  by (auto simp: send_wait_reply_def split: if_splits)

lemma sock_reply_laws:
  assumes "backend_ok st"
  shows "backend_ok (snd (sock_reply wr_ok i st))" and "pend_of (snd (sock_reply wr_ok i st)) = pend_of st"
    and "prog_of (snd (sock_reply wr_ok i st)) = prog_of st"
proof -
  have "backend_ok (snd (sock_reply wr_ok i st)) \<and> pend_of (snd (sock_reply wr_ok i st)) = pend_of st \<and>
      prog_of (snd (sock_reply wr_ok i st)) = prog_of st"
  proof (cases "map_of (clients st) i")
    case (Some q)
    obtain r q' where sr: "send_wait_reply wr_ok q = (r, q')"
      by fastforce
    with Some assms send_wait_reply_lists [OF sr] show ?thesis
      by (auto simp: sock_reply_def backend_ok_map pend_of_def prog_of_def queue_simps fun_eq_iff
          split: option.splits if_splits)
  qed (use assms in \<open>simp add: sock_reply_def\<close>)
  then show "backend_ok (snd (sock_reply wr_ok i st))" "pend_of (snd (sock_reply wr_ok i st)) = pend_of st"
      "prog_of (snd (sock_reply wr_ok i st)) = prog_of st"
    by simp_all
qed

lemma sock_enqueue_laws:
  assumes "backend_ok st" and "command e \<noteq> STATUS"
  shows "backend_ok (snd (sock_enqueue wr_ok n e k st))"
    and "pend_of (snd (sock_enqueue wr_ok n e k st)) = (pend_of st)(k := pend_of st k @ [e])"
    and "prog_of (snd (sock_enqueue wr_ok n e k st)) = prog_of st"
  using assms
  by (auto simp: sock_enqueue_def Let_def backend_ok_map pend_of_def prog_of_def queue_simps push_pending_def
      new_sock_queue_def fun_eq_iff split: option.splits if_splits)

interpretation sock: comm_backend "backend_ok :: sock_backend \<Rightarrow> bool" "\<lambda>_ e. command e \<noteq> STATUS"
    pend_of prog_of "\<lambda>k e st. snd (sock_enqueue wr_ok n e k st)" sock_dequeue_any
    "\<lambda>k t r st. snd (sock_set_completion wr_ok k t r st)"
  for wr_ok n
proof
  fix s s' :: sock_backend and e k t r
  assume s: "backend_ok s"
  show "command e \<noteq> STATUS \<Longrightarrow> backend_ok (snd (sock_enqueue wr_ok n e k s)) \<and>
      pend_of (snd (sock_enqueue wr_ok n e k s)) = (pend_of s)(k := pend_of s k @ [e]) \<and>
      prog_of (snd (sock_enqueue wr_ok n e k s)) = prog_of s"
    using sock_enqueue_laws [OF s] by simp
  show "sock_dequeue_any s = None \<longleftrightarrow> (\<forall>k. pend_of s k = [])"
    using dequeue_none [OF s] by (simp add: sock_dequeue_any_def)
  show "sock_dequeue_any s = Some ((k, t, e), s') \<Longrightarrow>
      backend_ok s' \<and> pend_of s k = e # pend_of s' k \<and> pend_of s' = (pend_of s)(k := pend_of s' k) \<and>
      prog_of s' = (prog_of s)(k := prog_of s k @ [(t, e)]) \<and> (\<forall>j. t \<notin> fst ` set (prog_of s j))"
    using dequeue_some [OF s, of k t e s'] by (simp add: sock_dequeue_any_def)
  show "backend_ok (snd (sock_set_completion wr_ok k t r s)) \<and>
      pend_of (snd (sock_set_completion wr_ok k t r s)) = pend_of s \<and>
      prog_of (snd (sock_set_completion wr_ok k t r s)) =
        (prog_of s)(k := filter (\<lambda>x. fst x \<noteq> t) (prog_of s k))"
    unfolding sock_set_completion_def
    using sock_reply_laws [OF finish_laws(1) [OF s, where k = k and t = t and r = r]]
      finish_laws(2,3) [OF s, where k = k and t = t and r = r] by simp
qed

section \<open>The status of a batch\<close>

text \<open>
  However the completions are ordered, a batch that contains a failure has its smallest result
  as status, and a batch without one its greatest.
\<close>

lemma Min_negative: "\<exists>r \<in> set rs. r < 0 \<Longrightarrow> Min (set rs) < 0" for rs :: "int list"
  by (meson List.finite_set Min_le le_less_trans)

lemma combine_neg: "a < 0 \<Longrightarrow> fold (\<lambda>r a. combine_status a r) rs a = Min (insert a (set rs))"
proof (induction rs arbitrary: a)
  case (Cons r rs)
  have "combine_status a r = min a r" "min a r < 0"
    using Cons.prems by (auto simp: combine_status_def)
  then show ?case
    using Cons.IH [of "min a r"] by (cases "rs = []") (simp_all add: min.assoc)
qed simp

lemma combine_all_pos:
  "0 \<le> a \<Longrightarrow> \<forall>r \<in> set rs. 0 \<le> r \<Longrightarrow> fold (\<lambda>r a. combine_status a r) rs a = Max (insert a (set rs))"
proof (induction rs arbitrary: a)
  case (Cons r rs)
  have "combine_status a r = max a r" "0 \<le> max a r"
    using Cons.prems by (auto simp: combine_status_def)
  then show ?case
    using Cons.IH [of "max a r"] Cons.prems(2) by (cases "rs = []") (simp_all add: max.assoc)
qed simp

lemma combine_has_neg:
  "0 \<le> a \<Longrightarrow> \<exists>r \<in> set rs. r < 0 \<Longrightarrow> fold (\<lambda>r a. combine_status a r) rs a = Min (set rs)"
proof (induction rs arbitrary: a)
  case (Cons r rs)
  show ?case
  proof (cases "r < 0")
    case True
    then have "combine_status a r = r"
      using Cons.prems by (simp add: combine_status_def)
    then show ?thesis
      using combine_neg [OF True] by simp
  next
    case False
    then have c: "combine_status a r = max a r" "0 \<le> max a r" "\<exists>r \<in> set rs. r < 0"
      using Cons.prems by (auto simp: combine_status_def)
    then have "fold (\<lambda>r a. combine_status a r) rs (max a r) = Min (set rs)"
      by (intro Cons.IH) auto
    moreover have "Min (set rs) < 0" "set rs \<noteq> {}"
      using c(3) Min_negative by auto
    then have "Min (set (r # rs)) = min r (Min (set rs))" "min r (Min (set rs)) = Min (set rs)"
      using False by (simp, linarith)
    ultimately show ?thesis
      using c(1) by simp
  qed
qed simp

lemma combine_success_iff: "fold (\<lambda>r a. combine_status a r) rs VELOC_SUCCESS = VELOC_SUCCESS \<longleftrightarrow> (\<forall>r \<in> set rs. r = 0)"
proof (cases "\<exists>r \<in> set rs. r < 0")
  case True
  then have "fold (\<lambda>r a. combine_status a r) rs VELOC_SUCCESS \<noteq> VELOC_SUCCESS"
    using combine_has_neg [of VELOC_SUCCESS rs] Min_negative [of rs] by simp
  moreover have "\<not> (\<forall>r \<in> set rs. r = 0)"
    using True by (metis less_irrefl)
  ultimately show ?thesis by blast
next
  case False
  then have pos: "\<forall>r \<in> set rs. 0 \<le> r"
    by (simp add: not_less)
  then have eq: "fold (\<lambda>r a. combine_status a r) rs VELOC_SUCCESS = Max (insert 0 (set rs))"
    by (intro combine_all_pos) simp_all
  have "r \<le> Max (insert 0 (set rs))" if "r \<in> set rs" for r
    using that by (intro Max_ge) simp_all
  moreover have "Max (insert 0 (set rs)) \<in> insert 0 (set rs)"
    by (intro Max_in) simp_all
  ultimately show ?thesis
    unfolding eq using pos by (metis antisym insertE)
qed

section \<open>Waking the backend\<close>

text \<open>
  \<^verbatim>\<open>dequeue_any\<close> scans the queues and, when all are empty, waits on a condition variable; a
  producer, once it has joined under that lock, pushes its command and then signals. The scan and the wait are two steps. With
  sockets and RPC the producer needs the lock that the consumer holds between them; in
  shared memory it takes the lock of its own queue only. \<open>one_lock\<close> says which.
\<close>

datatype consumer = Scanning | About_to_wait | Sleeping

record wakeup =
  consumer :: consumer
  seg :: "client_queue backend"
  signals :: nat

inductive wake_step :: "bool \<Rightarrow> wakeup \<Rightarrow> wakeup \<Rightarrow> bool" for one_lock where
  found: "consumer w = Scanning \<Longrightarrow> ipc_dequeue_any (seg w) = Some (x, s') \<Longrightarrow>
    wake_step one_lock w (w\<lparr>seg := s'\<rparr>)"
| empty: "consumer w = Scanning \<Longrightarrow> ipc_dequeue_any (seg w) = None \<Longrightarrow>
    wake_step one_lock w (w\<lparr>consumer := About_to_wait\<rparr>)"
| wait: "consumer w = About_to_wait \<Longrightarrow> wake_step one_lock w (w\<lparr>consumer := Sleeping\<rparr>)"
| join: "consumer w \<noteq> About_to_wait \<Longrightarrow> wake_step one_lock w (w\<lparr>seg := ipc_attach n i (seg w)\<rparr>)"
| push: "\<not> (one_lock \<and> consumer w = About_to_wait) \<Longrightarrow>
    wake_step one_lock w (w\<lparr>seg := ipc_enqueue i e (seg w), signals := Suc (signals w)\<rparr>)"
| signal: "signals w = Suc m \<Longrightarrow>
    wake_step one_lock w (w\<lparr>consumer := (if consumer w = Sleeping then Scanning else consumer w), signals := m\<rparr>)"

inductive_cases wake_stepE: "wake_step one_lock w w'"

inductive wake_reach :: "bool \<Rightarrow> wakeup \<Rightarrow> wakeup \<Rightarrow> bool" for one_lock where
  wr_refl: "wake_reach one_lock w w"
| wr_step: "wake_reach one_lock w w' \<Longrightarrow> wake_step one_lock w' w'' \<Longrightarrow> wake_reach one_lock w w''"

definition wake_init :: wakeup where
  "wake_init = \<lparr>consumer = Scanning, seg = \<lparr>clients = [], next_it = 0\<rparr>, signals = 0\<rparr>"

text \<open>The consumer is asleep, a command waits, and no signal is on its way.\<close>

definition lost :: "wakeup \<Rightarrow> bool" where
  "lost w \<longleftrightarrow> consumer w = Sleeping \<and> ipc_dequeue_any (seg w) \<noteq> None \<and> signals w = 0"

definition wake_inv :: "wakeup \<Rightarrow> bool" where
  "wake_inv w \<longleftrightarrow>
     (consumer w = About_to_wait \<longrightarrow> ipc_dequeue_any (seg w) = None) \<and>
     (consumer w = Sleeping \<and> ipc_dequeue_any (seg w) \<noteq> None \<longrightarrow> 0 < signals w)"

lemma ipc_attach_dequeue: "ipc_dequeue_any (ipc_attach n i s) = None \<longleftrightarrow> ipc_dequeue_any s = None"
proof -
  have find: "find_non_empty_pending (xs @ ys) = None \<longleftrightarrow>
      find_non_empty_pending xs = None \<and> find_non_empty_pending ys = None" for xs ys :: "(int \<times> client_queue) list"
    by (induction xs rule: find_non_empty_pending.induct) auto
  have "find_non_empty_pending (clients s) = None \<longleftrightarrow>
      find_non_empty_pending (take n (clients s)) = None \<and> find_non_empty_pending (drop n (clients s)) = None"
    using find [of "take n (clients s)" "drop n (clients s)"] by simp
  then have "find_non_empty_pending (clients (ipc_attach n i s)) = None \<longleftrightarrow> find_non_empty_pending (clients s) = None"
    by (simp add: ipc_attach_def attach_def find new_queue_def)
  then show ?thesis
    by (auto simp: ipc_dequeue_any_def dequeue_front_def split: option.splits)
qed

lemma wake_inv_step: "wake_step True w w' \<Longrightarrow> wake_inv w \<Longrightarrow> wake_inv w'"
  by (erule wake_stepE) (auto simp: wake_inv_def ipc_attach_dequeue)

lemma wake_inv_reach: "wake_reach True w w' \<Longrightarrow> wake_inv w \<Longrightarrow> wake_inv w'"
  by (induction rule: wake_reach.induct) (auto intro: wake_inv_step)

lemma lost_only_push:
  "lost w \<Longrightarrow> Collect (wake_step one_lock w) \<subseteq>
     range (\<lambda>(n, i). w\<lparr>seg := ipc_attach n i (seg w)\<rparr>) \<union>
     range (\<lambda>(i, e). w\<lparr>seg := ipc_enqueue i e (seg w), signals := 1\<rparr>)"
  by (auto simp: lost_def image_iff elim!: wake_stepE) (metis (mono_tags))+

section \<open>Properties\<close>

text \<open>
  C11: whatever the interleaving of clients, main loop and workers on the shared-memory queue,
  every client's commands are handed out in the order it enqueued them, none twice and none
  lost; only commands that were handed out are in progress, and the main loop blocks only when
  no client has a waiting command.
\<close>

theorem ipc_fifo:
  assumes "fold (qstep (\<lambda>k e st. ipc_enqueue k e (ipc_attach n k st)) ipc_dequeue_any ipc_set_completion prog_of)
      ops (\<lparr>clients = [], next_it = 0\<rparr>, [], [], []) = (st, ins, outs, rs)"
  shows "of_client k ins = of_client k outs @ pend_of st k \<and>
    set (map snd (prog_of st k)) \<subseteq> set (of_client k outs) \<and>
    (ipc_dequeue_any st = None \<longleftrightarrow> (\<forall>j. pend_of st j = []))"
proof (rule ipc.fifo [OF _ _ _ _ assms])
  show "\<forall>p \<in> set ops. is_input (\<lambda>_ _. True) p"
  proof
    show "is_input (\<lambda>_ _. True) p" for p by (cases p) simp_all
  qed
qed (simp_all add: backend_ok_def pend_of_def prog_of_def fun_eq_iff)

definition sample_ops :: "qop list" where
  "sample_ops = [Enq 1 (sample_command\<lparr>unique_id := 1\<rparr>), Enq 2 (sample_command\<lparr>unique_id := 2\<rparr>), Deq, Deq,
     Fin 1 0 0, Fin 2 1 (- 1), Enq 1 (sample_command\<lparr>unique_id := 1, version := 13\<rparr>), Deq]"

theorem ipc_fifo_witness:
  "case fold (qstep (\<lambda>k e st. ipc_enqueue k e (ipc_attach 0 k st)) ipc_dequeue_any ipc_set_completion prog_of)
      sample_ops (\<lparr>clients = [], next_it = 0\<rparr>, [], [], []) of
     (st, ins, outs, rs) \<Rightarrow> of_client 1 ins = of_client 1 outs @ pend_of st 1"
proof -
  obtain st ins outs rs where run: "fold (qstep (\<lambda>k e st. ipc_enqueue k e (ipc_attach 0 k st)) ipc_dequeue_any
      ipc_set_completion prog_of) sample_ops (\<lparr>clients = [], next_it = 0\<rparr>, [], [], []) = (st, ins, outs, rs)"
    by (rule prod_cases4)
  show ?thesis
    unfolding run using ipc_fifo [OF run, of 1] by simp
qed

text \<open>
  The same order and completeness on the socket queue, where completions also send replies,
  for any sequence of commands, hand-outs and completions and any failing reply.
\<close>

lemma sock_fifo:
  assumes "\<forall>p \<in> set ops. is_input (\<lambda>_ e. command e \<noteq> STATUS) p"
    and "fold (qstep (\<lambda>k e st. snd (sock_enqueue wr_ok n e k st)) sock_dequeue_any
      (\<lambda>k t r st. snd (sock_set_completion wr_ok k t r st)) prog_of)
      ops (\<lparr>clients = [], next_it = 0, sent = []\<rparr>, [], [], []) = (st, ins, outs, rs)"
  shows "of_client k ins = of_client k outs @ pend_of st k \<and>
    set (map snd (prog_of st k)) \<subseteq> set (of_client k outs) \<and>
    (sock_dequeue_any st = None \<longleftrightarrow> (\<forall>j. pend_of st j = []))"
  by (rule sock.fifo [OF _ _ _ assms]) (simp_all add: backend_ok_def pend_of_def prog_of_def fun_eq_iff)

text \<open>
  C12: what \<^verbatim>\<open>wait_completion\<close> of the shared-memory queue returns when it returns: success exactly
  when every command of the client that was completed succeeded, however the workers ordered
  their completions; and the client has nothing waiting or in progress.
\<close>

theorem ipc_wait_reports_all_results:
  assumes "fold (qstep (\<lambda>k e st. ipc_enqueue k e (ipc_attach n k st)) ipc_dequeue_any ipc_set_completion prog_of)
      ops (\<lparr>clients = [], next_it = 0\<rparr>, [], [], []) = (st, ins, outs, rs)"
    and "ipc_wait_completion k reset st = Some (v, st')"
  shows "(v = VELOC_SUCCESS \<longleftrightarrow> (\<forall>r \<in> set (of_client k rs). r = VELOC_SUCCESS)) \<and>
    pend_of st k = [] \<and> prog_of st k = [] \<and> stat_of st' k = (if reset then VELOC_SUCCESS else v)"
proof -
  have "is_input (\<lambda>_ _. True) p" for p
    by (cases p) simp_all
  then have "stat_of st k = fold (\<lambda>r a. combine_status a r) (of_client k rs) VELOC_SUCCESS"
    using ipc.status_collects [OF _ _ _ assms(1), of VELOC_SUCCESS]
    by (simp add: backend_ok_def stat_of_def)
  moreover obtain q where "map_of (clients st) k = Some q" "idle q" "v = q_status q"
      "st' = (if reset then st\<lparr>clients := at_client k (q_status_update (\<lambda>_. VELOC_SUCCESS)) (clients st)\<rparr> else st)"
    using assms(2) by (auto simp: ipc_wait_completion_def split: option.splits if_splits)
  ultimately show ?thesis
    using combine_success_iff [of "of_client k rs"]
    by (simp add: stat_of_def pend_of_def prog_of_def idle_def queue_simps)
qed

theorem ipc_wait_reports_all_results_witness:
  "case fold (qstep (\<lambda>k e st. ipc_enqueue k e (ipc_attach 5 k st)) ipc_dequeue_any ipc_set_completion prog_of)
      (take 6 sample_ops) (\<lparr>clients = [], next_it = 0\<rparr>, [], [], []) of
     (st, ins, outs, rs) \<Rightarrow>
       (\<exists>st'. ipc_wait_completion 2 True st = Some (- 1, st') \<and> stat_of st' 2 = VELOC_SUCCESS)"
proof -
  let ?run = "fold (qstep (\<lambda>k e st. ipc_enqueue k e (ipc_attach 5 k st)) ipc_dequeue_any ipc_set_completion prog_of)
      (take 6 sample_ops) (\<lparr>clients = [], next_it = 0\<rparr>, [], [], [])"
  obtain st ins outs rs where run: "?run = (st, ins, outs, rs)"
    by (rule prod_cases4)
  have "map_option fst (ipc_wait_completion 2 True (fst ?run)) = Some (- 1)"
    by code_simp
  then obtain st' where "ipc_wait_completion 2 True st = Some (- 1, st')"
    using run by auto
  with ipc_wait_reports_all_results [OF run this] show ?thesis
    unfolding run by auto
qed



text \<open>
  C14: in shared memory the signal can be lost: a state is reachable in which the main loop
  sleeps, a command waits, and the only steps are new clients joining and a further
  \<^verbatim>\<open>enqueue\<close>.
\<close>

theorem ipc_wakeup_can_be_lost:
  "\<exists>w. wake_reach False wake_init w \<and> lost w \<and>
     Collect (wake_step False w) \<subseteq>
       range (\<lambda>(n, i). w\<lparr>seg := ipc_attach n i (seg w)\<rparr>) \<union>
       range (\<lambda>(i, e). w\<lparr>seg := ipc_enqueue i e (seg w), signals := 1\<rparr>)"
proof -
  let ?w0 = "wake_init\<lparr>seg := ipc_attach 0 1 (seg wake_init)\<rparr>"
  let ?s = "ipc_enqueue 1 sample_command (seg ?w0)"
  let ?w1 = "?w0\<lparr>consumer := About_to_wait\<rparr>"
  let ?w2 = "?w0\<lparr>consumer := About_to_wait, seg := ?s, signals := 1\<rparr>"
  let ?w3 = "?w0\<lparr>consumer := About_to_wait, seg := ?s\<rparr>"
  let ?w4 = "?w0\<lparr>seg := ?s, consumer := Sleeping\<rparr>"
  have 0: "wake_step False wake_init ?w0"
    by (rule wake_step.join) (simp add: wake_init_def)
  have "ipc_dequeue_any (seg ?w0) = None"
    unfolding wake_init_def by code_simp
  then have 1: "wake_step False ?w0 ?w1"
    by (intro wake_step.empty) (simp_all add: wake_init_def)
  have 2: "wake_step False ?w1 ?w2"
    using wake_step.push [of False ?w1 1 sample_command] by (simp add: wake_init_def)
  have 3: "wake_step False ?w2 ?w3"
    using wake_step.signal [of ?w2 0 False] by (simp add: wake_init_def)
  have 4: "wake_step False ?w3 ?w4"
    using wake_step.wait [of ?w3 False] by simp
  have "wake_reach False wake_init ?w4"
    by (rule wr_step [OF wr_step [OF wr_step [OF wr_step [OF wr_step [OF wr_refl 0] 1] 2] 3] 4])
  moreover have "lost ?w4"
    by (simp add: lost_def wake_init_def ipc_dequeue_any_def dequeue_front_def ipc_enqueue_def ipc_attach_def
        attach_def at_client_def push_pending_def)
  ultimately show ?thesis
    by (intro exI [of _ ?w4] conjI lost_only_push)
qed

text \<open>
  C15: the poll of the RPC queue resets the status even when commands are outstanding, so a
  failure that was recorded before is forgotten: \<^verbatim>\<open>wait_completion\<close> returns success although a
  command of the client failed, as soon as the rest succeeds.
\<close>

theorem thallium_wait_forgets_failures:
  assumes "map_of (clients st) i = Some q" and "q_pending q = []" and "q_progress q = [(t, e)]"
    and "q_status q < 0"
  shows "\<exists>st'. thal_wait_completion k i True [thal_set_completion i t VELOC_SUCCESS] st = Some (VELOC_SUCCESS, st')"
proof -
  let ?st1 = "st\<lparr>clients := at_client i (q_status_update (\<lambda>_. VELOC_SUCCESS)) (clients st)\<rparr>"
  let ?st2 = "thal_set_completion i t VELOC_SUCCESS ?st1"
  have p1: "thal_poll k i True st = ((1, q_status q), ?st1)"
    using assms(1-3) by (simp add: thal_poll_def attach_def)
  have "map_of (clients ?st2) i = Some (finish t VELOC_SUCCESS (q\<lparr>q_status := VELOC_SUCCESS\<rparr>))"
    using assms(1) by (simp add: thal_set_completion_def queue_simps)
  moreover have "finish t VELOC_SUCCESS (q\<lparr>q_status := VELOC_SUCCESS\<rparr>) = q\<lparr>q_status := VELOC_SUCCESS, q_progress := []\<rparr>"
    using assms(3) by (simp add: finish_def combine_status_def)
  ultimately have "fst (thal_poll k i True ?st2) = (0, VELOC_SUCCESS)"
    using assms(2) by (simp add: thal_poll_def attach_def)
  then obtain st' where p2: "thal_poll k i True ?st2 = ((0, VELOC_SUCCESS), st')"
    by (metis prod.collapse)
  have "thal_wait_completion k i True [thal_set_completion i t VELOC_SUCCESS] st =
      thal_wait_completion k i True [] ?st2"
    by (subst thal_wait_completion.simps) (simp add: p1)
  also have "\<dots> = Some (VELOC_SUCCESS, st')"
    by (subst thal_wait_completion.simps) (simp add: p2)
  finally show ?thesis by blast
qed

theorem thallium_wait_forgets_failures_witness:
  "\<exists>st'. thal_wait_completion 0 1 True [thal_set_completion 1 5 VELOC_SUCCESS]
     \<lparr>clients = [(1, \<lparr>q_status = VELOC_FAILURE, q_pending = [], q_progress = [(5, sample_command)]\<rparr>)], next_it = 6\<rparr> =
     Some (VELOC_SUCCESS, st')"
  by (rule thallium_wait_forgets_failures [where e = sample_command and
        q = "\<lparr>q_status = VELOC_FAILURE, q_pending = [], q_progress = [(5, sample_command)]\<rparr>"]) simp_all

text \<open>
  The guard of the connection table compares with the wrong bound: it never rejects a
  client, and the first client beyond the table is written past its end.
\<close>

lemma socket_table_overflow:
  assumes "length fds = MAX_CLIENTS" and "- 1 \<notin> set fds"
  shows "add_client fds client = Inl Undefined"
proof -
  have "takeWhile (\<lambda>f. f \<noteq> - 1) fds = fds"
    using assms(2) by (auto simp: takeWhile_eq_all_conv)
  then have "length (takeWhile (\<lambda>f. f \<noteq> - 1) fds) = MAX_CLIENTS"
    by (simp only: assms(1))
  then show ?thesis
    by (simp add: add_client_def Let_def)
qed

lemma socket_table_overflow_witness: "add_client (replicate 256 7) 8 = Inl Undefined"
  using socket_table_overflow [of "replicate 256 7" 8] by simp

end
