(* ===== verification/Work_Queue.thy ===== *)
theory Work_Queue
  imports Module_Manager Comm_Queue
begin

text \<open>
  \<^verbatim>\<open>start_main_loop\<close> of \<^verbatim>\<open>src/src/backend/work_queue.cpp\<close>: the loop that takes commands from the
  queue and runs each in a thread of its own, at most \<^verbatim>\<open>max_parallelism\<close> at a time. The threads
  are interleaved module by module: a call of one module is one step on the state all modules
  share. \<^verbatim>\<open>FATAL\<close> ends the process; any other exception ends in the future of the thread, which
  the loop waits for but never reads. A module that does not return keeps its thread for ever;
  the threads that wait for each other in the aggregator are the subject of \<open>Client_Aggregator\<close>.
\<close>

section \<open>The main loop and its threads\<close>

datatype 's future = Running "'s method_t list" int | Hung | Ready

type_synonym 's work = "int \<times> nat \<times> command_t \<times> 's future"

record 's server =
  sv_queue :: "client_queue backend"
  work_queue :: "'s work list"
  sv_waits :: bool
  sv_dead :: bool
  sv_state :: 's

definition loop_parallelism :: "int \<Rightarrow> 'x config \<Rightarrow> int" where
  "loop_parallelism hardware_concurrency cfg =
     (case get_optional_uint cfg ''max_parallelism'' of None \<Rightarrow> hardware_concurrency | Some n \<Rightarrow> n)"

text \<open>The state the loop starts with; the constructors of the modules may end the process.\<close>

definition start_main_loop ::
    "'x mod_env \<Rightarrow> int \<Rightarrow> 'x config \<Rightarrow> (int \<times> int) option \<Rightarrow> 'x fsys_scheme \<Rightarrow> 'x modules server res \<times> 'x fsys_scheme" where
  "start_main_loop env hardware_concurrency cfg comm fs =
     (case add_default env hardware_concurrency cfg comm fs of
        (r, fs') \<Rightarrow>
          (map_sum id (\<lambda>s. \<lparr>sv_queue = \<lparr>clients = [], next_it = 0\<rparr>, work_queue = [], sv_waits = False,
             sv_dead = False, sv_state = s\<rparr>) r, fs'))"

text \<open>
  The steps. \<open>dispatch\<close> is the body of the loop up to the test of the size, \<open>reap\<close> the wait for
  the oldest thread; the next four are a thread calling its next module; \<open>complete\<close> is the call
  of the completion function with the result. \<open>attach\<close> and \<open>send\<close> are the clients' side.
\<close>

inductive server_step :: "'s method_t list \<Rightarrow> int \<Rightarrow> 's server \<Rightarrow> 's server \<Rightarrow> bool"
  for modules max_parallelism where
  dispatch: "\<not> sv_dead S \<Longrightarrow> \<not> sv_waits S \<Longrightarrow> ipc_dequeue_any (sv_queue S) = Some ((i, t, c), q) \<Longrightarrow>
     server_step modules max_parallelism S
       (S\<lparr>sv_queue := q, work_queue := work_queue S @ [(i, t, c, Running modules VELOC_IGNORED)],
          sv_waits := (max_parallelism \<le> int (length (work_queue S)) + 1)\<rparr>)"
| reap: "\<not> sv_dead S \<Longrightarrow> sv_waits S \<Longrightarrow> work_queue S = (i, t, c, Ready) # ws \<Longrightarrow>
     server_step modules max_parallelism S (S\<lparr>work_queue := ws, sv_waits := False\<rparr>)"
| module: "\<not> sv_dead S \<Longrightarrow> work_queue S = ws @ (i, t, c, Running (f # fs) ret) # ws' \<Longrightarrow> f c (sv_state S) = (Ok r, s) \<Longrightarrow>
     server_step modules max_parallelism S
       (S\<lparr>work_queue := ws @ (i, t, c, if r = VELOC_FAILURE then Running [] VELOC_FAILURE else Running fs (max ret r)) # ws',
          sv_state := s\<rparr>)"
| raise: "\<not> sv_dead S \<Longrightarrow> work_queue S = ws @ (i, t, c, Running (f # fs) ret) # ws' \<Longrightarrow> f c (sv_state S) = (Throws e, s) \<Longrightarrow>
     e \<noteq> Fatal \<Longrightarrow> server_step modules max_parallelism S (S\<lparr>work_queue := ws @ (i, t, c, Ready) # ws', sv_state := s\<rparr>)"
| exits: "\<not> sv_dead S \<Longrightarrow> work_queue S = ws @ (i, t, c, Running (f # fs) ret) # ws' \<Longrightarrow> f c (sv_state S) = (Throws Fatal, s) \<Longrightarrow>
     server_step modules max_parallelism S (S\<lparr>sv_state := s, sv_dead := True\<rparr>)"
| hangs: "\<not> sv_dead S \<Longrightarrow> work_queue S = ws @ (i, t, c, Running (f # fs) ret) # ws' \<Longrightarrow> f c (sv_state S) = (Diverges, s) \<Longrightarrow>
     server_step modules max_parallelism S (S\<lparr>work_queue := ws @ (i, t, c, Hung) # ws', sv_state := s\<rparr>)"
| complete: "\<not> sv_dead S \<Longrightarrow> work_queue S = ws @ (i, t, c, Running [] ret) # ws' \<Longrightarrow>
     server_step modules max_parallelism S
       (S\<lparr>sv_queue := ipc_set_completion i t ret (sv_queue S), work_queue := ws @ (i, t, c, Ready) # ws'\<rparr>)"
| attach: "server_step modules max_parallelism S (S\<lparr>sv_queue := ipc_attach k i (sv_queue S)\<rparr>)"
| send: "server_step modules max_parallelism S (S\<lparr>sv_queue := ipc_enqueue i c (sv_queue S)\<rparr>)"

abbreviation server_reach :: "'s method_t list \<Rightarrow> int \<Rightarrow> 's server \<Rightarrow> 's server \<Rightarrow> bool" where
  "server_reach modules n \<equiv> rtranclp (server_step modules n)"

definition fresh_server :: "'s server \<Rightarrow> bool" where
  "fresh_server S \<longleftrightarrow> backend_ok (sv_queue S) \<and> work_queue S = [] \<and> \<not> sv_waits S \<and> \<not> sv_dead S"

definition is_ready :: "'s work \<Rightarrow> bool" where
  [simp]: "is_ready w \<longleftrightarrow> snd (snd (snd w)) = Ready"

section \<open>The bound on the threads\<close>

definition bounded :: "int \<Rightarrow> 's server \<Rightarrow> bool" where
  "bounded n S \<longleftrightarrow> int (length (work_queue S)) \<le> (if sv_waits S then max 1 n else max 1 n - 1)"

lemma bounded_step: "server_step ms n S S' \<Longrightarrow> bounded n S \<Longrightarrow> bounded n S'"
  by (induction rule: server_step.induct) (auto simp: bounded_def split: if_splits)

text \<open>
  C33: never more than \<^verbatim>\<open>max_parallelism\<close> commands are being worked on at once, or one when the
  parameter is 0, in any interleaving of the loop, its threads and the clients.
\<close>

theorem parallelism_bounded:
  assumes "fresh_server S0" and "server_reach modules n S0 S"
  shows "int (length (filter (\<lambda>w. \<not> is_ready w) (work_queue S))) \<le> max 1 n"
proof -
  have "bounded n S"
    using assms(2,1) by (induction rule: rtranclp_induct) (auto simp: bounded_step, auto simp: bounded_def fresh_server_def)
  then have "int (length (work_queue S)) \<le> max 1 n"
    by (auto simp: bounded_def split: if_splits)
  then show ?thesis
    by (rule order_trans [OF of_nat_mono [OF length_filter_le]])
qed

section \<open>Simulations\<close>

text \<open>
  What it takes to refine a step relation: every step from related states into a state that is
  \<open>ok\<close> is matched by one step or none. Reachable states are then related to reachable ones.
\<close>

locale forward_simulation =
  fixes step :: "'c \<Rightarrow> 'c \<Rightarrow> bool" and astep :: "'a \<Rightarrow> 'a \<Rightarrow> bool" and rel :: "'c \<Rightarrow> 'a \<Rightarrow> bool" and ok :: "'c \<Rightarrow> bool"
  assumes step_sim: "step s s' \<Longrightarrow> rel s a \<Longrightarrow> ok s' \<Longrightarrow> \<exists>a'. rel s' a' \<and> (a' = a \<or> astep a a')"
    and ok_before: "step s s' \<Longrightarrow> ok s' \<Longrightarrow> ok s"
begin

lemma reach_sim:
  assumes "rtranclp step s s'" and "rel s a" and "ok s'"
  shows "\<exists>a'. rel s' a' \<and> rtranclp astep a a'"
  using assms
proof (induction rule: rtranclp_induct)
  case (step s1 s2)
  then obtain a1 where "rel s1 a1" "rtranclp astep a a1"
    using ok_before by blast
  with step_sim [OF step.hyps(2) this(1) step.prems(2)] show ?case
    by (metis rtranclp.rtrancl_into_rtrancl)
qed auto

end

section \<open>One thread at a time\<close>

text \<open>
  The serial server: it takes a command, runs it through the whole chain of modules at once and
  reports the result, before it takes the next.
\<close>

type_synonym 's serial = "client_queue backend \<times> 's \<times> (int \<times> nat \<times> command_t) option"

inductive serial_step :: "'s method_t list \<Rightarrow> 's serial \<Rightarrow> 's serial \<Rightarrow> bool" for modules where
  take: "ipc_dequeue_any q = Some (x, q') \<Longrightarrow> serial_step modules (q, s, None) (q', s, Some x)"
| run: "notify_command modules c s = (Ok r, s') \<Longrightarrow>
     serial_step modules (q, s, Some (i, t, c)) (ipc_set_completion i t r q, s', None)"
| fail: "notify_command modules c s = (Throws e, s') \<Longrightarrow> e \<noteq> Fatal \<Longrightarrow>
     serial_step modules (q, s, Some (i, t, c)) (q, s', None)"
| client_attach: "serial_step modules (q, s, b) (ipc_attach k i q, s, b)"
| client_send: "serial_step modules (q, s, b) (ipc_enqueue i c q, s, b)"

text \<open>
  The simulation: between two commands the serial server is in the same state; while a command
  runs it still has the state before the command, and what is left of the chain leads where the
  whole chain leads.
\<close>

fun simulates :: "'s method_t list \<Rightarrow> 's server \<Rightarrow> 's serial \<Rightarrow> bool" where
  "simulates modules S (q, s, None) \<longleftrightarrow>
     q = sv_queue S \<and> s = sv_state S \<and> (sv_waits S \<longleftrightarrow> work_queue S \<noteq> []) \<and>
     (work_queue S = [] \<or> (\<exists>w. work_queue S = [w] \<and> is_ready w))"
| "simulates modules S (q, s, Some (i, t, c)) \<longleftrightarrow>
     q = sv_queue S \<and> sv_waits S \<and>
     ((\<exists>todo ret. work_queue S = [(i, t, c, Running todo ret)] \<and>
         notify_command modules c s = notify_loop ret todo c (sv_state S)) \<or>
      work_queue S = [(i, t, c, Hung)])"

lemma work_single: "ws @ w' # ws' = [w] \<longleftrightarrow> ws = [] \<and> w' = w \<and> ws' = []"
  by (cases ws) auto

lemma simulates_queue:
  "simulates modules S (q, s, b) \<Longrightarrow> q = sv_queue S \<and> simulates modules (S\<lparr>sv_queue := q'\<rparr>) (q', s, b)"
  by (cases b) auto

lemma simulates_running:
  assumes "simulates modules S a" and "work_queue S = ws @ (i, t, c, Running todo ret) # ws'"
  obtains s where "a = (sv_queue S, s, Some (i, t, c))" and "sv_waits S" and "ws = []" and "ws' = []"
    and "notify_command modules c s = notify_loop ret todo c (sv_state S)"
  using assms by (cases "(modules, S, a)" rule: simulates.cases) (auto simp: work_single)

lemma simulates_ready:
  assumes "simulates modules S a" and "\<not> sv_waits S \<or> work_queue S = (i, t, c, Ready) # ws"
  shows "a = (sv_queue S, sv_state S, None)" and "sv_waits S \<Longrightarrow> ws = []" and "\<not> sv_waits S \<Longrightarrow> work_queue S = []"
  using assms by (cases "(modules, S, a)" rule: simulates.cases; auto)+

lemma simulation_step:
  assumes "server_step modules n S S'" and "n \<le> 1" and "simulates modules S a" and "\<not> sv_dead S'"
  shows "\<exists>a'. simulates modules S' a' \<and> (a' = a \<or> serial_step modules a a')"
  using assms(1)
proof cases
  case (dispatch i t c q)
  note a = simulates_ready(1,3) [OF assms(3) disjI1 [OF dispatch(3)]]
  have "simulates modules S' (q, sv_state S, Some (i, t, c))"
    using dispatch assms(2) a by (simp add: notify_command_def)
  moreover have "serial_step modules a (q, sv_state S, Some (i, t, c))"
    unfolding a(1) by (rule take [OF dispatch(4)])
  ultimately show ?thesis by metis
next
  case (reap i t c ws)
  note a = simulates_ready(1,2) [OF assms(3) disjI2 [OF reap(4)]]
  have "simulates modules S' a"
    using reap a by simp
  then show ?thesis by blast
next
  case (module ws i t c f fs ret ws' r s)
  from simulates_running [OF assms(3) module(3)] obtain s0 where
    "a = (sv_queue S, s0, Some (i, t, c))" "sv_waits S" "ws = []" "ws' = []"
    "notify_command modules c s0 = notify_loop ret (f # fs) c (sv_state S)" .
  then show ?thesis
    using module by (intro exI [of _ a]) auto
next
  case (raise ws i t c f fs ret ws' e s)
  from simulates_running [OF assms(3) raise(3)] obtain s0 where a:
    "a = (sv_queue S, s0, Some (i, t, c))" "sv_waits S" "ws = []" "ws' = []"
    "notify_command modules c s0 = notify_loop ret (f # fs) c (sv_state S)" .
  then have "notify_command modules c s0 = (Throws e, s)"
    using raise by simp
  then show ?thesis
    using raise a by (intro exI [of _ "(sv_queue S, s, None)"] conjI disjI2) (auto intro: fail)
next
  case (hangs ws i t c f fs ret ws' s)
  from simulates_running [OF assms(3) hangs(3)] obtain s0 where
    "a = (sv_queue S, s0, Some (i, t, c))" "sv_waits S" "ws = []" "ws' = []" .
  then show ?thesis
    using hangs by (intro exI [of _ a]) auto
next
  case (complete ws i t c ret ws')
  from simulates_running [OF assms(3) complete(3)] obtain s0 where a:
    "a = (sv_queue S, s0, Some (i, t, c))" "sv_waits S" "ws = []" "ws' = []"
    "notify_command modules c s0 = notify_loop ret [] c (sv_state S)" .
  then show ?thesis
    using complete
    by (intro exI [of _ "(ipc_set_completion i t ret (sv_queue S), sv_state S, None)"] conjI disjI2) (auto intro: run)
next
  case (attach k i)
  obtain s b where "a = (sv_queue S, s, b)"
    using simulates_queue assms(3) by (cases a) fastforce
  then show ?thesis
    using attach(1) simulates_queue [of modules S _ s b] assms(3) client_attach by metis
next
  case (send i c)
  obtain s b where "a = (sv_queue S, s, b)"
    using simulates_queue assms(3) by (cases a) fastforce
  then show ?thesis
    using send(1) simulates_queue [of modules S _ s b] assms(3) client_send by metis
qed (use assms(4) in auto)

interpretation one_thread: forward_simulation "server_step modules n" "serial_step modules" "simulates modules"
    "\<lambda>S. \<not> sv_dead S \<and> n \<le> 1"
  for modules :: "'s method_t list" and n
proof
  fix S S' :: "'s server" and a
  assume "server_step modules n S S'"
  then show "\<not> sv_dead S' \<and> n \<le> 1 \<Longrightarrow> \<not> sv_dead S \<and> n \<le> 1"
    by (cases rule: server_step.cases) auto
  assume "server_step modules n S S'" "simulates modules S a" "\<not> sv_dead S' \<and> n \<le> 1"
  then show "\<exists>a'. simulates modules S' a' \<and> (a' = a \<or> serial_step modules a a')"
    using simulation_step by blast
qed

text \<open>
  C32: with \<^verbatim>\<open>max_parallelism\<close> at most 1 the threaded main loop refines the serial server: whatever
  the interleaving, whenever no command is being worked on the queue and the state of the
  modules and files are ones that the serial server reaches, in which every command ran through
  the whole chain on its own.
\<close>

theorem one_thread_is_serial:
  assumes "fresh_server S0" and "server_reach modules n S0 S" and "n \<le> 1" and "\<not> sv_dead S"
    and "filter (\<lambda>w. \<not> is_ready w) (work_queue S) = []"
  shows "rtranclp (serial_step modules) (sv_queue S0, sv_state S0, None) (sv_queue S, sv_state S, None)"
proof -
  have "simulates modules S0 (sv_queue S0, sv_state S0, None)"
    using assms(1) by (simp add: fresh_server_def)
  from one_thread.reach_sim [OF assms(2) this] assms(3,4)
  obtain a where a: "simulates modules S a" "rtranclp (serial_step modules) (sv_queue S0, sv_state S0, None) a"
    by blast
  have "a = (sv_queue S, sv_state S, None)"
    using a(1) assms(5) by (cases "(modules, S, a)" rule: simulates.cases) auto
  with a(2) show ?thesis by simp
qed

section \<open>Threads that end with an exception\<close>

lemma queue_frame:
  assumes "backend_ok q"
  shows "backend_ok (ipc_attach k i q)" "prog_of (ipc_attach k i q) = prog_of q" "next_it (ipc_attach k i q) = next_it q"
    and "backend_ok (ipc_enqueue i c q)" "prog_of (ipc_enqueue i c q) = prog_of q" "next_it (ipc_enqueue i c q) = next_it q"
  using assms
  by (auto simp: ipc_attach_def ipc_enqueue_def backend_ok_map prog_of_def queue_simps push_pending_def fun_eq_iff
      simp del: map_of_eq_Some_iff split: option.splits if_splits) blast

lemma completion_frame:
  assumes "backend_ok q"
  shows "backend_ok (ipc_set_completion i t r q)" "next_it (ipc_set_completion i t r q) = next_it q"
    and "prog_of (ipc_set_completion i t r q) = (prog_of q)(i := filter (\<lambda>x. fst x \<noteq> t) (prog_of q i))"
  using finish_laws [OF assms, where k = i and t = t and r = r] by (simp_all add: ipc_set_completion_def)

lemma dequeue_ticket:
  assumes "backend_ok q" and "ipc_dequeue_any q = Some ((i, t, c), q')"
  shows "t = next_it q" and "next_it q' = next_it q + 1" and "backend_ok q'"
    and "prog_of q' = (prog_of q)(i := prog_of q i @ [(t, c)])"
  using dequeue_some [OF assms(1), of i t c q'] assms(2)
  by (auto simp: ipc_dequeue_any_def dequeue_front_def split: option.splits)

abbreviation ticket :: "'s work \<Rightarrow> nat" where
  "ticket w \<equiv> fst (snd w)"

definition in_progress :: "client_queue backend \<Rightarrow> int \<Rightarrow> nat \<Rightarrow> bool" where
  "in_progress q i t \<longleftrightarrow> t \<in> fst ` set (prog_of q i)"

lemma in_progress_completion:
  assumes "backend_ok q"
  shows "in_progress (ipc_set_completion i t r q) j u \<longleftrightarrow> in_progress q j u \<and> (j = i \<longrightarrow> u \<noteq> t)"
proof -
  have "fst ` set (filter (\<lambda>x. fst x \<noteq> t) xs) = fst ` set xs - {t}" for xs :: "(nat \<times> command_t) list"
    by force
  then show ?thesis
    by (simp add: in_progress_def completion_frame [OF assms])
qed

text \<open>Tickets are used once, and the command with ticket \<open>t\<close> of client \<open>i\<close> is in progress without a thread.\<close>

definition tickets_ok :: "'s server \<Rightarrow> bool" where
  "tickets_ok S \<longleftrightarrow> backend_ok (sv_queue S) \<and> distinct (map ticket (work_queue S)) \<and>
     (\<forall>w \<in> set (work_queue S). ticket w < next_it (sv_queue S) \<and> (is_ready w \<or> in_progress (sv_queue S) (fst w) (ticket w)))"

definition abandoned :: "int \<Rightarrow> nat \<Rightarrow> 's server \<Rightarrow> bool" where
  "abandoned i t S \<longleftrightarrow> tickets_ok S \<and> t < next_it (sv_queue S) \<and> in_progress (sv_queue S) i t \<and>
     (\<forall>w \<in> set (work_queue S). ticket w = t \<longrightarrow> is_ready w)"

lemma tickets_fresh: "fresh_server S \<Longrightarrow> tickets_ok S"
  by (simp add: tickets_ok_def fresh_server_def)

lemma tickets_step:
  assumes "server_step modules n S S'" and "tickets_ok S"
  shows "tickets_ok S'"
  using assms(1)
proof cases
  case (dispatch i t c q)
  from assms(2) have "backend_ok (sv_queue S)"
    by (simp add: tickets_ok_def)
  note d = dequeue_ticket [OF this dispatch(4)]
  show ?thesis
    using assms(2) d dispatch(1) by (fastforce simp: tickets_ok_def in_progress_def)
next
  case (complete ws i t c ret ws')
  from assms(2) have "backend_ok (sv_queue S)"
    by (simp add: tickets_ok_def)
  note q = completion_frame [OF this, of i t ret]
  note in_progress_completion [OF \<open>backend_ok (sv_queue S)\<close>, of i t ret]
  moreover have "\<forall>w \<in> set (ws @ ws'). ticket w \<noteq> t"
    using assms(2) complete(3) by (auto simp: tickets_ok_def)
  ultimately show ?thesis
    using assms(2) q(1,2) complete(1,3) by (auto simp: tickets_ok_def)
next
  case (attach k i)
  then show ?thesis
    using assms(2) queue_frame(1-3) [of "sv_queue S"] by (auto simp: tickets_ok_def in_progress_def)
next
  case (send i c)
  then show ?thesis
    using assms(2) queue_frame(4-6) [of "sv_queue S"] by (auto simp: tickets_ok_def in_progress_def)
qed (use assms(2) in \<open>auto simp: tickets_ok_def\<close>)

lemma abandoned_step:
  assumes "server_step modules n S S'" and "abandoned i t S"
  shows "abandoned i t S'"
proof -
  have ok: "backend_ok (sv_queue S)"
    using assms(2) by (simp add: abandoned_def tickets_ok_def)
  have "t < next_it (sv_queue S') \<and> in_progress (sv_queue S') i t \<and> (\<forall>w \<in> set (work_queue S'). ticket w = t \<longrightarrow> is_ready w)"
    using assms(1)
  proof cases
    case (dispatch j u c q)
    show ?thesis
      using assms(2) dequeue_ticket [OF ok dispatch(4)] dispatch(1) by (auto simp: abandoned_def in_progress_def)
  next
    case (complete ws j u c ret ws')
    moreover have "u \<noteq> t"
      using assms(2) complete(3) by (auto simp: abandoned_def)
    ultimately show ?thesis
      using assms(2) completion_frame(2) [OF ok, of j u ret] in_progress_completion [OF ok, of j u ret i t]
      by (auto simp: abandoned_def)
  qed (use assms(2) queue_frame [OF ok] in \<open>auto simp: abandoned_def in_progress_def\<close>)
  with tickets_step [OF assms(1)] assms(2) show ?thesis
    by (auto simp: abandoned_def)
qed

text \<open>
  C34: an exception of a module other than \<^verbatim>\<open>FATAL\<close> disappears in the future of its thread: the
  command is never reported, and from then on, whatever the backend does, the client that sent
  it waits for ever.
\<close>

theorem exception_leaves_client_waiting:
  assumes "fresh_server S0" and "server_reach modules n S0 S" and "\<not> sv_dead S"
    and "work_queue S = ws @ (i, t, c, Running (f # fs) ret) # ws'" and "f c (sv_state S) = (Throws e, s)" and "e \<noteq> Fatal"
    and "server_reach modules n (S\<lparr>work_queue := ws @ (i, t, c, Ready) # ws', sv_state := s\<rparr>) S'"
  shows "ipc_wait_completion i reset_status (sv_queue S') = None"
proof -
  let ?S1 = "S\<lparr>work_queue := ws @ (i, t, c, Ready) # ws', sv_state := s\<rparr>"
  have t: "tickets_ok S"
    using assms(2,1) by (induction rule: rtranclp_induct) (auto intro: tickets_step tickets_fresh)
  then have "abandoned i t ?S1"
    using assms(4) tickets_step [OF raise [OF assms(3-6)]] by (auto simp: abandoned_def tickets_ok_def)
  with assms(7) have "abandoned i t S'"
    by (induction rule: rtranclp_induct) (auto intro: abandoned_step)
  then show ?thesis
    by (auto simp: abandoned_def in_progress_def prog_of_def ipc_wait_completion_def idle_def split: option.splits)
qed

subsection \<open>A server\<close>

text \<open>Two servers with one command: a healthy one, and one with a file on scratch whose name holds a number too large for an \<^verbatim>\<open>int\<close>.\<close>

definition sample_server :: "'s \<Rightarrow> command_t \<Rightarrow> 's server" where
  "sample_server s c = \<lparr>sv_queue = \<lparr>clients = [(3, \<lparr>q_status = VELOC_SUCCESS, q_pending = [c], q_progress = []\<rparr>)], next_it = 0\<rparr>,
     work_queue = [], sv_waits = False, sv_dead = False, sv_state = s\<rparr>"

definition stray_modules :: "unit modules" where
  "stray_modules = sample_modules\<lparr>md_fs := healthy [(''/s'', Dir), (''/s/heat.2d-99999999999-1.dat'', Reg [])]\<rparr>"

definition test_command :: command_t where
  "test_command = sample_command\<lparr>command := TEST\<rparr>"

lemma sample_server_dispatch:
  "server_reach ms n (sample_server s c)
     (sample_server s c\<lparr>sv_queue := \<lparr>clients = [(3, \<lparr>q_status = VELOC_SUCCESS, q_pending = [], q_progress = [(0, c)]\<rparr>)], next_it = 1\<rparr>,
        work_queue := [(3, 0, c, Running ms VELOC_IGNORED)], sv_waits := (n \<le> 1)\<rparr>)"
proof -
  have "ipc_dequeue_any (sv_queue (sample_server s c)) =
      Some ((3, 0, c), \<lparr>clients = [(3, \<lparr>q_status = VELOC_SUCCESS, q_pending = [], q_progress = [(0, c)]\<rparr>)], next_it = 1\<rparr>)"
    by (simp add: sample_server_def ipc_dequeue_any_def dequeue_front_def at_client_def take_front_def)
  from dispatch [OF _ _ this, of ms n] show ?thesis
    by (intro r_into_rtranclp) (simp add: sample_server_def)
qed

lemma fresh_sample_server: "fresh_server (sample_server s c)"
  by (simp add: fresh_server_def sample_server_def backend_ok_def)

lemma stray_throws: "fst (versioning_method sample_cfg_local test_command stray_modules) = Throws OutOfRange"
proof -
  have "regex_match (map atom_of ''heat.2d'') ''heat.2d-99999999999-1.dat'' = Some (''99999999999'', ''1'')"
    by code_simp
  moreover have "stoi ''99999999999'' = Inl OutOfRange"
    by (simp add: stoi_def text_nat_def digit_val_def)
  ultimately have "command_match ''heat.2d-99999999999-1.dat'' (map atom_of ''heat.2d'') = Inl OutOfRange"
    by (simp add: command_match_def)
  moreover have "regex ''heat.2d'' = Inr (map atom_of ''heat.2d'')" "cname test_command = ''heat.2d''" "command test_command = TEST"
      "sys_readdir (md_fs stray_modules) ''/s'' = [''heat.2d-99999999999-1.dat'']" "sys_opendir (md_fs stray_modules) ''/s''"
    by code_simp+
  ultimately have "scratch_version_set (md_fs stray_modules) ''/s'' ''heat.2d'' i [] = (Inl OutOfRange, [])" for i
    by (simp add: scratch_version_set_def parse_dir_def discard_def)
  then show ?thesis
    using sample_facts(1) sample_storage \<open>command test_command = TEST\<close> \<open>cname test_command = ''heat.2d''\<close>
    by (simp add: versioning_method_def versioning_process_def versioning_test_def)
qed

theorem exception_leaves_client_waiting_witness:
  "\<exists>S. server_reach [versioning_method sample_cfg_local] 4 (sample_server stray_modules test_command) S \<and>
     map ticket (work_queue S) = [0] \<and> list_all is_ready (work_queue S) \<and> ipc_wait_completion 3 True (sv_queue S) = None"
proof -
  let ?S0 = "sample_server stray_modules test_command"
  define S where "S = ?S0\<lparr>sv_queue := \<lparr>clients = [(3, \<lparr>q_status = VELOC_SUCCESS, q_pending = [], q_progress = [(0, test_command)]\<rparr>)],
      next_it = 1\<rparr>, work_queue := [(3, 0, test_command, Running [versioning_method sample_cfg_local] VELOC_IGNORED)], sv_waits := False\<rparr>"
  have r: "server_reach [versioning_method sample_cfg_local] 4 ?S0 S"
    using sample_server_dispatch [of "[versioning_method sample_cfg_local]" 4 stray_modules test_command] by (simp add: S_def)
  obtain s where th: "versioning_method sample_cfg_local test_command (sv_state S) = (Throws OutOfRange, s)"
    using stray_throws by (cases "versioning_method sample_cfg_local test_command stray_modules") (simp add: S_def sample_server_def)
  let ?S1 = "S\<lparr>work_queue := [] @ (3, 0, test_command, Ready) # [], sv_state := s\<rparr>"
  have w: "work_queue S = [] @ (3, 0, test_command, Running [versioning_method sample_cfg_local] VELOC_IGNORED) # []" "\<not> sv_dead S"
    by (simp_all add: S_def sample_server_def)
  have "server_reach [versioning_method sample_cfg_local] 4 ?S0 ?S1"
    by (rule rtranclp.rtrancl_into_rtrancl [OF r raise [OF w(2,1) th]]) simp
  moreover have "ipc_wait_completion 3 True (sv_queue ?S1) = None"
    by (rule exception_leaves_client_waiting [OF fresh_sample_server r w(2,1) th]) simp_all
  ultimately show ?thesis
    by (intro exI [of _ ?S1]) simp
qed

theorem parallelism_bounded_witness:
  "\<exists>S. server_reach [watchdog_method sample_menv] 2 (sample_server sample_modules sample_command) S \<and>
     length (work_queue S) = 1 \<and> int (length (filter (\<lambda>w. \<not> is_ready w) (work_queue S))) \<le> max 1 2"
  using parallelism_bounded [OF fresh_sample_server sample_server_dispatch]
    sample_server_dispatch [of "[watchdog_method sample_menv]" 2 sample_modules sample_command]
  by (intro exI conjI) auto

theorem one_thread_is_serial_witness:
  "\<exists>S. server_reach [] 1 (sample_server () sample_command) S \<and> work_queue S = [] \<and> next_it (sv_queue S) = 1 \<and>
     rtranclp (serial_step []) (sv_queue (sample_server () sample_command), (), None) (sv_queue S, (), None)"
proof -
  let ?S0 = "sample_server () sample_command"
  define S where "S = ?S0\<lparr>sv_queue := \<lparr>clients = [(3, \<lparr>q_status = VELOC_SUCCESS, q_pending = [], q_progress = [(0, sample_command)]\<rparr>)],
      next_it = 1\<rparr>, work_queue := [(3, 0, sample_command, Running [] VELOC_IGNORED)], sv_waits := True\<rparr>"
  have r: "server_reach [] 1 ?S0 S"
    using sample_server_dispatch [of "[]" 1 "()" sample_command] by (simp add: S_def)
  have w: "work_queue S = [] @ (3, 0, sample_command, Running [] VELOC_IGNORED) # []" "\<not> sv_dead S" "sv_waits S"
    by (simp_all add: S_def sample_server_def)
  define S1 where "S1 = S\<lparr>sv_queue := ipc_set_completion 3 0 VELOC_IGNORED (sv_queue S), work_queue := [] @ (3, 0, sample_command, Ready) # []\<rparr>"
  have r1: "server_reach [] 1 ?S0 S1"
    unfolding S1_def by (rule rtranclp.rtrancl_into_rtrancl [OF r complete [OF w(2,1)]])
  define S2 where "S2 = S1\<lparr>work_queue := [], sv_waits := False\<rparr>"
  have "server_reach [] 1 ?S0 S2"
    unfolding S2_def by (rule rtranclp.rtrancl_into_rtrancl [OF r1 reap]) (use w in \<open>simp_all add: S1_def\<close>)
  moreover have f: "work_queue S2 = []" "\<not> sv_dead S2" "next_it (sv_queue S2) = 1"
    using w by (simp_all add: S2_def S1_def S_def ipc_set_completion_def)
  ultimately show ?thesis
    using one_thread_is_serial [OF fresh_sample_server, of "[]" 1 "()" sample_command S2] by (intro exI [of _ S2]) (simp add: sample_server_def)
qed

end
