(* ===== verification/Client.thy ===== *)
theory Client
  imports Transfer_Module
begin

text \<open>
  \<^verbatim>\<open>client_impl_t\<close> of \<^verbatim>\<open>src/src/lib/client.{hpp,cpp}\<close>: the library an application links. The state
  record holds the members of the class, the application's memory (a byte per address), the
  files and the queue to the backend. The queue is used through the record \<open>link\<close>; while the
  client waits for a completion the backend works on the files, so waiting takes the files and
  returns them. The MPI collectives are the record \<open>mpi\<close>: this rank's value goes in, what this
  rank receives comes out. Serializers and deserializers are the application's.
\<close>

section \<open>Regions and memory\<close>

type_synonym mem = "nat \<Rightarrow> byte"

definition mem_read :: "nat \<Rightarrow> nat \<Rightarrow> mem \<Rightarrow> byte list" where
  "mem_read p n m = map (\<lambda>i. m (p + i)) [0..<n]"

definition mem_write :: "nat \<Rightarrow> byte list \<Rightarrow> mem \<Rightarrow> mem" where
  "mem_write p bs m = (\<lambda>a. if p \<le> a \<and> a < p + length bs then bs ! (a - p) else m a)"

text \<open>
  A serializer yields the bytes it writes; a deserializer sees the rest of the stream and
  yields its result, the memory and how far it read. \<open>None\<close> is an empty \<^verbatim>\<open>std::function\<close>, and
  the address 0 the null pointer.
\<close>

type_synonym serializer = "mem \<Rightarrow> byte list"
type_synonym deserializer = "byte list \<Rightarrow> mem \<Rightarrow> bool \<times> mem \<times> nat"

record region =
  r_ptr :: nat
  r_size :: size_t
  r_ser :: "serializer option"
  r_des :: "deserializer option"

type_synonym regions = "(int \<times> region) list"

abbreviation (input) VELOC_CKPT_ALL :: int where "VELOC_CKPT_ALL \<equiv> 0"
abbreviation (input) VELOC_CKPT_SOME :: int where "VELOC_CKPT_SOME \<equiv> 1"
abbreviation (input) VELOC_CKPT_REST :: int where "VELOC_CKPT_REST \<equiv> 2"
abbreviation (input) VELOC_RECOVER_SOME :: int where "VELOC_RECOVER_SOME \<equiv> 1"
abbreviation (input) VELOC_RECOVER_REST :: int where "VELOC_RECOVER_REST \<equiv> 2"
abbreviation (input) VELOC_OBSERVE_CKPT_END :: int where "VELOC_OBSERVE_CKPT_END \<equiv> 0"
abbreviation default_mem_group :: string where "default_mem_group \<equiv> ''default''"

section \<open>The state\<close>

record ('x, 'q) link =
  lk_enqueue :: "command_t \<Rightarrow> 'q \<Rightarrow> 'q res"
  lk_wait :: "'q \<Rightarrow> 'x fsys_scheme \<Rightarrow> int outcome \<times> 'q \<times> 'x fsys_scheme"
  lk_check :: "'q \<Rightarrow> bool"

record mpi =
  mpi_exscan :: "int \<Rightarrow> int"
  mpi_gather :: "int \<Rightarrow> int list"
  mpi_max :: "int \<Rightarrow> int"
  mpi_lor :: "int \<Rightarrow> int"

record ('x, 'q) client =
  cl_rank :: int
  no_ranks :: int
  cl_comm :: bool
  mem_regions :: "string \<Rightarrow> regions"
  observers :: "(int \<times> nat) list"
  notified :: "(nat \<times> string \<times> int) list"
  current_ckpt :: command_t
  checkpoint_in_progress :: bool
  aggregated :: bool
  region_info :: region_sizes
  header_size :: size_t
  cl_queue :: 'q
  cl_fs :: "'x fsys_scheme"
  cl_mem :: mem

section \<open>Protection\<close>

text \<open>\<^verbatim>\<open>insert_or_assign\<close>: the result says whether the id was new.\<close>

definition put_region :: "int \<Rightarrow> region \<Rightarrow> string \<Rightarrow> ('x, 'q) client \<Rightarrow> bool \<times> ('x, 'q) client" where
  "put_region i r nm st =
     (map_of (mem_regions st nm) i = None,
      st\<lparr>mem_regions := (mem_regions st)(nm := omap_assign i r (mem_regions st nm))\<rparr>)"

definition mem_protect ::
    "int \<Rightarrow> nat \<Rightarrow> size_t \<Rightarrow> size_t \<Rightarrow> string \<Rightarrow> ('x, 'q) client \<Rightarrow> bool \<times> ('x, 'q) client" where
  "mem_protect i ptr count base_size nm st =
     put_region i \<lparr>r_ptr = ptr, r_size = count * base_size, r_ser = None, r_des = None\<rparr> nm st"

definition mem_protect_serialized ::
    "int \<Rightarrow> serializer \<Rightarrow> deserializer \<Rightarrow> string \<Rightarrow> ('x, 'q) client \<Rightarrow> bool \<times> ('x, 'q) client" where
  "mem_protect_serialized i s d nm st =
     put_region i \<lparr>r_ptr = 0, r_size = 0, r_ser = Some s, r_des = Some d\<rparr> nm st"

definition mem_unprotect :: "int \<Rightarrow> string \<Rightarrow> ('x, 'q) client \<Rightarrow> bool \<times> ('x, 'q) client" where
  "mem_unprotect i nm st =
     (map_of (mem_regions st nm) i \<noteq> None,
      st\<lparr>mem_regions := (mem_regions st)(nm := omap_erase i (mem_regions st nm))\<rparr>)"

definition mem_clear :: "string \<Rightarrow> ('x, 'q) client \<Rightarrow> ('x, 'q) client" where
  "mem_clear nm st = st\<lparr>mem_regions := (mem_regions st)(nm := [])\<rparr>"

definition register_observer :: "int \<Rightarrow> nat \<Rightarrow> ('x, 'q) client \<Rightarrow> bool \<times> ('x, 'q) client" where
  "register_observer ty obs st =
     (map_of (observers st) ty = None, st\<lparr>observers := omap_assign ty obs (observers st)\<rparr>)"

text \<open>\<^verbatim>\<open>get_current_ckpt_regions\<close>: an empty group becomes a copy of the default group.\<close>

definition get_current_ckpt_regions :: "('x, 'q) client \<Rightarrow> regions \<times> ('x, 'q) client" where
  "get_current_ckpt_regions st =
     (let nm = cname (current_ckpt st);
          rs = (if mem_regions st nm = [] then mem_regions st default_mem_group else mem_regions st nm)
      in (rs, st\<lparr>mem_regions := (mem_regions st)(nm := rs)\<rparr>))"

definition check_rank :: "int \<Rightarrow> ('x, 'q) client \<Rightarrow> int" where
  "check_rank target_rank st = (if target_rank < 0 then cl_rank st else target_rank)"

section \<open>Checkpoints\<close>

definition cleanup :: "'x config \<Rightarrow> string \<Rightarrow> ('x, 'q) client \<Rightarrow> bool outcome \<times> ('x, 'q) client" where
  "cleanup cfg nm st =
     (case cfg_get cfg ''scratch'' of
        Inl e \<Rightarrow> (Throws e, st)
      | Inr scratch \<Rightarrow>
          (case parse_dir (cl_fs st) scratch nm (\<lambda>f _ _ fs. snd (sys_unlink fs f)) (cl_fs st) of
             (r, fs') \<Rightarrow> (case r of Inl e \<Rightarrow> Throws e | Inr _ \<Rightarrow> Ok True, st\<lparr>cl_fs := fs'\<rparr>)))"

definition wait_queue :: "('x, 'q) link \<Rightarrow> ('x, 'q) client \<Rightarrow> int outcome \<times> ('x, 'q) client" where
  "wait_queue lk st =
     (case lk_wait lk (cl_queue st) (cl_fs st) of (r, q, fs) \<Rightarrow> (r, st\<lparr>cl_queue := q, cl_fs := fs\<rparr>))"

definition checkpoint_wait :: "('x, 'q) link \<Rightarrow> ('x, 'q) client \<Rightarrow> bool outcome \<times> ('x, 'q) client" where
  "checkpoint_wait lk st =
     (if checkpoint_in_progress st then (Ok False, st)
      else (case wait_queue lk st of (r, st') \<Rightarrow> (map_outcome (\<lambda>v. v = VELOC_SUCCESS) r, st')))"

definition checkpoint_finished :: "'x config \<Rightarrow> ('x, 'q) link \<Rightarrow> ('x, 'q) client \<Rightarrow> bool" where
  "checkpoint_finished cfg lk st =
     (if cfg_sync cfg then True
      else if checkpoint_in_progress st then False
      else lk_check lk (cl_queue st))"

definition checkpoint_begin :: "string \<Rightarrow> int \<Rightarrow> ('x, 'q) client \<Rightarrow> bool outcome \<times> ('x, 'q) client" where
  "checkpoint_begin nm v st =
     (if checkpoint_in_progress st then (Ok False, st)
      else if \<not> validate_name nm \<or> v < 0 then (Ok False, st)
      else (case mk_command (cl_rank st) CHECKPOINT v nm of
              Inl e \<Rightarrow> (Throws e, st)
            | Inr c \<Rightarrow> (Ok True, st\<lparr>current_ckpt := c, checkpoint_in_progress := True\<rparr>)))"

text \<open>
  The selection of \<^verbatim>\<open>checkpoint_mem\<close>. With \<^verbatim>\<open>VELOC_CKPT_SOME\<close> the loop erases the element under the
  iterator and then increments it, which is undefined as soon as there is something to erase.
\<close>

definition select_regions :: "int \<Rightarrow> int list \<Rightarrow> regions \<Rightarrow> regions res" where
  "select_regions mode ids rs =
     (if mode = VELOC_CKPT_SOME then
        (if list_all (\<lambda>e. fst e \<in> set ids) rs then Inr rs else Inl Undefined)
      else if mode = VELOC_CKPT_REST then Inr (filter (\<lambda>e. fst e \<notin> set ids) rs)
      else Inr rs)"

text \<open>The data of the regions in order, up to the first one that cannot be written.\<close>

fun region_data :: "mem \<Rightarrow> regions \<Rightarrow> exn option \<times> (int \<times> byte list) list" where
  "region_data m [] = (None, [])"
| "region_data m ((i, r) # rs) =
     (if r_ptr r \<noteq> 0 then
        (case region_data m rs of (e, ds) \<Rightarrow> (e, (i, mem_read (r_ptr r) (unat (r_size r)) m) # ds))
      else (case r_ser r of
              None \<Rightarrow> (Some BadFunctionCall, [])
            | Some s \<Rightarrow> (case region_data m rs of (e, ds) \<Rightarrow> (e, (i, s m) # ds))))"

text \<open>
  The stream. The data goes first, behind a gap for the header; then the stream is moved back
  and the header written. A failing transfer of the data shows at the latest at that move; what
  is buffered afterwards (8191 bytes at most) is written by the destructor, which reports
  nothing. A region that cannot be written leaves the gap and the data before it.
\<close>

abbreviation FILEBUF_SIZE :: nat where "FILEBUF_SIZE \<equiv> 8191"

definition write_regions ::
    "exn option \<times> (int \<times> byte list) list \<Rightarrow> nat \<Rightarrow> string \<Rightarrow> 'x fsys_scheme \<Rightarrow> bool outcome \<times> 'x fsys_scheme" where
  "write_regions rd n f fs =
     (case rd of
        (exc, ds) \<Rightarrow>
          let dat = concat (map snd ds);
              hdr = ckpt_header (map (\<lambda>(i, bs). (i, of_nat (length bs))) ds)
          in (case exc of
                Some e \<Rightarrow>
                  (Throws e,
                   if io_error fs f \<or> dat = [] then fs else set_node f (Reg (replicate (8 + n * 12) 0 @ dat)) fs)
              | None \<Rightarrow>
                  if io_error fs f then (Ok (dat = [] \<and> length hdr < FILEBUF_SIZE), fs)
                  else (Ok True, set_node f (Reg (hdr @ dat)) fs)))"

definition checkpoint_mem ::
    "'x config \<Rightarrow> int \<Rightarrow> int list \<Rightarrow> ('x, 'q) client \<Rightarrow> bool outcome \<times> ('x, 'q) client" where
  "checkpoint_mem cfg mode ids st =
     (if \<not> checkpoint_in_progress st then (Ok False, st)
      else (case get_current_ckpt_regions st of
          (rs, st1) \<Rightarrow>
            (case select_regions mode ids rs of
               Inl e \<Rightarrow> (Throws e, st1)
             | Inr sel \<Rightarrow>
                 if sel = [] then (Ok False, st1)
                 else (case cfg_get cfg ''scratch'' of
                         Inl e \<Rightarrow> (Throws e, st1)
                       | Inr scratch \<Rightarrow>
                           (case sys_open_wr True (cl_fs st1) (filename (current_ckpt st1) scratch) of
                              None \<Rightarrow> (Ok False, st1)
                            | Some (f, fs1) \<Rightarrow>
                                (case write_regions (region_data (cl_mem st1) sel) (length sel) f fs1 of
                                   (r, fs2) \<Rightarrow> (r, st1\<lparr>cl_fs := fs2\<rparr>)))))))"

text \<open>
  The aggregated part of \<^verbatim>\<open>checkpoint_end\<close>: the offset of this rank's part, and on rank 0 the
  offset map. \<open>Inr None\<close> is the early return.
\<close>

definition place_in_aggregate ::
    "'x config \<Rightarrow> mpi \<Rightarrow> ('x, 'q) client \<Rightarrow> int option res \<times> ('x, 'q) client" where
  "place_in_aggregate cfg mp st =
     (case cfg_get cfg ''scratch'' of
        Inl e \<Rightarrow> (Inl e, st)
      | Inr scratch \<Rightarrow>
          let ckpt_size = file_size (cl_fs st) (filename (current_ckpt st) scratch);
              off = mpi_exscan mp ckpt_size
          in if cl_rank st = 0 then
               (case cfg_get cfg ''meta'' of
                  Inl e \<Rightarrow> (Inl e, st)
                | Inr meta \<Rightarrow>
                    (case write_file (cl_fs st) (agg_filename (current_ckpt st) meta)
                            (concat (map enc_long (no_ranks st # mpi_gather mp off))) of
                       (ok, fs') \<Rightarrow> (Inr (if ok then Some off else None), st\<lparr>cl_fs := fs'\<rparr>)))
             else (Inr (Some off), st))"

definition checkpoint_end ::
    "'x config \<Rightarrow> ('x, 'q) link \<Rightarrow> mpi \<Rightarrow> ('x, 'q) client \<Rightarrow> bool outcome \<times> ('x, 'q) client" where
  "checkpoint_end cfg lk mp st =
     (case (if aggregated st then place_in_aggregate cfg mp st
            else (Inr (Some (sint (offset (current_ckpt st)))), st)) of
        (Inl e, st1) \<Rightarrow> (Throws e, st1)
      | (Inr None, st1) \<Rightarrow> (Ok False, st1)
      | (Inr (Some off), st1) \<Rightarrow>
          let c = (current_ckpt st1)\<lparr>offset := word_of_int off\<rparr>;
              st2 = st1\<lparr>current_ckpt := c, checkpoint_in_progress := False\<rparr>
          in (case lk_enqueue lk c (cl_queue st2) of
                Inl e \<Rightarrow> (Throws e, st2)
              | Inr q \<Rightarrow>
                  let st3 = st2\<lparr>cl_queue := q,
                        notified := (case map_of (observers st2) VELOC_OBSERVE_CKPT_END of
                                       None \<Rightarrow> notified st2
                                     | Some obs \<Rightarrow> notified st2 @ [(obs, cname c, version c)])\<rparr>
                  in if cfg_sync cfg
                     then (case wait_queue lk st3 of (r, st4) \<Rightarrow> (map_outcome (\<lambda>v. v = VELOC_SUCCESS) r, st4))
                     else (Ok True, st3)))"

text \<open>The short-circuit conjunction of calls.\<close>

definition and_then ::
    "bool outcome \<times> 's \<Rightarrow> ('s \<Rightarrow> bool outcome \<times> 's) \<Rightarrow> bool outcome \<times> 's" where
  "and_then r f = (case r of (Ok True, s) \<Rightarrow> f s | _ \<Rightarrow> r)"

definition checkpoint ::
    "'x config \<Rightarrow> ('x, 'q) link \<Rightarrow> mpi \<Rightarrow> string \<Rightarrow> int \<Rightarrow> ('x, 'q) client \<Rightarrow> bool outcome \<times> ('x, 'q) client" where
  "checkpoint cfg lk mp nm v st =
     and_then (and_then (and_then (checkpoint_wait lk st) (checkpoint_begin nm v))
       (checkpoint_mem cfg VELOC_CKPT_ALL [])) (checkpoint_end cfg lk mp)"

section \<open>Restart\<close>

definition run_blocking :: "('x, 'q) link \<Rightarrow> command_t \<Rightarrow> ('x, 'q) client \<Rightarrow> int outcome \<times> ('x, 'q) client" where
  "run_blocking lk c st =
     (case lk_enqueue lk c (cl_queue st) of
        Inl e \<Rightarrow> (Throws e, st)
      | Inr q \<Rightarrow> wait_queue lk (st\<lparr>cl_queue := q\<rparr>))"

definition restart_test ::
    "('x, 'q) link \<Rightarrow> mpi \<Rightarrow> string \<Rightarrow> int \<Rightarrow> int \<Rightarrow> ('x, 'q) client \<Rightarrow> int outcome \<times> ('x, 'q) client" where
  "restart_test lk mp nm needed_version target_rank st =
     (if \<not> validate_name nm \<or> needed_version < 0 then (Ok VELOC_FAILURE, st)
      else (case mk_command (check_rank target_rank st) TEST needed_version nm of
              Inl e \<Rightarrow> (Throws e, st)
            | Inr c \<Rightarrow>
                (case run_blocking lk c st of
                   (r, st') \<Rightarrow>
                     (if cl_comm st \<and> target_rank < 0 then map_outcome (mpi_max mp) r else r, st'))))"

definition route_file ::
    "'x config \<Rightarrow> string option \<Rightarrow> string \<Rightarrow> ('x, 'q) client \<Rightarrow> string outcome \<times> ('x, 'q) client" where
  "route_file cfg cwd orig st =
     (let path = (if orig \<noteq> '''' \<and> hd orig = CHR ''/'' then orig
                  else (case cwd of None \<Rightarrow> orig | Some d \<Rightarrow> d @ ''/'' @ orig))
      in case assign_path path (current_ckpt st) of
           Inl e \<Rightarrow> (Throws e, st)
         | Inr c \<Rightarrow>
             (case cfg_get cfg ''scratch'' of
                Inl e \<Rightarrow> (Throws e, st\<lparr>current_ckpt := c\<rparr>)
              | Inr scratch \<Rightarrow> (Ok (filename c scratch), st\<lparr>current_ckpt := c\<rparr>)))"

definition restart_begin ::
    "('x, 'q) link \<Rightarrow> mpi \<Rightarrow> string \<Rightarrow> int \<Rightarrow> int \<Rightarrow> ('x, 'q) client \<Rightarrow> bool outcome \<times> ('x, 'q) client" where
  "restart_begin lk mp nm v target_rank st =
     (if checkpoint_in_progress st then (Ok False, st)
      else if \<not> validate_name nm \<or> v < 0 then (Ok False, st)
      else (case mk_command (check_rank target_rank st) RESTART v nm of
              Inl e \<Rightarrow> (Throws e, st)
            | Inr c \<Rightarrow>
                (case run_blocking lk c (st\<lparr>current_ckpt := c\<rparr>) of
                   (Ok result, st') \<Rightarrow>
                     let end_result = (if cl_comm st then mpi_lor mp result else result)
                     in if end_result = VELOC_SUCCESS then (Ok True, st'\<lparr>header_size := 0\<rparr>) else (Ok False, st')
                 | (Throws e, st') \<Rightarrow> (Throws e, st')
                 | (Diverges, st') \<Rightarrow> (Diverges, st'))))"

definition read_current_header :: "'x config \<Rightarrow> ('x, 'q) client \<Rightarrow> bool outcome \<times> ('x, 'q) client" where
  "read_current_header cfg st =
     (case cfg_get cfg ''scratch'' of
        Inl e \<Rightarrow> (Throws e, st)
      | Inr scratch \<Rightarrow>
          (case read_header (cl_fs st) (filename (current_ckpt st) scratch) of
             (hs, info) \<Rightarrow> (Ok (hs \<noteq> 0), st\<lparr>header_size := hs, region_info := info\<rparr>)))"

definition recover_size :: "'x config \<Rightarrow> int \<Rightarrow> ('x, 'q) client \<Rightarrow> size_t outcome \<times> ('x, 'q) client" where
  "recover_size cfg i st =
     (case (if header_size st = 0 then read_current_header cfg st else (Ok True, st)) of
        (Ok _, st') \<Rightarrow> (Ok (case map_of (region_info st') i of None \<Rightarrow> 0 | Some n \<Rightarrow> n), st')
      | (Throws e, st') \<Rightarrow> (Throws e, st')
      | (Diverges, st') \<Rightarrow> (Diverges, st'))"

text \<open>The loop of \<^verbatim>\<open>recover_mem\<close> over the entries of the header; \<open>pos\<close> is the stream position.\<close>

fun recover_loop ::
    "int \<Rightarrow> int list \<Rightarrow> regions \<Rightarrow> byte list \<Rightarrow> region_sizes \<Rightarrow> nat \<Rightarrow> mem \<Rightarrow> bool res \<times> mem" where
  "recover_loop mode ids rs bs [] pos m = (Inr True, m)"
| "recover_loop mode ids rs bs ((i, sz) # es) pos m =
     (let found = (i \<in> set ids)
      in if mode = VELOC_RECOVER_SOME \<and> \<not> found \<or> mode = VELOC_RECOVER_REST \<and> found
         then recover_loop mode ids rs bs es (pos + unat sz) m
         else (case map_of rs i of
                 None \<Rightarrow> (Inr False, m)
               | Some r \<Rightarrow>
                   if r_ptr r \<noteq> 0 then
                     if r_size r < sz then (Inr False, m)
                     else if length (drop pos bs) < unat sz then (Inr False, mem_write (r_ptr r) (drop pos bs) m)
                     else recover_loop mode ids rs bs es (pos + unat sz)
                            (mem_write (r_ptr r) (take (unat sz) (drop pos bs)) m)
                   else (case r_des r of
                           None \<Rightarrow> (Inl BadFunctionCall, m)
                         | Some d \<Rightarrow>
                             (case d (drop pos bs) m of
                                (ok, m', k) \<Rightarrow>
                                  if ok then recover_loop mode ids rs bs es (pos + k) m' else (Inr False, m')))))"

definition recover_mem ::
    "'x config \<Rightarrow> int \<Rightarrow> int list \<Rightarrow> ('x, 'q) client \<Rightarrow> bool outcome \<times> ('x, 'q) client" where
  "recover_mem cfg mode ids st =
     and_then (if header_size st = 0 then read_current_header cfg st else (Ok True, st))
       (\<lambda>st1. case get_current_ckpt_regions st1 of
          (rs, st2) \<Rightarrow>
            (case cfg_get cfg ''scratch'' of
               Inl e \<Rightarrow> (Throws e, st2)
             | Inr scratch \<Rightarrow>
                 (case sys_open_rd (cl_fs st2) (filename (current_ckpt st2) scratch) of
                    None \<Rightarrow> (Ok False, st2)
                  | Some f \<Rightarrow>
                      (case recover_loop mode ids rs (if io_error (cl_fs st2) f then [] else contents (cl_fs st2) f)
                              (region_info st2) (unat (header_size st2)) (cl_mem st2) of
                         (r, m) \<Rightarrow> (of_res r, st2\<lparr>cl_mem := m\<rparr>)))))"

definition restart_end :: "('x, 'q) client \<Rightarrow> bool outcome \<times> ('x, 'q) client" where
  "restart_end st = (Ok True, st)"

definition restart ::
    "'x config \<Rightarrow> ('x, 'q) link \<Rightarrow> mpi \<Rightarrow> string \<Rightarrow> int \<Rightarrow> int \<Rightarrow> ('x, 'q) client \<Rightarrow> bool outcome \<times> ('x, 'q) client" where
  "restart cfg lk mp nm v target_rank st =
     and_then (and_then (restart_begin lk mp nm v target_rank st) (recover_mem cfg VELOC_CKPT_ALL [])) restart_end"

section \<open>Construction\<close>

definition check_threaded :: "'x config \<Rightarrow> bool \<Rightarrow> bool res" where
  "check_threaded cfg thread_multiple =
     (let threaded = get_bool cfg ''threaded'' False
      in if threaded \<and> \<not> thread_multiple then Inl Fatal else Inr threaded)"

text \<open>The command line of \<^verbatim>\<open>launch_backend\<close>.\<close>

definition backend_command :: "(string \<Rightarrow> string option) \<Rightarrow> string \<Rightarrow> string" where
  "backend_command env file =
     (case env ''VELOC_BIN'' of None \<Rightarrow> '''' | Some path \<Rightarrow> path @ ''/'') @
     ''veloc-backend '' @ file @ '' --disable-ec > /dev/null''"

text \<open>
  The constructors; \<open>comm\<close> says which one. The backend's loop runs in the process, or a backend
  is launched; \<open>system_ok\<close> is the success of its command line. The result of the first command
  is not looked at, and the current command is not initialised.
\<close>

definition new_client ::
    "'x config \<Rightarrow> ('x, 'q) link \<Rightarrow> bool \<Rightarrow> (string \<Rightarrow> bool) \<Rightarrow> bool \<Rightarrow> int \<Rightarrow> int \<Rightarrow> command_t \<Rightarrow> 'q \<Rightarrow>
     'x fsys_scheme \<Rightarrow> mem \<Rightarrow> unit outcome \<times> ('x, 'q) client" where
  "new_client cfg lk thread_multiple system_ok comm rank ranks cur q fs m =
     (let st = \<lparr>cl_rank = rank, no_ranks = ranks, cl_comm = comm, mem_regions = (\<lambda>_. []), observers = [], notified = [],
                current_ckpt = cur, checkpoint_in_progress = False,
                aggregated = (comm \<and> get_bool cfg ''aggregated'' False),
                region_info = [], header_size = 0, cl_queue = q, cl_fs = fs, cl_mem = m\<rparr>
      in case (if cfg_sync cfg then Inr True else check_threaded cfg thread_multiple) of
           Inl e \<Rightarrow> (Throws e, st)
         | Inr in_process \<Rightarrow>
             if \<not> in_process \<and> \<not> system_ok (backend_command (cfg_env cfg) (cfg_file cfg)) then (Throws Fatal, st)
             else (case mk_command rank INIT 0 '''' of
                     Inl e \<Rightarrow> (Throws e, st)
                   | Inr c \<Rightarrow> (case run_blocking lk c st of (r, st') \<Rightarrow> (map_outcome (\<lambda>_. ()) r, st'))))"

section \<open>Memory and the checkpoint image\<close>

lemma length_mem_read [simp]: "length (mem_read p n m) = n"
  by (simp add: mem_read_def)

lemma nth_mem_read: "i < n \<Longrightarrow> mem_read p n m ! i = m (p + i)"
  by (simp add: mem_read_def)

definition in_region :: "nat \<Rightarrow> region \<Rightarrow> bool" where
  "in_region a r \<longleftrightarrow> r_ptr r \<le> a \<and> a < r_ptr r + unat (r_size r)"

definition raw_regions :: "regions \<Rightarrow> bool" where
  "raw_regions rs \<longleftrightarrow> omap_wf rs \<and> length rs < 2 ^ 32 \<and> (\<forall>e \<in> set rs. is_int32 (fst e) \<and> r_ptr (snd e) \<noteq> 0)"

abbreviation region_bytes :: "mem \<Rightarrow> int \<times> region \<Rightarrow> byte list" where
  "region_bytes m e \<equiv> mem_read (r_ptr (snd e)) (unat (r_size (snd e))) m"

lemma region_data_raw:
  "(\<forall>e \<in> set rs. r_ptr (snd e) \<noteq> 0) \<Longrightarrow> region_data m rs = (None, map (\<lambda>e. (fst e, region_bytes m e)) rs)"
  by (induction m rs rule: region_data.induct) auto

definition sizes_of :: "regions \<Rightarrow> region_sizes" where
  "sizes_of rs = map (\<lambda>e. (fst e, r_size (snd e))) rs"

definition image_of :: "mem \<Rightarrow> regions \<Rightarrow> byte list" where
  "image_of m rs = ckpt_header (sizes_of rs) @ concat (map (region_bytes m) rs)"

lemma write_regions_raw:
  assumes "raw_regions rs" and "\<not> io_error fs f"
  shows "write_regions (region_data m rs) n f fs = (Ok True, set_node f (Reg (image_of m rs)) fs)"
proof -
  have "region_data m rs = (None, map (\<lambda>e. (fst e, region_bytes m e)) rs)"
    using assms(1) by (intro region_data_raw) (auto simp: raw_regions_def)
  then show ?thesis
    using assms(2) by (simp add: write_regions_def Let_def image_of_def sizes_of_def o_def)
qed

lemma omap_wf_sizes: "omap_wf rs \<Longrightarrow> omap_wf (sizes_of rs)"
  by (simp add: omap_wf_def sizes_of_def o_def)

lemma image_ok_of:
  assumes "raw_regions rs"
  shows "image_ok (sizes_of rs) (concat (map (region_bytes m) rs))"
proof -
  have "(of_nat (length (concat (map (region_bytes m) rs))) :: size_t) = sum_list (map snd (sizes_of rs))"
    by (induction rs) (simp_all add: sizes_of_def)
  then show ?thesis
    using assms omap_wf_sizes [of rs] by (auto simp: image_ok_def raw_regions_def sizes_of_def)
qed

definition selected :: "int \<Rightarrow> int list \<Rightarrow> int \<Rightarrow> bool" where
  "selected mode ids i \<longleftrightarrow> \<not> (mode = VELOC_RECOVER_SOME \<and> i \<notin> set ids \<or> mode = VELOC_RECOVER_REST \<and> i \<in> set ids)"

lemma recover_loop_image:
  assumes "\<forall>e \<in> set es. map_of rs (fst e) = Some (snd e) \<and> r_ptr (snd e) \<noteq> 0"
    and "drop pos bs = concat (map (region_bytes m0) es)"
  shows "recover_loop mode ids rs bs (sizes_of es) pos m =
    (Inr True, fold (\<lambda>e m. if selected mode ids (fst e) then mem_write (r_ptr (snd e)) (region_bytes m0 e) m else m) es m)"
  using assms
proof (induction es arbitrary: pos m)
  case (Cons e es)
  have d: "drop pos bs = region_bytes m0 e @ concat (map (region_bytes m0) es)"
    using Cons.prems(2) by simp
  then have "drop (unat (r_size (snd e))) (drop pos bs) = concat (map (region_bytes m0) es)"
    by (simp del: drop_drop)
  then have next_pos: "drop (pos + unat (r_size (snd e))) bs = concat (map (region_bytes m0) es)"
    by (simp add: add.commute)
  from d have head: "take (unat (r_size (snd e))) (drop pos bs) = region_bytes m0 e" and
      len: "\<not> length (drop pos bs) < unat (r_size (snd e))"
    by (simp_all del: length_drop)
  show ?case
    using Cons.prems(1) Cons.IH [OF _ next_pos]
    by (simp add: sizes_of_def selected_def Let_def head len del: length_drop)
qed (simp add: sizes_of_def)

lemma fold_restore:
  "fold (\<lambda>e m. if P (fst e) then mem_write (r_ptr (snd e)) (region_bytes m0 e) m else m) es m a =
     (if \<exists>e \<in> set es. P (fst e) \<and> in_region a (snd e) then m0 a else m a)"
proof (induction es arbitrary: m)
  case (Cons e es)
  have "mem_write (r_ptr (snd e)) (region_bytes m0 e) m a = (if in_region a (snd e) then m0 a else m a)"
    by (auto simp: mem_write_def in_region_def nth_mem_read)
  with Cons.IH show ?case by auto
qed simp

lemma checkpoint_mem_all:
  assumes "checkpoint_in_progress st" and "get_current_ckpt_regions st = (rs, st')" and "rs \<noteq> []" and "raw_regions rs"
    and "cfg_get cfg ''scratch'' = Inr scratch" and "plain (cl_fs st) (filename (current_ckpt st) scratch)"
    and "checkpoint_mem cfg VELOC_CKPT_ALL ids st = (Ok True, st1)"
    and "\<not> io_error (cl_fs st) (filename (current_ckpt st) scratch)"
  defines "p \<equiv> filename (current_ckpt st) scratch"
  shows "st1 = st'\<lparr>cl_fs := set_node p (Reg (image_of (cl_mem st) rs)) (set_node p (Reg []) (cl_fs st))\<rparr>"
proof -
  let ?p = "filename (current_ckpt st) scratch"
  have st': "cl_fs st' = cl_fs st" "cl_mem st' = cl_mem st" "current_ckpt st' = current_ckpt st"
    using assms(2) by (auto simp: get_current_ckpt_regions_def Let_def)
  obtain f fs1 where op: "sys_open_wr True (cl_fs st) ?p = Some (f, fs1)"
      and w: "write_regions (region_data (cl_mem st) rs) (length rs) f fs1 = (Ok True, cl_fs st1)" and st1: "st1 = st'\<lparr>cl_fs := cl_fs st1\<rparr>"
    using assms(1-3,5,7) st'
    by (auto simp: checkpoint_mem_def select_regions_def split: option.splits prod.splits)
  have "f = ?p"
    using open_wr_True [OF op] real_path_self [of "cl_fs st" ?p] assms(6) by (simp add: plain_iff)
  moreover have "io_error fs1 = io_error (cl_fs st)"
    using open_wr_True [OF op] by auto
  ultimately have "write_regions (region_data (cl_mem st) rs) (length rs) f fs1 =
      (Ok True, set_node ?p (Reg (image_of (cl_mem st) rs)) fs1)"
    using write_regions_raw [OF assms(4), of fs1 f] assms(8) by simp
  with w have "cl_fs st1 = set_node ?p (Reg (image_of (cl_mem st) rs)) fs1"
    by simp
  moreover have "fs1 = set_node ?p (Reg []) (cl_fs st)"
    using open_wr_True [OF op] \<open>f = ?p\<close> by simp
  ultimately show ?thesis
    using st1 unfolding p_def by metis
qed

lemma recover_mem_image:
  assumes "sys_open_rd (cl_fs st) (filename (current_ckpt st) scratch) = Some f" and "\<not> io_error (cl_fs st) f"
    and "contents (cl_fs st) f = image_of m0 rs" and "raw_regions rs" and "header_size st = 0"
    and "cfg_get cfg ''scratch'' = Inr scratch" and "fst (get_current_ckpt_regions st) = rs"
  shows "\<exists>st'. recover_mem cfg mode ids st = (Ok True, st') \<and>
    cl_mem st' = (\<lambda>a. if \<exists>(i, r) \<in> set rs. selected mode ids i \<and> in_region a r then m0 a else cl_mem st a)"
proof -
  have hd: "read_header (cl_fs st) (filename (current_ckpt st) scratch) = (of_nat (8 + 12 * length rs), sizes_of rs)"
    using read_header_image [OF assms(1,2) _ image_ok_of [OF assms(4)]] assms(3) by (simp add: image_of_def sizes_of_def)
  have small: "8 + 12 * length rs < 2 ^ 64"
    using assms(4) by (simp add: raw_regions_def)
  moreover have "unat (of_nat (8 + 12 * length rs) :: size_t) = (8 + 12 * length rs) mod 2 ^ LENGTH(64)"
    by (rule unat_of_nat)
  ultimately have un: "unat (of_nat (8 + 12 * length rs) :: size_t) = 8 + 12 * length rs"
    by (simp only: len_num1 len_num0 len_bit0 mod_less) simp
  then have nz: "(of_nat (8 + 12 * length rs) :: size_t) \<noteq> 0"
    by (metis add_is_0 unat_0 zero_neq_numeral)
  define st1 where "st1 = st\<lparr>header_size := of_nat (8 + 12 * length rs), region_info := sizes_of rs\<rparr>"
  have rd: "read_current_header cfg st = (Ok True, st1)"
    using assms(6) hd nz by (simp add: read_current_header_def st1_def)
  obtain st2 where g: "get_current_ckpt_regions st1 = (rs, st2)" and st2: "cl_fs st2 = cl_fs st" "cl_mem st2 = cl_mem st"
      "current_ckpt st2 = current_ckpt st" "region_info st2 = sizes_of rs" "header_size st2 = of_nat (8 + 12 * length rs)"
    using assms(7) by (auto simp: get_current_ckpt_regions_def Let_def st1_def)
  define m1 where "m1 = fold (\<lambda>e m. if selected mode ids (fst e) then mem_write (r_ptr (snd e)) (region_bytes m0 e) m else m) rs (cl_mem st)"
  have "recover_loop mode ids rs (image_of m0 rs) (sizes_of rs) (8 + 12 * length rs) (cl_mem st) = (Inr True, m1)"
    using assms(4) omap_wf_distinct [of rs] unfolding m1_def
    by (intro recover_loop_image) (auto simp: raw_regions_def image_of_def sizes_of_def)
  then have "recover_mem cfg mode ids st = (Ok True, st2\<lparr>cl_mem := m1\<rparr>)"
    using assms(1-3,5,6) by (simp add: recover_mem_def and_then_def rd g st2 un del: of_nat_add of_nat_mult)
  moreover have "m1 = (\<lambda>a. if \<exists>(i, r) \<in> set rs. selected mode ids i \<and> in_region a r then m0 a else cl_mem st a)"
    unfolding m1_def by (rule ext) (simp add: fold_restore case_prod_unfold)
  ultimately show ?thesis by simp
qed

section \<open>Well-formed clients\<close>

text \<open>
  The type invariant of a client: its maps are ordered and free of repetitions, and while a
  checkpoint is open the current command is a checkpoint of this rank with a valid name.
\<close>

definition client_wf :: "('x, 'q) client \<Rightarrow> bool" where
  "client_wf st \<longleftrightarrow> (\<forall>nm. omap_wf (mem_regions st nm)) \<and> omap_wf (observers st) \<and> omap_wf (region_info st) \<and>
     (checkpoint_in_progress st \<longrightarrow>
        command (current_ckpt st) = CHECKPOINT \<and> unique_id (current_ckpt st) = cl_rank st \<and>
        validate_name (cname (current_ckpt st)) \<and> 0 \<le> version (current_ckpt st))"

text \<open>The calls an application can make, and the state each of them leaves.\<close>

datatype api_call =
    Mem_protect int nat size_t size_t string
  | Mem_protect_serialized int serializer deserializer string
  | Mem_unprotect int string
  | Mem_clear string
  | Register_observer int nat
  | Route_file "string option" string
  | Cleanup string
  | Checkpoint string int
  | Checkpoint_begin string int
  | Checkpoint_mem int "int list"
  | Checkpoint_end
  | Checkpoint_wait
  | Restart_test string int int
  | Restart string int int
  | Restart_begin string int int
  | Recover_size int
  | Recover_mem int "int list"
  | Restart_end

fun api_step :: "'x config \<Rightarrow> ('x, 'q) link \<Rightarrow> mpi \<Rightarrow> api_call \<Rightarrow> ('x, 'q) client \<Rightarrow> ('x, 'q) client" where
  "api_step cfg lk mp (Mem_protect i p n b nm) st = snd (mem_protect i p n b nm st)"
| "api_step cfg lk mp (Mem_protect_serialized i s d nm) st = snd (mem_protect_serialized i s d nm st)"
| "api_step cfg lk mp (Mem_unprotect i nm) st = snd (mem_unprotect i nm st)"
| "api_step cfg lk mp (Mem_clear nm) st = mem_clear nm st"
| "api_step cfg lk mp (Register_observer ty obs) st = snd (register_observer ty obs st)"
| "api_step cfg lk mp (Route_file cwd orig) st = snd (route_file cfg cwd orig st)"
| "api_step cfg lk mp (Cleanup nm) st = snd (cleanup cfg nm st)"
| "api_step cfg lk mp (Checkpoint nm v) st = snd (checkpoint cfg lk mp nm v st)"
| "api_step cfg lk mp (Checkpoint_begin nm v) st = snd (checkpoint_begin nm v st)"
| "api_step cfg lk mp (Checkpoint_mem mode ids) st = snd (checkpoint_mem cfg mode ids st)"
| "api_step cfg lk mp Checkpoint_end st = snd (checkpoint_end cfg lk mp st)"
| "api_step cfg lk mp Checkpoint_wait st = snd (checkpoint_wait lk st)"
| "api_step cfg lk mp (Restart_test nm v t) st = snd (restart_test lk mp nm v t st)"
| "api_step cfg lk mp (Restart nm v t) st = snd (restart cfg lk mp nm v t st)"
| "api_step cfg lk mp (Restart_begin nm v t) st = snd (restart_begin lk mp nm v t st)"
| "api_step cfg lk mp (Recover_size i) st = snd (recover_size cfg i st)"
| "api_step cfg lk mp (Recover_mem mode ids) st = snd (recover_mem cfg mode ids st)"
| "api_step cfg lk mp Restart_end st = snd (restart_end st)"

text \<open>The fields the invariant reads; a call that changes only other fields keeps it.\<close>

lemma client_wf_frame [simp]:
  "client_wf (st\<lparr>cl_queue := q\<rparr>) = client_wf st" "client_wf (st\<lparr>cl_fs := fs\<rparr>) = client_wf st"
  "client_wf (st\<lparr>cl_mem := m\<rparr>) = client_wf st" "client_wf (st\<lparr>notified := ns\<rparr>) = client_wf st"
  "client_wf (st\<lparr>header_size := h\<rparr>) = client_wf st"
  by (simp_all add: client_wf_def)

lemma wait_queue_frame [simp]:
  "client_wf (snd (wait_queue lk st)) = client_wf st"
  "checkpoint_in_progress (snd (wait_queue lk st)) = checkpoint_in_progress st"
  "current_ckpt (snd (wait_queue lk st)) = current_ckpt st"
  by (simp_all add: wait_queue_def case_prod_unfold)

lemma run_blocking_wf [simp]:
  "client_wf (snd (run_blocking lk c st)) = client_wf st"
  "checkpoint_in_progress (snd (run_blocking lk c st)) = checkpoint_in_progress st"
  "current_ckpt (snd (run_blocking lk c st)) = current_ckpt st"
  by (simp_all add: run_blocking_def split: sum.split)

lemma regions_wf:
  assumes "client_wf st"
  shows "omap_wf (fst (get_current_ckpt_regions st))" and "client_wf (snd (get_current_ckpt_regions st))"
  using assms by (auto simp: get_current_ckpt_regions_def Let_def client_wf_def)

lemma put_region_wf [intro]: "client_wf st \<Longrightarrow> client_wf (snd (put_region i r nm st))"
  by (simp add: put_region_def client_wf_def omap_wf_assign)

lemma and_then_wf:
  "client_wf (snd r) \<Longrightarrow> (\<And>s. client_wf s \<Longrightarrow> client_wf (snd (f s))) \<Longrightarrow> client_wf (snd (and_then r f))"
  by (auto simp: and_then_def split: prod.splits outcome.splits bool.splits)

lemma header_loop_wf:
  "omap_wf info \<Longrightarrow> omap_wf (fst (header_loop rest i n info ex pos))"
proof (induction rest i n info ex pos rule: header_loop.induct)
  case (1 rest i n info ex pos)
  show ?case
    by (subst header_loop.simps) (auto simp: Let_def intro!: 1 omap_wf_insert)
qed

lemma read_header_wf: "omap_wf (snd (read_header fs p))"
  using header_loop_wf [of "[]"] unfolding read_header_def Let_def
  by (auto split: option.split prod.split) (metis fst_conv omap_wf_Nil)+

lemma read_current_header_wf: "client_wf st \<Longrightarrow> client_wf (snd (read_current_header cfg st))"
  using read_header_wf by (auto simp: read_current_header_def client_wf_def case_prod_unfold split: sum.split)

lemma checkpoint_wait_wf: "client_wf st \<Longrightarrow> client_wf (snd (checkpoint_wait lk st))"
  by (simp add: checkpoint_wait_def case_prod_unfold)

lemma checkpoint_begin_wf: "client_wf st \<Longrightarrow> client_wf (snd (checkpoint_begin nm v st))"
  by (auto simp: checkpoint_begin_def mk_command_def client_wf_def)

lemma checkpoint_mem_wf: "client_wf st \<Longrightarrow> client_wf (snd (checkpoint_mem cfg mode ids st))"
  using regions_wf [of st] by (simp add: checkpoint_mem_def case_prod_unfold split: sum.split option.split)

lemma place_in_aggregate_wf: "client_wf st \<Longrightarrow> client_wf (snd (place_in_aggregate cfg mp st))"
  by (simp add: place_in_aggregate_def case_prod_unfold Let_def split: sum.split)

lemma checkpoint_end_wf:
  assumes "client_wf st"
  shows "client_wf (snd (checkpoint_end cfg lk mp st))"
proof -
  define p where "p = (if aggregated st then place_in_aggregate cfg mp st
    else (Inr (Some (sint (offset (current_ckpt st)))), st))"
  have p: "client_wf (snd p)"
    using assms by (simp add: p_def place_in_aggregate_wf)
  have closed: "client_wf (st'\<lparr>current_ckpt := c, checkpoint_in_progress := False\<rparr>)" if "client_wf st'" for st' :: "('a, 'b) client" and c
    using that by (simp add: client_wf_def)
  show ?thesis
    unfolding checkpoint_end_def p_def [symmetric]
    using p closed [OF p] by (cases p) (auto simp: Let_def case_prod_unfold split: sum.split option.split)
qed

lemma restart_begin_wf:
  assumes "client_wf st"
  shows "client_wf (snd (restart_begin lk mp nm v t st))"
proof -
  have "client_wf (st\<lparr>current_ckpt := c\<rparr>)" if "\<not> checkpoint_in_progress st" for c
    using assms that by (simp add: client_wf_def)
  then show ?thesis
    using assms unfolding restart_begin_def Let_def
    by (auto split: sum.split prod.split outcome.split) (metis snd_conv run_blocking_wf(1))+
qed

lemma recover_mem_wf: "client_wf st \<Longrightarrow> client_wf (snd (recover_mem cfg mode ids st))"
  unfolding recover_mem_def
  by (rule and_then_wf)
    (auto simp: case_prod_unfold read_current_header_wf regions_wf split: sum.split option.split)

lemma protect_wf:
  assumes "client_wf st"
  shows "client_wf (snd (mem_protect i p n b nm st))" "client_wf (snd (mem_protect_serialized i se de nm st))"
    "client_wf (snd (mem_unprotect i nm st))" "client_wf (mem_clear nm st)" "client_wf (snd (register_observer ty obs st))"
  using assms
  by (auto simp: mem_protect_def mem_protect_serialized_def)
    (auto simp: mem_unprotect_def mem_clear_def register_observer_def client_wf_def omap_wf_erase omap_wf_assign)

lemma route_file_wf: "client_wf st \<Longrightarrow> client_wf (snd (route_file cfg cwd orig st))"
  by (auto simp: route_file_def assign_path_def Let_def client_wf_def split: sum.split option.split)

lemma cleanup_wf: "client_wf st \<Longrightarrow> client_wf (snd (cleanup cfg nm st))"
  by (simp add: cleanup_def case_prod_unfold split: sum.split)

lemma restart_test_wf: "client_wf st \<Longrightarrow> client_wf (snd (restart_test lk mp nm v t st))"
  by (simp add: restart_test_def case_prod_unfold split: sum.split)

lemma recover_size_wf: "client_wf st \<Longrightarrow> client_wf (snd (recover_size cfg i st))"
  using read_current_header_wf [of st cfg] by (auto simp: recover_size_def split: prod.split outcome.split)

lemma restart_end_wf: "client_wf st \<Longrightarrow> client_wf (snd (restart_end st))"
  by (simp add: restart_end_def)

lemmas client_ops_wf = protect_wf route_file_wf cleanup_wf checkpoint_wait_wf checkpoint_begin_wf checkpoint_mem_wf
  checkpoint_end_wf restart_test_wf restart_begin_wf recover_size_wf recover_mem_wf restart_end_wf

lemma api_step_wf: "client_wf st \<Longrightarrow> client_wf (api_step cfg lk mp call st)"
  by (cases call) (auto simp: checkpoint_def restart_def intro!: and_then_wf intro: client_ops_wf)

lemma new_client_wf: "client_wf (snd (new_client cfg lk tm system_ok comm rank ranks cur q fs m))"
  by (auto simp: new_client_def Let_def case_prod_unfold client_wf_def [of "\<lparr>cl_rank = rank, no_ranks = ranks, cl_comm = c,
      mem_regions = rs, observers = os, notified = ns, current_ckpt = cur, checkpoint_in_progress = p, aggregated = a,
      region_info = i, header_size = h, cl_queue = q, cl_fs = fs, cl_mem = m\<rparr>" for c rs os ns p a i h] split: sum.split)

section \<open>Properties\<close>

text \<open>
  C30: the type invariant of the client is kept by every sequence of calls of its interface,
  whatever the backend, the files and the other ranks answer: a new client has it, and so has
  the client after any calls.
\<close>

theorem client_stays_wf:
  "client_wf (fold (api_step cfg lk mp) calls (snd (new_client cfg lk tm system_ok comm rank ranks cur q fs m)))"
  by (induction calls rule: rev_induct) (simp_all add: new_client_wf api_step_wf)

text \<open>
  C31: a checkpoint whose memory phase fails (nothing is protected, or the file cannot be
  written) stays open: \<^verbatim>\<open>checkpoint\<close> reports the failure, and from then on every checkpoint, every
  restart and every wait of this client is refused without any effect.
\<close>

theorem failed_checkpoint_blocks_client:
  assumes "checkpoint_wait lk st = (Ok True, st0)" and "checkpoint_begin nm v st0 = (Ok True, st1)"
    and "checkpoint_mem cfg VELOC_CKPT_ALL [] st1 = (Ok False, st2)"
  shows "checkpoint cfg lk mp nm v st = (Ok False, st2) \<and> checkpoint cfg lk mp nm' v' st2 = (Ok False, st2) \<and>
    restart cfg lk mp nm' v' t st2 = (Ok False, st2) \<and> checkpoint_wait lk st2 = (Ok False, st2)"
proof -
  have "checkpoint_in_progress st1"
    using assms(2) by (auto simp: checkpoint_begin_def split: if_splits sum.splits)
  then have "checkpoint_in_progress st2"
    using assms(3)
    by (auto simp: checkpoint_mem_def get_current_ckpt_regions_def Let_def split: sum.splits if_splits option.splits prod.splits)
  then show ?thesis
    using assms by (simp add: checkpoint_def restart_def and_then_def checkpoint_wait_def restart_begin_def)
qed

text \<open>
  C29: memory goes through a checkpoint file unchanged. After a successful memory phase, recovery
  from that file succeeds in every mode; it gives each selected region the bytes it had at the
  checkpoint and leaves every other address as it is. The recovering client may be another
  process; only its regions have to be the same.
\<close>

theorem mem_roundtrip:
  assumes "checkpoint_mem cfg VELOC_CKPT_ALL [] st = (Ok True, st1)" and "checkpoint_in_progress st"
    and "get_current_ckpt_regions st = (rs, st')" and "raw_regions rs"
    and "cfg_get cfg ''scratch'' = Inr scratch" and "plain (cl_fs st) (filename (current_ckpt st) scratch)"
    and "\<not> io_error (cl_fs st) (filename (current_ckpt st) scratch)" and "\<not> deny_read (cl_fs st) (filename (current_ckpt st) scratch)"
    and "cl_fs st2 = cl_fs st1" and "filename (current_ckpt st2) scratch = filename (current_ckpt st) scratch"
    and "header_size st2 = 0" and "fst (get_current_ckpt_regions st2) = rs"
  shows "\<exists>st3. recover_mem cfg mode ids st2 = (Ok True, st3) \<and>
    cl_mem st3 = (\<lambda>a. if \<exists>(i, r) \<in> set rs. selected mode ids i \<and> in_region a r then cl_mem st a else cl_mem st2 a)"
proof -
  define p where "p = filename (current_ckpt st) scratch"
  have "rs \<noteq> []"
    using assms(1-3) by (auto simp: checkpoint_mem_def select_regions_def)
  from checkpoint_mem_all [OF assms(2,3) this assms(4-6,1,7)]
  have fs: "cl_fs st2 = set_node p (Reg (image_of (cl_mem st) rs)) (set_node p (Reg []) (cl_fs st))"
    using assms(9) by (simp add: p_def)
  then have "node_at (cl_fs st2) p = Some (Reg (image_of (cl_mem st) rs))"
    by simp
  moreover from this have "real_path (cl_fs st2) p = Some p"
    by (simp add: real_path_self)
  ultimately have "sys_open_rd (cl_fs st2) p = Some p" and "contents (cl_fs st2) p = image_of (cl_mem st) rs"
    using assms(8) fs by (simp_all add: sys_open_rd_def contents_def p_def)
  moreover have "\<not> io_error (cl_fs st2) p"
    using assms(7) fs by (simp add: p_def)
  ultimately show ?thesis
    using recover_mem_image [of st2 scratch p "cl_mem st" rs cfg mode ids] assms(4,5,10-12) by (simp add: p_def)
qed

subsection \<open>A client\<close>

definition sample_mem :: mem where
  "sample_mem a = of_nat a"

definition sample_regions :: regions where
  "sample_regions =
     [(0, \<lparr>r_ptr = 16, r_size = 2, r_ser = None, r_des = None\<rparr>), (5, \<lparr>r_ptr = 32, r_size = 1, r_ser = None, r_des = None\<rparr>)]"

definition sample_link :: "(unit, unit) link" where
  "sample_link = \<lparr>lk_enqueue = (\<lambda>_ q. Inr q), lk_wait = (\<lambda>q fs. (Ok VELOC_SUCCESS, q, fs)), lk_check = (\<lambda>_. True)\<rparr>"

definition sample_mpi :: mpi where
  "sample_mpi = \<lparr>mpi_exscan = (\<lambda>_. 0), mpi_gather = (\<lambda>x. [x]), mpi_max = (\<lambda>x. x), mpi_lor = (\<lambda>x. of_bool (x \<noteq> 0))\<rparr>"

definition sample_client :: "(string \<Rightarrow> regions) \<Rightarrow> bool \<Rightarrow> (unit, unit) client" where
  "sample_client rs progress = \<lparr>cl_rank = 3, no_ranks = 4, cl_comm = False, mem_regions = rs, observers = [], notified = [],
     current_ckpt = sample_command, checkpoint_in_progress = progress, aggregated = False, region_info = [], header_size = 0,
     cl_queue = (), cl_fs = sample_store, cl_mem = sample_mem\<rparr>"

lemma sample_client_fields:
  "cl_fs (sample_client rs b) = sample_store" "cl_mem (sample_client rs b) = sample_mem"
  "current_ckpt (sample_client rs b) = sample_command" "checkpoint_in_progress (sample_client rs b) = b"
  "header_size (sample_client rs b) = 0"
  by (simp_all add: sample_client_def)

lemma sample_raw: "raw_regions sample_regions"
  by (simp add: raw_regions_def sample_regions_def omap_wf_def is_int32_def)

theorem failed_checkpoint_blocks_client_witness:
  "\<exists>st2. checkpoint sample_cfg sample_link sample_mpi ''heat.2d'' 12 (sample_client (\<lambda>_. []) False) = (Ok False, st2) \<and>
     checkpoint sample_cfg sample_link sample_mpi ''heat.2d'' 13 st2 = (Ok False, st2) \<and>
     restart sample_cfg sample_link sample_mpi ''heat.2d'' 13 (- 1) st2 = (Ok False, st2) \<and> checkpoint_wait sample_link st2 = (Ok False, st2)"
proof -
  have "checkpoint_wait sample_link (sample_client (\<lambda>_. []) False) = (Ok True, sample_client (\<lambda>_. []) False)"
    by (simp add: checkpoint_wait_def wait_queue_def sample_link_def sample_client_def)
  moreover have "checkpoint_begin ''heat.2d'' 12 (sample_client (\<lambda>_. []) False) = (Ok True, sample_client (\<lambda>_. []) True)"
    using wf_sample_command by (simp add: checkpoint_begin_def sample_client_def mk_command_def sample_command_def wf_command_def)
  moreover have "checkpoint_mem sample_cfg VELOC_CKPT_ALL [] (sample_client (\<lambda>_. []) True) = (Ok False, sample_client (\<lambda>_. []) True)"
    by (simp add: checkpoint_mem_def get_current_ckpt_regions_def select_regions_def sample_client_def Let_def fun_upd_idem)
  ultimately show ?thesis
    using failed_checkpoint_blocks_client by blast
qed

theorem mem_roundtrip_witness:
  "\<exists>st1 st3. checkpoint_mem sample_cfg VELOC_CKPT_ALL [] (sample_client (\<lambda>_. sample_regions) True) = (Ok True, st1) \<and>
     recover_mem sample_cfg VELOC_RECOVER_SOME [5] (st1\<lparr>cl_mem := (\<lambda>_. 0)\<rparr>) = (Ok True, st3) \<and>
     cl_mem st3 32 = 32 \<and> cl_mem st3 16 = 0"
proof -
  let ?st = "sample_client (\<lambda>_. sample_regions) True"
  have op: "sys_open_wr True sample_store (filename sample_command ''/s'') =
      Some (filename sample_command ''/s'', set_node (filename sample_command ''/s'') (Reg []) sample_store)"
    by (subst open_wr_old [of _ _ "[4, 5, 6]"]) (simp_all add: sample_store_def sample_name)
  have rs: "get_current_ckpt_regions ?st = (sample_regions, ?st)"
    by (simp add: get_current_ckpt_regions_def Let_def sample_client_def sample_regions_def fun_upd_idem)
  have ne: "sample_regions \<noteq> []"
    by (simp add: sample_regions_def)
  let ?fs = "set_node (filename sample_command ''/s'') (Reg []) sample_store"
  let ?st1 = "?st\<lparr>cl_fs := set_node (filename sample_command ''/s'') (Reg (image_of sample_mem sample_regions)) ?fs\<rparr>"
  have "write_regions (region_data sample_mem sample_regions) (length sample_regions) (filename sample_command ''/s'') ?fs =
      (Ok True, cl_fs ?st1)"
    using write_regions_raw [OF sample_raw, of ?fs "filename sample_command ''/s''" sample_mem] by (simp add: sample_store_def)
  then have c: "checkpoint_mem sample_cfg VELOC_CKPT_ALL [] ?st = (Ok True, ?st1)"
    using ne op sample_cfg_get by (simp add: checkpoint_mem_def rs select_regions_def sample_client_fields)
  let ?st2 = "?st1\<lparr>cl_mem := (\<lambda>_. 0)\<rparr>"
  have "\<exists>st3. recover_mem sample_cfg VELOC_RECOVER_SOME [5] ?st2 = (Ok True, st3) \<and>
    cl_mem st3 = (\<lambda>a. if \<exists>(i, r) \<in> set sample_regions. selected VELOC_RECOVER_SOME [5] i \<and> in_region a r
      then cl_mem ?st a else cl_mem ?st2 a)"
  proof (rule mem_roundtrip [OF c _ rs sample_raw sample_cfg_get(1)])
    show "fst (get_current_ckpt_regions ?st2) = sample_regions"
      by (simp add: get_current_ckpt_regions_def Let_def sample_client_def)
  qed (simp_all add: sample_client_fields sample_store_def sample_name plain_def)
  with c show ?thesis
    by (auto simp: sample_client_fields sample_regions_def selected_def in_region_def sample_mem_def)
qed

end
