(* ===== verification/Service.thy ===== *)
theory Service
  imports Work_Queue Client
begin

text \<open>
  The client and the backend together. The locale \<open>checkpoint_service\<close> is what the client library
  relies on when it talks to a backend: what comes back from the queue after a checkpoint and
  after a restart. Inside it, a checkpoint followed by the loss of the local file and of the
  memory and a restart is shown to bring the memory back. The interpretation discharges the
  contract for the queue in shared memory, the main loop and the default chain of modules.
\<close>

section \<open>The memory phase into a new file\<close>

lemma regions_frame:
  assumes "get_current_ckpt_regions st = (rs, st')"
  shows "cl_fs st' = cl_fs st" "cl_mem st' = cl_mem st" "current_ckpt st' = current_ckpt st" "cl_queue st' = cl_queue st"
    "aggregated st' = aggregated st" "checkpoint_in_progress st' = checkpoint_in_progress st"
  using assms by (auto simp: get_current_ckpt_regions_def Let_def)

lemma checkpoint_mem_new:
  assumes "checkpoint_in_progress st" and "get_current_ckpt_regions st = (rs, st')" and "rs \<noteq> []" and "raw_regions rs"
    and "cfg_get cfg ''scratch'' = Inr scratch" and "faultless (cl_fs st)"
    and "node_at (cl_fs st) (filename (current_ckpt st) scratch) = None"
    and "is_dir (cl_fs st) (dirname (filename (current_ckpt st) scratch))"
  shows "checkpoint_mem cfg VELOC_CKPT_ALL [] st = (Ok True,
    st'\<lparr>cl_fs := set_node (filename (current_ckpt st) scratch) (Reg (image_of (cl_mem st) rs)) (cl_fs st)\<rparr>)"
proof -
  let ?p = "filename (current_ckpt st) scratch"
  have "?p \<noteq> ''''"
    by (simp add: filename_def)
  then have "sys_open_wr True (cl_fs st) ?p = Some (?p, set_node ?p (Reg []) (cl_fs st))"
    using assms(6-8) by (intro open_wr_new) simp_all
  moreover have "write_regions (region_data (cl_mem st) rs) (length rs) ?p (set_node ?p (Reg []) (cl_fs st)) =
      (Ok True, set_node ?p (Reg (image_of (cl_mem st) rs)) (cl_fs st))"
    using write_regions_raw [OF assms(4), of "set_node ?p (Reg []) (cl_fs st)" ?p] assms(6) by (simp add: faultless_def)
  ultimately show ?thesis
    using assms(1-3,5) regions_frame [OF assms(2)] by (simp add: checkpoint_mem_def select_regions_def)
qed

section \<open>What the client relies on\<close>

text \<open>
  \<open>serves q c\<close>: nothing is outstanding and the backend accepts the command \<open>c\<close>; \<open>ready\<close>: the
  checkpoint can be protected; \<open>saved c bs\<close>: the bytes can be brought back to scratch.
\<close>

locale checkpoint_service =
  fixes lk :: "('x, 'q) link" and scratch :: string
    and serves :: "'q \<Rightarrow> command_t \<Rightarrow> bool" and ready :: "'q \<Rightarrow> command_t \<Rightarrow> byte list \<Rightarrow> 'x fsys_scheme \<Rightarrow> bool"
    and saved :: "command_t \<Rightarrow> byte list \<Rightarrow> 'x fsys_scheme \<Rightarrow> bool"
  assumes idle_wait: "serves q c \<Longrightarrow> lk_wait lk q fs = (Ok VELOC_SUCCESS, q, fs)"
    and protect: "serves q c \<Longrightarrow> command c = CHECKPOINT \<Longrightarrow> ready q c bs fs \<Longrightarrow>
      \<exists>q1 q2 fs2. lk_enqueue lk c q = Inr q1 \<and> lk_wait lk q1 fs = (Ok VELOC_SUCCESS, q2, fs2) \<and> serves q2 c \<and>
        saved c bs (del_node (filename c scratch) fs2)"
    and restore: "serves q c \<Longrightarrow> command c = RESTART \<Longrightarrow> saved c bs fs \<Longrightarrow>
      \<exists>q1 q2 fs2. lk_enqueue lk c q = Inr q1 \<and> lk_wait lk q1 fs = (Ok VELOC_SUCCESS, q2, fs2) \<and>
        faultless fs2 \<and> node_at fs2 (filename c scratch) = Some (Reg bs)"
    and kind_free: "serves q (c\<lparr>command := k\<rparr>) = serves q c" "saved (c\<lparr>command := k\<rparr>) bs fs = saved c bs fs"
begin

text \<open>Both modes: the checkpoint returns, and after the wait the backend has protected it.\<close>

lemma checkpoint_protects:
  assumes "\<not> checkpoint_in_progress st" and "\<not> aggregated st" and "mk_command (cl_rank st) CHECKPOINT v nm = Inr c"
    and "validate_name nm" and "0 \<le> v" and "cfg_get cfg ''scratch'' = Inr scratch"
    and "fst (get_current_ckpt_regions (st\<lparr>current_ckpt := c\<rparr>)) = rs" and "rs \<noteq> []" and "raw_regions rs"
    and "faultless (cl_fs st)" and "node_at (cl_fs st) (filename c scratch) = None" and "is_dir (cl_fs st) (dirname (filename c scratch))"
    and "serves (cl_queue st) c"
    and "ready (cl_queue st) c (image_of (cl_mem st) rs) (set_node (filename c scratch) (Reg (image_of (cl_mem st) rs)) (cl_fs st))"
  shows "\<exists>st1 st2. checkpoint cfg lk mp nm v st = (Ok True, st1) \<and> checkpoint_wait lk st1 = (Ok True, st2) \<and>
    saved c (image_of (cl_mem st) rs) (del_node (filename c scratch) (cl_fs st2))"
proof -
  let ?p = "filename c scratch" and ?bs = "image_of (cl_mem st) rs"
  define st0 where "st0 = st\<lparr>current_ckpt := c, checkpoint_in_progress := True\<rparr>"
  have c: "command c = CHECKPOINT" "offset c = 0"
    using assms(3) by (auto simp: mk_command_def split: if_splits)
  have w: "checkpoint_wait lk st = (Ok True, st)"
    using assms(1) idle_wait [OF assms(13)] by (simp add: checkpoint_wait_def wait_queue_def)
  have b: "checkpoint_begin nm v st = (Ok True, st0)"
    using assms(1,3-5) by (simp add: checkpoint_begin_def st0_def)
  obtain st' where g: "get_current_ckpt_regions st0 = (rs, st')"
    using assms(7) by (cases "get_current_ckpt_regions st0") (auto simp: st0_def get_current_ckpt_regions_def Let_def)
  note f = regions_frame [OF g]
  define stm where "stm = st'\<lparr>cl_fs := set_node ?p (Reg ?bs) (cl_fs st)\<rparr>"
  have m: "checkpoint_mem cfg VELOC_CKPT_ALL [] st0 = (Ok True, stm)"
    using checkpoint_mem_new [OF _ g assms(8,9,6)] assms(10-12) by (simp add: st0_def stm_def)
  obtain q1 q2 fs2 where q: "lk_enqueue lk c (cl_queue st) = Inr q1"
      "lk_wait lk q1 (cl_fs stm) = (Ok VELOC_SUCCESS, q2, fs2)" "serves q2 c" "saved c ?bs (del_node ?p fs2)"
    using protect [OF assms(13) c(1) assms(14)] by (auto simp: stm_def)
  have stm: "aggregated stm = False" "current_ckpt stm = c" "cl_queue stm = cl_queue st"
    using f assms(2) by (simp_all add: stm_def st0_def)
  define ns where "ns = (case map_of (observers stm) VELOC_OBSERVE_CKPT_END of
      None \<Rightarrow> notified stm | Some obs \<Rightarrow> notified stm @ [(obs, cname c, version c)])"
  define st1 where "st1 = stm\<lparr>current_ckpt := c, checkpoint_in_progress := False, cl_queue := q1, notified := ns\<rparr>"
  have off: "c\<lparr>offset := 0\<rparr> = c"
    using c(2) by simp
  have e: "checkpoint_end cfg lk mp stm =
      (if cfg_sync cfg then (Ok True, st1\<lparr>cl_queue := q2, cl_fs := fs2\<rparr>) else (Ok True, st1))"
    using q(1,2) by (simp add: checkpoint_end_def Let_def wait_queue_def st1_def ns_def stm c(2) off cong: option.case_cong)
  have "checkpoint cfg lk mp nm v st = checkpoint_end cfg lk mp stm"
    using w b m by (simp add: checkpoint_def and_then_def)
  moreover have "checkpoint_wait lk (st1\<lparr>cl_queue := q2, cl_fs := fs2\<rparr>) = (Ok True, st1\<lparr>cl_queue := q2, cl_fs := fs2\<rparr>)"
    using idle_wait [OF q(3), of fs2] by (simp add: checkpoint_wait_def wait_queue_def st1_def)
  moreover have "checkpoint_wait lk st1 = (Ok True, st1\<lparr>cl_queue := q2, cl_fs := fs2\<rparr>)"
    using q(2) by (simp add: checkpoint_wait_def wait_queue_def st1_def)
  ultimately show ?thesis
    using e q(4) by (cases "cfg_sync cfg") auto
qed

text \<open>Any process whose regions are those of the checkpoint gets their bytes back.\<close>

lemma restart_recovers:
  assumes "saved c (image_of m0 rs) (cl_fs st)" and "\<not> checkpoint_in_progress st"
    and "mk_command (cl_rank st) CHECKPOINT v nm = Inr c" and "validate_name nm" and "0 \<le> v"
    and "cfg_get cfg ''scratch'' = Inr scratch" and "serves (cl_queue st) c"
    and "fst (get_current_ckpt_regions (st\<lparr>current_ckpt := c\<rparr>)) = rs" and "raw_regions rs"
    and "cl_comm st \<Longrightarrow> mpi_lor mp VELOC_SUCCESS = VELOC_SUCCESS"
  shows "\<exists>st'. restart cfg lk mp nm v (- 1) st = (Ok True, st') \<and>
    cl_mem st' = (\<lambda>a. if \<exists>(i, r) \<in> set rs. in_region a r then m0 a else cl_mem st a)"
proof -
  define c' where "c' = c\<lparr>command := RESTART\<rparr>"
  have mk: "mk_command (cl_rank st) RESTART v nm = Inr c'" and nm: "cname c' = cname c" "command c' = RESTART"
    using assms(3) by (auto simp: mk_command_def c'_def filename_def stem_def split: if_splits)
  obtain q1 q2 fs2 where q: "lk_enqueue lk c' (cl_queue st) = Inr q1" "lk_wait lk q1 (cl_fs st) = (Ok VELOC_SUCCESS, q2, fs2)"
      "faultless fs2" "node_at fs2 (filename c' scratch) = Some (Reg (image_of m0 rs))"
    using restore [of "cl_queue st" c' "image_of m0 rs" "cl_fs st"] assms(1,7) nm(2) kind_free by (auto simp: c'_def)
  define st1 where "st1 = st\<lparr>current_ckpt := c', cl_queue := q2, cl_fs := fs2, header_size := 0\<rparr>"
  have "restart_begin lk mp nm v (- 1) st = (Ok True, st1)"
    using assms(2,4,5,10) mk q(1,2)
    by (simp add: restart_begin_def check_rank_def run_blocking_def wait_queue_def st1_def Let_def)
  moreover have "\<exists>st'. recover_mem cfg VELOC_CKPT_ALL [] st1 = (Ok True, st') \<and>
      cl_mem st' = (\<lambda>a. if \<exists>(i, r) \<in> set rs. selected VELOC_CKPT_ALL [] i \<and> in_region a r then m0 a else cl_mem st1 a)"
  proof (rule recover_mem_image [OF _ _ _ assms(9) _ assms(6)])
    show "sys_open_rd (cl_fs st1) (filename (current_ckpt st1) scratch) = Some (filename c' scratch)"
      using q(3,4) by (simp add: st1_def open_rd_faultless)
    show "fst (get_current_ckpt_regions st1) = rs"
      using assms(8) nm(1) by (auto simp: get_current_ckpt_regions_def Let_def st1_def split: if_splits)
  qed (use q(3,4) in \<open>simp_all add: st1_def contents_def faultless_def\<close>)
  moreover have "cl_mem st1 = cl_mem st"
    by (simp add: st1_def)
  ultimately show ?thesis
    by (auto simp: restart_def and_then_def restart_end_def selected_def cong: if_cong)
qed

end

section \<open>The backend behind the queue\<close>

text \<open>
  One pass of the serial server: take a command, run it, report the result. An exception other
  than \<^verbatim>\<open>FATAL\<close> leaves the command unreported.
\<close>

definition serve_one ::
    "'s method_t list \<Rightarrow> client_queue backend \<times> 's \<Rightarrow> (client_queue backend \<times> 's) outcome option" where
  "serve_one modules x =
     (case ipc_dequeue_any (fst x) of
        None \<Rightarrow> None
      | Some ((i, t, c), q) \<Rightarrow>
          Some (case notify_command modules c (snd x) of
                  (Ok r, s) \<Rightarrow> Ok (ipc_set_completion i t r q, s)
                | (Throws e, s) \<Rightarrow> if e = Fatal then Throws Fatal else Ok (q, s)
                | (Diverges, s) \<Rightarrow> Diverges))"

lemma serve_one_serial:
  assumes "serve_one modules (q, s) = Some (Ok (q', s'))"
  shows "rtranclp (serial_step modules) (q, s, None) (q', s', None)"
proof -
  obtain i t c q1 where d: "ipc_dequeue_any q = Some ((i, t, c), q1)"
      and n: "(\<exists>r. notify_command modules c s = (Ok r, s') \<and> q' = ipc_set_completion i t r q1) \<or>
        (\<exists>e. notify_command modules c s = (Throws e, s') \<and> e \<noteq> Fatal \<and> q' = q1)"
    using assms by (auto simp: serve_one_def split: option.splits prod.splits outcome.splits if_splits)
  have "serial_step modules (q, s, None) (q1, s, Some (i, t, c))"
    by (rule take [OF d])
  moreover have "serial_step modules (q1, s, Some (i, t, c)) (q', s', None)"
    using n by (auto intro: run fail)
  ultimately show ?thesis
    by (metis rtranclp.rtrancl_into_rtrancl rtranclp.rtrancl_refl)
qed

definition outstanding :: "client_queue backend \<Rightarrow> nat" where
  "outstanding q = sum_list (map (\<lambda>x. length (q_pending (snd x))) (clients q))"

lemma outstanding_completion: "outstanding (ipc_set_completion i t r q) = outstanding q"
  by (simp add: outstanding_def ipc_set_completion_def at_client_def finish_def o_def case_prod_unfold if_distrib cong: if_cong)

lemma take_front_pending: "q_pending (take_front t q) = tl (q_pending q)"
  by (simp add: take_front_def)

lemma dequeue_outstanding:
  assumes "ipc_dequeue_any q = Some (x, q')"
  shows "outstanding q' < outstanding q"
proof -
  have le: "sum_list (map (\<lambda>x. length (q_pending (snd x))) (at_client i (take_front t) cs)) \<le>
      sum_list (map (\<lambda>x. length (q_pending (snd x))) cs)" for i t and cs :: "(int \<times> client_queue) list"
    by (induction cs) (auto simp: at_client_def take_front_pending)
  have "sum_list (map (\<lambda>x. length (q_pending (snd x))) (at_client i (take_front t) cs)) <
      sum_list (map (\<lambda>x. length (q_pending (snd x))) cs)"
    if "find_non_empty_pending cs = Some (i, c)" for i c t and cs :: "(int \<times> client_queue) list"
    using that
  proof (induction cs rule: find_non_empty_pending.induct)
    case (2 j c' cs)
    show ?case
    proof (cases "q_pending c' = []")
      case True
      with 2 show ?thesis by (simp add: at_client_def take_front_pending)
    next
      case False
      with 2(2) have "j = i" by simp
      with False le [of i t cs] show ?thesis
        by (cases "q_pending c'") (simp_all add: at_client_def take_front_pending)
    qed
  qed simp
  then show ?thesis
    using assms by (auto simp: ipc_dequeue_any_def dequeue_front_def outstanding_def split: option.splits)
qed

lemma serve_one_outstanding:
  "serve_one modules x = Some (Ok y) \<Longrightarrow> outstanding (fst y) < outstanding (fst x)"
  using dequeue_outstanding [of "fst x"] outstanding_completion
  by (auto simp: serve_one_def split: option.splits prod.splits outcome.splits if_splits)

text \<open>The server until its queue is empty; it ends because nobody sends while the client waits.\<close>

function drain :: "'s method_t list \<Rightarrow> client_queue backend \<times> 's \<Rightarrow> (client_queue backend \<times> 's) outcome" where
  "drain modules x =
     (case serve_one modules x of
        None \<Rightarrow> Ok x
      | Some (Ok y) \<Rightarrow> drain modules y
      | Some r \<Rightarrow> r)"
  by pat_completeness auto
termination
  by (relation "measure (\<lambda>(_, x). outstanding (fst x))") (auto simp: serve_one_outstanding)

declare drain.simps [simp del]

text \<open>
  The link of client \<open>i\<close> to a backend with the modules \<^verbatim>\<open>add_default\<close> makes: the commands go through
  the queue in shared memory, and while the client waits the backend works until nothing is left.
  The files are the client's; the modules see them while they work.
\<close>

definition local_link ::
    "'x mod_env \<Rightarrow> 'x config \<Rightarrow> int \<Rightarrow> ('x, client_queue backend \<times> 'x modules) link" where
  "local_link env cfg i =
     \<lparr>lk_enqueue = (\<lambda>c (q, s). Inr (ipc_enqueue i c q, s)),
      lk_wait = (\<lambda>(q, s) fs.
        case drain (default_methods env cfg None) (q, s\<lparr>md_fs := fs\<rparr>) of
          Ok (q', s') \<Rightarrow>
            (case ipc_wait_completion i True q' of
               None \<Rightarrow> (Diverges, (q', s'\<lparr>md_fs := md_fs s\<rparr>), md_fs s')
             | Some (r, q'') \<Rightarrow> (Ok r, (q'', s'\<lparr>md_fs := md_fs s\<rparr>), md_fs s'))
        | Throws e \<Rightarrow> (Throws e, (q, s), fs)
        | Diverges \<Rightarrow> (Diverges, (q, s), fs)),
      lk_check = (\<lambda>(q, s). ipc_check_completion i q)\<rparr>"

text \<open>A backend with this one client and nothing outstanding, which keeps all versions.\<close>

definition stack_serves ::
    "'x mod_env \<Rightarrow> 'x config \<Rightarrow> string \<Rightarrow> string \<Rightarrow> string \<Rightarrow> bool \<Rightarrow> int \<Rightarrow>
     client_queue backend \<times> 'x modules \<Rightarrow> command_t \<Rightarrow> bool" where
  "stack_serves env cfg scratch persistent meta active i x c \<longleftrightarrow>
     clients (fst x) = [(i, new_queue)] \<and> keeps_all c (snd x) \<and> md_chksum (snd x) = active \<and>
     0 \<le> tr_interval (md_transfer (snd x)) \<and> (\<forall>bs. length (env_sha256 env bs) = HASH_SIZE) \<and>
     cfg_get cfg ''scratch'' = Inr scratch \<and> cfg_get cfg ''meta'' = Inr meta \<and>
     cfg_storage cfg = Some (posix_module scratch persistent)"

definition stack_ready ::
    "'x mod_env \<Rightarrow> string \<Rightarrow> string \<Rightarrow> string \<Rightarrow>
     client_queue backend \<times> 'x modules \<Rightarrow> command_t \<Rightarrow> byte list \<Rightarrow> 'x fsys_scheme \<Rightarrow> bool" where
  "stack_ready env scratch persistent meta x c bs fs \<longleftrightarrow>
     prepared scratch persistent meta c bs fs \<and> due (env_now env) c (md_transfer (snd x))"

lemma link_wait_one:
  assumes "clients q = [(i, new_queue)]"
    and "notify_command (default_methods env cfg None) c (s\<lparr>md_fs := fs\<rparr>) = (Ok VELOC_SUCCESS, s')"
  shows "\<exists>q1 q2. lk_enqueue (local_link env cfg i) c (q, s) = Inr q1 \<and>
    lk_wait (local_link env cfg i) q1 fs = (Ok VELOC_SUCCESS, (q2, s'\<lparr>md_fs := md_fs s\<rparr>), md_fs s') \<and> clients q2 = [(i, new_queue)]"
proof -
  let ?ms = "default_methods env cfg None" and ?q = "ipc_enqueue i c q"
  let ?done = "q\<lparr>clients := [(i, new_queue)], next_it := next_it q + 1\<rparr>"
  have "clients ?q = [(i, \<lparr>q_status = VELOC_SUCCESS, q_pending = [c], q_progress = []\<rparr>)]" "next_it ?q = next_it q"
    using assms(1) by (simp_all add: ipc_enqueue_def at_client_def push_pending_def new_queue_def)
  then have "ipc_dequeue_any ?q = Some ((i, next_it q, c),
      ?q\<lparr>clients := [(i, \<lparr>q_status = VELOC_SUCCESS, q_pending = [], q_progress = [(next_it q, c)]\<rparr>)], next_it := next_it q + 1\<rparr>)"
    by (simp add: ipc_dequeue_any_def dequeue_front_def at_client_def take_front_def)
  then have "serve_one ?ms (?q, s\<lparr>md_fs := fs\<rparr>) = Some (Ok (?done, s'))"
    using assms(2)
    by (simp add: serve_one_def ipc_set_completion_def at_client_def finish_def combine_status_def new_queue_def ipc_enqueue_def)
  moreover have "serve_one ?ms (?done, s') = None"
    by (simp add: serve_one_def ipc_dequeue_any_def dequeue_front_def new_queue_def)
  ultimately have "drain ?ms (?q, s\<lparr>md_fs := fs\<rparr>) = Ok (?done, s')"
    by (simp add: drain.simps)
  moreover have "ipc_wait_completion i True ?done = Some (VELOC_SUCCESS, ?done)"
    by (simp add: ipc_wait_completion_def idle_def at_client_def new_queue_def)
  ultimately show ?thesis
    by (simp add: local_link_def)
qed

lemma stack_protects:
  assumes "stack_serves env cfg scratch persistent meta active i x c" and "command c = CHECKPOINT"
    and "stack_ready env scratch persistent meta x c bs fs"
  shows "\<exists>q1 q2 fs2. lk_enqueue (local_link env cfg i) c x = Inr q1 \<and>
    lk_wait (local_link env cfg i) q1 fs = (Ok VELOC_SUCCESS, q2, fs2) \<and>
    stack_serves env cfg scratch persistent meta active i q2 c \<and>
    saved_remote (env_sha256 env) scratch persistent meta active c bs (del_node (filename c scratch) fs2)"
proof -
  obtain q s where x: "x = (q, s)"
    by (cases x)
  let ?s = "s\<lparr>md_fs := fs\<rparr>"
  have sv: "clients q = [(i, new_queue)]" "keeps_all c ?s" "md_chksum ?s = active" "0 \<le> tr_interval (md_transfer ?s)"
      "cfg_get cfg ''scratch'' = Inr scratch" "cfg_get cfg ''meta'' = Inr meta" "cfg_storage cfg = Some (posix_module scratch persistent)"
    using assms(1) by (auto simp: stack_serves_def x)
  have pr: "prepared scratch persistent meta c bs (md_fs ?s)" "due (env_now env) c (md_transfer ?s)"
    using assms(3) by (auto simp: stack_ready_def x)
  obtain s' where s': "notify_command (default_methods env cfg None) c ?s = (Ok VELOC_SUCCESS, s')"
      "md_fs s' = (if active then set_node (meta_filename c meta) (Reg (env_sha256 env bs)) (set_node (filename c persistent) (Reg bs) fs)
         else set_node (filename c persistent) (Reg bs) fs)"
      "keeps_all c s'" "md_chksum s' = active" "tr_interval (md_transfer s') = tr_interval (md_transfer ?s)"
    using chain_checkpoint [OF pr(1) assms(2) sv(2) pr(2) sv(5-7)] sv(3) by auto
  obtain q1 q2 where q: "lk_enqueue (local_link env cfg i) c x = Inr q1"
      "lk_wait (local_link env cfg i) q1 fs = (Ok VELOC_SUCCESS, (q2, s'\<lparr>md_fs := md_fs s\<rparr>), md_fs s')" "clients q2 = [(i, new_queue)]"
    using link_wait_one [OF sv(1) s'(1)] by (auto simp: x)
  have "saved_remote (env_sha256 env) scratch persistent meta active c bs (del_node (filename c scratch) (md_fs s'))"
    using checkpoint_saves [OF pr(1), of "env_sha256 env" active] s'(2) by (cases active) simp_all
  moreover have "stack_serves env cfg scratch persistent meta active i (q2, s'\<lparr>md_fs := md_fs s\<rparr>) c"
    using assms(1) s'(3-5) q(3) by (simp add: stack_serves_def x)
  ultimately show ?thesis
    using q(1,2) by blast
qed

lemma stack_restores:
  assumes "stack_serves env cfg scratch persistent meta active i x c" and "command c = RESTART"
    and "saved_remote (env_sha256 env) scratch persistent meta active c bs fs"
  shows "\<exists>q1 q2 fs2. lk_enqueue (local_link env cfg i) c x = Inr q1 \<and>
    lk_wait (local_link env cfg i) q1 fs = (Ok VELOC_SUCCESS, q2, fs2) \<and>
    faultless fs2 \<and> node_at fs2 (filename c scratch) = Some (Reg bs)"
proof -
  obtain q s where x: "x = (q, s)"
    by (cases x)
  let ?s = "s\<lparr>md_fs := fs\<rparr>"
  have sv: "clients q = [(i, new_queue)]" "keeps_all c ?s" "md_chksum ?s = active" "0 \<le> tr_interval (md_transfer ?s)"
      "\<And>bs. length (env_sha256 env bs) = HASH_SIZE" "cfg_get cfg ''scratch'' = Inr scratch" "cfg_get cfg ''meta'' = Inr meta"
      "cfg_storage cfg = Some (posix_module scratch persistent)"
    using assms(1) by (auto simp: stack_serves_def x)
  have "saved_remote (env_sha256 env) scratch persistent meta (md_chksum ?s) c bs (md_fs ?s)"
    using assms(3) sv(3) by simp
  from chain_restart [OF this sv(5) assms(2) sv(2,4,6-8)] obtain s' where
      s': "notify_command (default_methods env cfg None) c ?s = (Ok VELOC_SUCCESS, s')" "md_fs s' = set_node (filename c scratch) (Reg bs) fs"
    by auto
  have "faultless (md_fs s')" "node_at (md_fs s') (filename c scratch) = Some (Reg bs)"
    using s'(2) assms(3) by (simp_all add: saved_remote_def)
  with link_wait_one [OF sv(1) s'(1)] show ?thesis
    unfolding x by blast
qed

interpretation stack: checkpoint_service "local_link env cfg i" scratch
    "stack_serves env cfg scratch persistent meta active i" "stack_ready env scratch persistent meta"
    "saved_remote (env_sha256 env) scratch persistent meta active"
  for env cfg i scratch persistent meta active
proof
  fix x :: "client_queue backend \<times> 'a modules" and c k and fs :: "'a fsys_scheme" and bs
  assume s: "stack_serves env cfg scratch persistent meta active i x c"
  obtain q m where x: "x = (q, m)"
    by (cases x)
  have "clients q = [(i, new_queue)]"
    using s by (simp add: stack_serves_def x)
  then have "serve_one ms (q, y) = None" "ipc_wait_completion i True q = Some (VELOC_SUCCESS, q)" for ms :: "'a modules method_t list" and y
    by (simp_all add: serve_one_def ipc_dequeue_any_def dequeue_front_def ipc_wait_completion_def idle_def at_client_def new_queue_def)
  then show "lk_wait (local_link env cfg i) x fs = (Ok VELOC_SUCCESS, x, fs)"
    by (simp add: local_link_def drain.simps x)
qed ((rule stack_protects stack_restores; assumption)+, simp_all add: stack_serves_def)

end
