(* ===== verification/Posix_Cache.thy ===== *)
theory Posix_Cache
  imports Config
begin

text \<open>
  The cached files of \<^verbatim>\<open>src/src/lib/posix_cache.cpp\<close>: a write goes to a file on scratch and a
  background thread copies the written range to the remote file. All objects share one static
  context. A descriptor is the path it was opened on, \<open>None\<close> is -1; the flags of \<^verbatim>\<open>open\<close> are those
  for reading and those that create the file. The thread works in two steps: it takes a command
  under the lock, and it runs it without the lock and then updates the context. \<open>Diverges\<close> is a
  call that waits.
\<close>

section \<open>The context and its thread\<close>

datatype async_op = WRITE | CLOSE

record async_command_t =
  ac_op :: async_op
  ac_fl :: string
  ac_fr :: string
  ac_offset :: size_t
  ac_size :: size_t

record 'x async_context =
  MAX_QUEUE_SIZE :: size_t
  async_op_size :: size_t
  async_op_queue :: "async_command_t list"
  in_flight :: "async_command_t option"
  started :: bool
  finished :: bool
  fail_status :: bool
  ca_fs :: "'x fsys_scheme"

definition async_take :: "'x async_context \<Rightarrow> 'x async_context option" where
  "async_take ctx =
     (case (in_flight ctx, async_op_queue ctx) of
        (None, cmd # cmds) \<Rightarrow> Some (ctx\<lparr>async_op_queue := cmds, in_flight := Some cmd\<rparr>)
      | _ \<Rightarrow> None)"

text \<open>The flag \<^verbatim>\<open>fail_status\<close> is joined with the result of the transfer, as it stands in the code.\<close>

definition async_run :: "'x async_context \<Rightarrow> (bool option \<times> 'x async_context) option" where
  "async_run ctx =
     (case in_flight ctx of
        None \<Rightarrow> None
      | Some cmd \<Rightarrow>
          (case ac_op cmd of
             CLOSE \<Rightarrow> Some (None, ctx\<lparr>in_flight := None\<rparr>)
           | WRITE \<Rightarrow>
               (case file_transfer_loop (ca_fs ctx) (ac_fl cmd) (unat (ac_offset cmd)) (ac_fr cmd) (unat (ac_offset cmd)) (unat (ac_size cmd)) of
                  None \<Rightarrow> None
                | Some (result, fs) \<Rightarrow>
                    Some (Some result,
                      ctx\<lparr>ca_fs := fs, fail_status := (fail_status ctx \<or> result),
                          async_op_size := async_op_size ctx - ac_size cmd, in_flight := None\<rparr>))))"

definition thread_exits :: "'x async_context \<Rightarrow> bool" where
  "thread_exits ctx \<longleftrightarrow> finished ctx \<and> async_op_queue ctx = []"

text \<open>\<open>None\<close>: the caller waits. After the shutdown the command is dropped.\<close>

definition send_command :: "async_command_t \<Rightarrow> 'x async_context \<Rightarrow> 'x async_context option" where
  "send_command cmd ctx =
     (if \<not> finished ctx \<and> async_op_size ctx + ac_size cmd > MAX_QUEUE_SIZE ctx then None
      else if finished ctx then Some ctx
      else Some (ctx\<lparr>async_op_queue := async_op_queue ctx @ [cmd], async_op_size := async_op_size ctx + ac_size cmd\<rparr>))"

section \<open>Cached files\<close>

record cached_file =
  cf_scratch :: string
  cf_fl :: "string option"
  cf_fr :: "string option"

abbreviation DEFAULT_QUEUE_SIZE :: size_t where "DEFAULT_QUEUE_SIZE \<equiv> 65536"

text \<open>\<^verbatim>\<open>stringstream >> size_t\<close>.\<close>

definition read_size :: "string \<Rightarrow> size_t option" where
  "read_size s =
     (let t = lskip s; neg = (t \<noteq> '''' \<and> hd t = CHR ''-'');
          body = (if t \<noteq> '''' \<and> (hd t = CHR ''-'' \<or> hd t = CHR ''+'') then tl t else t);
          ds = takeWhile is_digit body; n = text_nat ds
      in if ds = '''' \<or> n \<ge> 2 ^ 64 then None else Some (if neg then - of_nat n else of_nat n))"

definition new_cached_file ::
    "(string \<Rightarrow> string option) \<Rightarrow> string \<Rightarrow> 'x async_context \<Rightarrow> cached_file res \<times> 'x async_context" where
  "new_cached_file env scratch ctx =
     (case check_dir (ca_fs ctx) scratch of
        (ok, fs) \<Rightarrow>
          if \<not> ok then (Inl Fatal, ctx\<lparr>ca_fs := fs\<rparr>)
          else
            (Inr \<lparr>cf_scratch = scratch, cf_fl = None, cf_fr = None\<rparr>,
             ctx\<lparr>ca_fs := fs, started := True,
                 MAX_QUEUE_SIZE :=
                   (case env ''VELOC_POSIX_CACHE_SIZE'' of
                      None \<Rightarrow> DEFAULT_QUEUE_SIZE
                    | Some s \<Rightarrow> (case read_size s of None \<Rightarrow> DEFAULT_QUEUE_SIZE | Some n \<Rightarrow> n))\<rparr>))"

definition basename :: "string \<Rightarrow> string" where
  "basename p = rev (takeWhile (\<lambda>c. c \<noteq> CHR ''/'') (rev p))"

datatype open_flags = O_RDONLY | O_RDWR_CREAT | O_RDWR_CREAT_TRUNC

definition sys_open :: "open_flags \<Rightarrow> 'x fsys_scheme \<Rightarrow> string \<Rightarrow> (string \<times> 'x fsys_scheme) option" where
  "sys_open flags fs p =
     (case flags of
        O_RDONLY \<Rightarrow> map_option (\<lambda>f. (f, fs)) (sys_open_rd fs p)
      | O_RDWR_CREAT \<Rightarrow> sys_open_wr False fs p
      | O_RDWR_CREAT_TRUNC \<Rightarrow> sys_open_wr True fs p)"

definition cf_open ::
    "string \<Rightarrow> open_flags \<Rightarrow> cached_file \<Rightarrow> 'x async_context \<Rightarrow> bool \<times> cached_file \<times> 'x async_context" where
  "cf_open fname flags cf ctx =
     (if cf_fl cf \<noteq> None \<or> cf_fr cf \<noteq> None then (False, cf, ctx)
      else (case sys_open_wr False (ca_fs ctx) (cf_scratch cf @ ''/'' @ basename fname) of
              None \<Rightarrow> (False, cf, ctx)
            | Some (fl, fs1) \<Rightarrow>
                (case sys_open flags fs1 fname of
                   None \<Rightarrow> (False, cf\<lparr>cf_fl := Some fl\<rparr>, ctx\<lparr>ca_fs := fs1\<rparr>)
                 | Some (fr, fs2) \<Rightarrow> (True, cf\<lparr>cf_fl := Some fl, cf_fr := Some fr\<rparr>, ctx\<lparr>ca_fs := fs2\<rparr>))))"

text \<open>
  The loops of \<^verbatim>\<open>pread\<close> and \<^verbatim>\<open>pwrite\<close>. The buffer is not advanced: every round reads into its
  beginning, or writes its first \<^verbatim>\<open>count\<close> bytes.
\<close>

function cf_pread_loop :: "'x fsys_scheme \<Rightarrow> string \<Rightarrow> byte list \<Rightarrow> nat \<Rightarrow> nat \<Rightarrow> bool \<times> byte list" where
  "cf_pread_loop fs fr buf count off =
     (if count = 0 then (True, buf)
      else (case sys_pread fs fr count off of
              None \<Rightarrow> (False, buf)
            | Some bs \<Rightarrow>
                if bs = [] then (False, buf)
                else cf_pread_loop fs fr (bs @ drop (length bs) buf) (count - length bs) (off + length bs)))"
  by pat_completeness auto
termination
  by (relation "measure (\<lambda>(_, _, _, count, _). count)") auto

declare cf_pread_loop.simps [simp del]

definition cf_pread :: "byte list \<Rightarrow> nat \<Rightarrow> nat \<Rightarrow> cached_file \<Rightarrow> 'x async_context \<Rightarrow> bool \<times> byte list" where
  "cf_pread buf count off cf ctx =
     (case (cf_fl cf, cf_fr cf) of
        (Some _, Some fr) \<Rightarrow> cf_pread_loop (ca_fs ctx) fr buf count off
      | _ \<Rightarrow> (False, buf))"

partial_function (option) cf_pwrite_loop ::
    "'x fsys_scheme \<Rightarrow> string \<Rightarrow> byte list \<Rightarrow> nat \<Rightarrow> nat \<Rightarrow> (bool \<times> 'x fsys_scheme) option" where
  "cf_pwrite_loop fs fl buf count off =
     (if count = 0 then Some (True, fs)
      else (case sys_pwrite fs fl (take count buf) off of
              None \<Rightarrow> Some (False, fs)
            | Some (k, fs') \<Rightarrow> cf_pwrite_loop fs' fl buf (count - k) (off + k)))"

definition cf_pwrite ::
    "byte list \<Rightarrow> nat \<Rightarrow> cached_file \<Rightarrow> 'x async_context \<Rightarrow> bool outcome \<times> 'x async_context" where
  "cf_pwrite buf off cf ctx =
     (case (cf_fl cf, cf_fr cf) of
        (Some fl, Some fr) \<Rightarrow>
          (case cf_pwrite_loop (ca_fs ctx) fl buf (length buf) off of
             None \<Rightarrow> (Diverges, ctx)
           | Some (ok, fs) \<Rightarrow>
               let ctx1 = ctx\<lparr>ca_fs := fs\<rparr> in
               if \<not> ok then (Ok False, ctx1)
               else (case send_command \<lparr>ac_op = WRITE, ac_fl = fl, ac_fr = fr, ac_offset = of_nat off, ac_size = of_nat (length buf)\<rparr> ctx1 of
                       None \<Rightarrow> (Diverges, ctx1)
                     | Some ctx2 \<Rightarrow> (Ok True, ctx2)))
      | _ \<Rightarrow> (Ok False, ctx))"

definition cf_close :: "cached_file \<Rightarrow> 'x async_context \<Rightarrow> (cached_file \<times> 'x async_context) option" where
  "cf_close cf ctx =
     (case (cf_fl cf, cf_fr cf) of
        (Some fl, Some fr) \<Rightarrow>
          map_option (\<lambda>ctx'. (cf\<lparr>cf_fl := None, cf_fr := None\<rparr>, ctx'))
            (send_command \<lparr>ac_op = CLOSE, ac_fl = fl, ac_fr = fr, ac_offset = 0, ac_size = 0\<rparr> ctx)
      | _ \<Rightarrow> Some (cf, ctx))"

definition cf_flush :: "'x async_context \<Rightarrow> (bool \<times> 'x async_context) option" where
  "cf_flush ctx =
     (if async_op_queue ctx \<noteq> [] then None else Some (\<not> fail_status ctx, ctx\<lparr>fail_status := False\<rparr>))"

definition cf_shutdown :: "'x async_context \<Rightarrow> 'x async_context" where
  "cf_shutdown ctx = ctx\<lparr>finished := True\<rparr>"

section \<open>The effect of the loops\<close>

lemma write_at_outside: "i < length c \<Longrightarrow> i < off \<or> off + length bs \<le> i \<Longrightarrow> write_at c off bs ! i = c ! i"
  by (cases "bs = []") (auto simp: nth_write_at)

lemma write_at_inside: "off \<le> i \<Longrightarrow> i < off + length bs \<Longrightarrow> write_at c off bs ! i = bs ! (i - off)"
  by (cases "bs = []") (auto simp: nth_write_at)

lemma pwrite_loop_effect:
  assumes "node_at fs fl = Some (Reg L)" and "count \<le> length buf"
  shows "\<exists>ok fs' L'. cf_pwrite_loop fs fl buf count off = Some (ok, fs') \<and>
    node_at fs' fl = Some (Reg L') \<and> length L \<le> length L' \<and> (ok \<and> 0 < count \<longrightarrow> off + count \<le> length L') \<and>
    (\<forall>i < length L. i < off \<or> off + count \<le> i \<longrightarrow> L' ! i = L ! i) \<and> (\<forall>p. p \<noteq> fl \<longrightarrow> node_at fs' p = node_at fs p)"
  using assms
proof (induction count arbitrary: fs L off rule: less_induct)
  case (less count)
  show ?case
  proof (cases "count = 0 \<or> io_error fs fl")
    case True
    then have "\<exists>ok. cf_pwrite_loop fs fl buf count off = Some (ok, fs) \<and> (ok \<longrightarrow> count = 0)"
      by (subst cf_pwrite_loop.simps) (auto simp: sys_pwrite_def)
    with less.prems(1) show ?thesis by auto
  next
    case False
    define k where "k = clip (wr_chunk fs) count"
    have k: "0 < k" "k \<le> count"
      using False clip_pos [of count "wr_chunk fs"] clip_le [of "wr_chunk fs" count] by (auto simp: k_def)
    define L1 where "L1 = write_at L off (take k buf)"
    have "sys_pwrite fs fl (take count buf) off = Some (k, set_node fl (Reg L1) fs)"
      using False less.prems k by (simp add: sys_pwrite_def contents_def Let_def k_def L1_def min_def)
    then have step: "cf_pwrite_loop fs fl buf count off = cf_pwrite_loop (set_node fl (Reg L1) fs) fl buf (count - k) (off + k)"
      using False by (subst cf_pwrite_loop.simps) simp
    have L1: "length L \<le> length L1" "off + k \<le> length L1" "\<And>i. i < length L \<Longrightarrow> i < off \<or> off + k \<le> i \<Longrightarrow> L1 ! i = L ! i"
      using k less.prems(2) by (auto simp: L1_def length_write_at write_at_outside)
    have "\<exists>ok fs' L'. cf_pwrite_loop (set_node fl (Reg L1) fs) fl buf (count - k) (off + k) = Some (ok, fs') \<and>
        node_at fs' fl = Some (Reg L') \<and> length L1 \<le> length L' \<and> (ok \<and> 0 < count - k \<longrightarrow> off + k + (count - k) \<le> length L') \<and>
        (\<forall>i < length L1. i < off + k \<or> off + k + (count - k) \<le> i \<longrightarrow> L' ! i = L1 ! i) \<and>
        (\<forall>p. p \<noteq> fl \<longrightarrow> node_at fs' p = node_at (set_node fl (Reg L1) fs) p)"
      using k less.prems(2) by (intro less.IH) auto
    then obtain ok fs' L' where r: "cf_pwrite_loop (set_node fl (Reg L1) fs) fl buf (count - k) (off + k) = Some (ok, fs')"
        "node_at fs' fl = Some (Reg L')" and len: "length L1 \<le> length L'"
        and full: "ok \<and> 0 < count - k \<longrightarrow> off + k + (count - k) \<le> length L'"
        and keep: "\<forall>i < length L1. i < off + k \<or> off + k + (count - k) \<le> i \<longrightarrow> L' ! i = L1 ! i"
        and other: "\<forall>p. p \<noteq> fl \<longrightarrow> node_at fs' p = node_at (set_node fl (Reg L1) fs) p"
      by (elim exE conjE)
    show ?thesis
    proof (intro exI conjI allI impI)
      show "cf_pwrite_loop fs fl buf count off = Some (ok, fs')" "node_at fs' fl = Some (Reg L')"
        using step r by simp_all
      show "length L \<le> length L'"
        using len L1(1) by linarith
      show "off + count \<le> length L'" if "ok \<and> 0 < count"
        using full that k len L1(2) by (cases "k = count") auto
      show "L' ! i = L ! i" if "i < length L" "i < off \<or> off + count \<le> i" for i
      proof -
        have "i < off + k \<or> off + k + (count - k) \<le> i" "i < off \<or> off + k \<le> i" "i < length L1"
          using that k L1(1) by linarith+
        with keep L1(3) [OF that(1)] show ?thesis by auto
      qed
      show "node_at fs' p = node_at fs p" if "p \<noteq> fl" for p
        using other that by simp
    qed
  qed
qed

section \<open>Histories\<close>

text \<open>
  The steps of one application thread with the open file \<open>(fl, fr)\<close> and the background thread. A
  write is two steps, the local write and the hand-over, which may have to wait. The log holds
  the ranges written so far, the results since the last flush and all results.
\<close>

record 'x cache_log =
  lg_ctx :: "'x async_context"
  lg_waiting :: "async_command_t option"
  lg_written :: "(nat \<times> nat) list"
  lg_recent :: "bool list"
  lg_results :: "bool list"

definition write_command :: "string \<Rightarrow> string \<Rightarrow> nat \<Rightarrow> nat \<Rightarrow> async_command_t" where
  "write_command fl fr off n = \<lparr>ac_op = WRITE, ac_fl = fl, ac_fr = fr, ac_offset = of_nat off, ac_size = of_nat n\<rparr>"

inductive cache_step :: "string \<Rightarrow> string \<Rightarrow> 'x cache_log \<Rightarrow> 'x cache_log \<Rightarrow> bool" for fl fr where
  write_local: "lg_waiting s = None \<Longrightarrow> off + length buf < 2 ^ 63 \<Longrightarrow>
     cf_pwrite_loop (ca_fs (lg_ctx s)) fl buf (length buf) off = Some (True, fs) \<Longrightarrow>
     cache_step fl fr s (s\<lparr>lg_ctx := (lg_ctx s)\<lparr>ca_fs := fs\<rparr>, lg_waiting := Some (write_command fl fr off (length buf)),
       lg_written := (off, length buf) # lg_written s\<rparr>)"
| hand_over: "lg_waiting s = Some cmd \<Longrightarrow> send_command cmd (lg_ctx s) = Some ctx \<Longrightarrow>
     cache_step fl fr s (s\<lparr>lg_ctx := ctx, lg_waiting := None\<rparr>)"
| thread_takes: "async_take (lg_ctx s) = Some ctx \<Longrightarrow> cache_step fl fr s (s\<lparr>lg_ctx := ctx\<rparr>)"
| thread_runs: "async_run (lg_ctx s) = Some (Some r, ctx) \<Longrightarrow>
     cache_step fl fr s (s\<lparr>lg_ctx := ctx, lg_recent := r # lg_recent s, lg_results := r # lg_results s\<rparr>)"
| flush: "cf_flush (lg_ctx s) = Some (ok, ctx) \<Longrightarrow> cache_step fl fr s (s\<lparr>lg_ctx := ctx, lg_recent := []\<rparr>)"

definition cache_start :: "string \<Rightarrow> string \<Rightarrow> 'x cache_log \<Rightarrow> bool" where
  "cache_start fl fr s \<longleftrightarrow> fl \<noteq> fr \<and> (\<exists>L R. node_at (ca_fs (lg_ctx s)) fl = Some (Reg L) \<and> node_at (ca_fs (lg_ctx s)) fr = Some (Reg R)) \<and>
     async_op_queue (lg_ctx s) = [] \<and> in_flight (lg_ctx s) = None \<and> \<not> finished (lg_ctx s) \<and> \<not> fail_status (lg_ctx s) \<and>
     lg_waiting s = None \<and> lg_written s = [] \<and> lg_recent s = [] \<and> lg_results s = []"

text \<open>The commands on their way, and the ranges they cover.\<close>

definition on_the_way :: "'x cache_log \<Rightarrow> async_command_t list" where
  "on_the_way s = async_op_queue (lg_ctx s) @
     (case in_flight (lg_ctx s) of None \<Rightarrow> [] | Some c \<Rightarrow> [c]) @ (case lg_waiting s of None \<Rightarrow> [] | Some c \<Rightarrow> [c])"

definition covers :: "async_command_t \<Rightarrow> nat \<Rightarrow> bool" where
  "covers c i \<longleftrightarrow> unat (ac_offset c) \<le> i \<and> i < unat (ac_offset c) + unat (ac_size c)"

definition well_placed :: "string \<Rightarrow> string \<Rightarrow> byte list \<Rightarrow> async_command_t \<Rightarrow> bool" where
  "well_placed fl fr L c \<longleftrightarrow> ac_op c = WRITE \<and> ac_fl c = fl \<and> ac_fr c = fr \<and>
     (0 < unat (ac_size c) \<longrightarrow> unat (ac_offset c) + unat (ac_size c) \<le> length L)"

definition agree_on :: "string \<Rightarrow> string \<Rightarrow> 'x cache_log \<Rightarrow> byte list \<Rightarrow> byte list \<Rightarrow> bool" where
  "agree_on fl fr s L R \<longleftrightarrow>
     node_at (ca_fs (lg_ctx s)) fl = Some (Reg L) \<and> node_at (ca_fs (lg_ctx s)) fr = Some (Reg R) \<and>
     (\<forall>c \<in> set (on_the_way s). well_placed fl fr L c) \<and>
     (\<forall>w \<in> set (lg_written s). \<forall>i. fst w \<le> i \<and> i < fst w + snd w \<longrightarrow>
        i < length L \<and> ((\<exists>c \<in> set (on_the_way s). covers c i) \<or> i < length R \<and> R ! i = L ! i))"

definition agrees :: "string \<Rightarrow> string \<Rightarrow> 'x cache_log \<Rightarrow> bool" where
  "agrees fl fr s \<longleftrightarrow> fl \<noteq> fr \<and> \<not> finished (lg_ctx s) \<and> (list_all id (lg_results s) \<longrightarrow> (\<exists>L R. agree_on fl fr s L R))"

lemma agreesI:
  assumes "fl \<noteq> fr" and "\<not> finished (lg_ctx s)" and "node_at (ca_fs (lg_ctx s)) fl = Some (Reg L)"
    and "node_at (ca_fs (lg_ctx s)) fr = Some (Reg R)" and "\<And>c. c \<in> set (on_the_way s) \<Longrightarrow> well_placed fl fr L c"
    and "\<And>off n i. (off, n) \<in> set (lg_written s) \<Longrightarrow> off \<le> i \<Longrightarrow> i < off + n \<Longrightarrow>
      i < length L \<and> ((\<exists>c \<in> set (on_the_way s). covers c i) \<or> i < length R \<and> R ! i = L ! i)"
  shows "agrees fl fr s"
proof -
  have "agree_on fl fr s L R"
    unfolding agree_on_def
  proof (intro conjI ballI allI impI)
    fix w i
    assume w: "w \<in> set (lg_written s)" and "fst w \<le> i \<and> i < fst w + snd w"
    moreover from w have "(fst w, snd w) \<in> set (lg_written s)"
      by simp
    ultimately show "i < length L" "(\<exists>c \<in> set (on_the_way s). covers c i) \<or> i < length R \<and> R ! i = L ! i"
      using assms(6) [of "fst w" "snd w" i] by simp_all
  qed (use assms(3-5) in simp_all)
  with assms(1,2) show ?thesis
    by (auto simp: agrees_def)
qed

lemma agreesE:
  assumes "agrees fl fr s" and "list_all id (lg_results s)"
  obtains L R where "node_at (ca_fs (lg_ctx s)) fl = Some (Reg L)"
    and "node_at (ca_fs (lg_ctx s)) fr = Some (Reg R)" and "\<And>c. c \<in> set (on_the_way s) \<Longrightarrow> well_placed fl fr L c"
    and "\<And>off n i. (off, n) \<in> set (lg_written s) \<Longrightarrow> off \<le> i \<Longrightarrow> i < off + n \<Longrightarrow>
      i < length L \<and> ((\<exists>c \<in> set (on_the_way s). covers c i) \<or> i < length R \<and> R ! i = L ! i)"
proof -
  obtain L R where on: "agree_on fl fr s L R"
    using assms by (auto simp: agrees_def)
  show thesis
  proof (rule that)
    show "well_placed fl fr L c" if "c \<in> set (on_the_way s)" for c
      using on that by (simp add: agree_on_def)
    have w: "\<forall>w \<in> set (lg_written s). \<forall>i. fst w \<le> i \<and> i < fst w + snd w \<longrightarrow>
        i < length L \<and> ((\<exists>c \<in> set (on_the_way s). covers c i) \<or> i < length R \<and> R ! i = L ! i)"
      using on unfolding agree_on_def by (elim conjE)
    show "i < length L \<and> ((\<exists>c \<in> set (on_the_way s). covers c i) \<or> i < length R \<and> R ! i = L ! i)"
      if "(off, n) \<in> set (lg_written s)" "off \<le> i" "i < off + n" for off n i
      using bspec [OF w that(1)] that(2,3) by simp
  qed (use on in \<open>simp_all add: agree_on_def\<close>)
qed

lemma on_the_way_send:
  assumes "lg_waiting s = Some cmd" and "send_command cmd (lg_ctx s) = Some ctx" and "\<not> finished (lg_ctx s)"
  shows "set (on_the_way (s\<lparr>lg_ctx := ctx, lg_waiting := None\<rparr>)) = set (on_the_way s)" "ca_fs ctx = ca_fs (lg_ctx s)" "\<not> finished ctx"
  using assms by (auto simp: on_the_way_def send_command_def split: if_splits option.splits)

lemma on_the_way_take:
  assumes "async_take (lg_ctx s) = Some ctx"
  shows "set (on_the_way (s\<lparr>lg_ctx := ctx\<rparr>)) = set (on_the_way s)" "ca_fs ctx = ca_fs (lg_ctx s)" "finished ctx = finished (lg_ctx s)"
  using assms by (auto simp: on_the_way_def async_take_def split: option.splits list.splits)

lemma agrees_frame:
  assumes "agrees fl fr s" and "set (on_the_way s') = set (on_the_way s)" and "ca_fs (lg_ctx s') = ca_fs (lg_ctx s)"
    and "\<not> finished (lg_ctx s')" and "lg_written s' = lg_written s" and "lg_results s' = lg_results s"
  shows "agrees fl fr s'"
  using assms by (simp add: agrees_def agree_on_def)

lemma write_command_range:
  assumes "off + n < 2 ^ 63"
  shows "unat (ac_offset (write_command fl fr off n)) = off" "unat (ac_size (write_command fl fr off n)) = n"
  using assms by (simp_all add: write_command_def unat_of_nat)

lemma agrees_write:
  assumes "agrees fl fr s" and "list_all id (lg_results s)" and "lg_waiting s = None" and "off + length buf < 2 ^ 63"
    and "cf_pwrite_loop (ca_fs (lg_ctx s)) fl buf (length buf) off = Some (True, fs)"
  shows "agrees fl fr (s\<lparr>lg_ctx := (lg_ctx s)\<lparr>ca_fs := fs\<rparr>, lg_waiting := Some (write_command fl fr off (length buf)),
    lg_written := (off, length buf) # lg_written s\<rparr>)" (is "agrees fl fr ?s")
  using assms(1,2)
proof (rule agreesE)
  fix L R
  assume L: "node_at (ca_fs (lg_ctx s)) fl = Some (Reg L)"
    and R: "node_at (ca_fs (lg_ctx s)) fr = Some (Reg R)" and cmds: "\<And>c. c \<in> set (on_the_way s) \<Longrightarrow> well_placed fl fr L c"
    and agr: "\<And>off n i. (off, n) \<in> set (lg_written s) \<Longrightarrow> off \<le> i \<Longrightarrow> i < off + n \<Longrightarrow>
      i < length L \<and> ((\<exists>c \<in> set (on_the_way s). covers c i) \<or> i < length R \<and> R ! i = L ! i)"
  have fl: "fl \<noteq> fr" "\<not> finished (lg_ctx s)"
    using assms(1) by (simp_all add: agrees_def)
  obtain L' where L': "node_at fs fl = Some (Reg L')" "length L \<le> length L'" "0 < length buf \<Longrightarrow> off + length buf \<le> length L'"
      "\<And>i. i < length L \<Longrightarrow> i < off \<or> off + length buf \<le> i \<Longrightarrow> L' ! i = L ! i" "node_at fs fr = Some (Reg R)"
    using pwrite_loop_effect [OF L, of "length buf" buf off] assms(5) R fl by fastforce
  let ?c = "write_command fl fr off (length buf)"
  note rng = write_command_range [OF assms(4), of fl fr]
  have way: "set (on_the_way ?s) = insert ?c (set (on_the_way s))"
    using assms(3) by (auto simp: on_the_way_def)
  have cov: "covers ?c i \<longleftrightarrow> off \<le> i \<and> i < off + length buf" for i
    by (simp add: covers_def rng)
  show ?thesis
  proof (rule agreesI [OF fl(1), where L = L' and R = R])
    fix c
    assume "c \<in> set (on_the_way ?s)"
    then consider "c = ?c" | "c \<in> set (on_the_way s)"
      unfolding way by blast
    then show "well_placed fl fr L' c"
      using cmds [of c] L'(2,3) rng by cases (auto simp: well_placed_def, simp_all add: write_command_def)
  next
    fix o' n i
    assume that: "(o', n) \<in> set (lg_written ?s)" "o' \<le> i" "i < o' + n"
    show "i < length L' \<and> ((\<exists>c \<in> set (on_the_way ?s). covers c i) \<or> i < length R \<and> R ! i = L' ! i)"
    proof (cases "off \<le> i \<and> i < off + length buf")
      case True
      then have "0 < length buf"
        by linarith
      with True L'(3) have "i < length L'"
        by linarith
      with True cov way show ?thesis by auto
    next
      case False
      with that have "(o', n) \<in> set (lg_written s)"
        by auto
      from agr [OF this that(2,3)] L'(2) L'(4) [of i] False show ?thesis
        unfolding way by auto
    qed
  qed (use fl(2) L'(1,5) in simp_all)
qed

lemma transfer_effect:
  assumes "fl \<noteq> fr" and "node_at fs fl = Some (Reg L)" and "node_at fs fr = Some (Reg R)" and "0 < n \<Longrightarrow> off + n \<le> length L"
    and "file_transfer_loop fs fl off fr off n = Some (True, fs')"
  shows "fs' = set_node fr (Reg (write_at R off (take n (drop off L)))) fs"
proof (cases "n = 0")
  case True
  with assms(5) have "fs' = fs"
    by (subst (asm) file_transfer_loop.simps) simp
  with True assms(3) show ?thesis
    by (simp add: set_node_same)
next
  case False
  with transfer_loop_correct [OF assms(1-3), of off n off] assms(4,5) show ?thesis
    by auto
qed

lemma agrees_run:
  assumes "agrees fl fr s" and "list_all id (lg_results s)" and "async_run (lg_ctx s) = Some (Some True, ctx)"
  shows "agrees fl fr (s\<lparr>lg_ctx := ctx, lg_recent := rs, lg_results := rs'\<rparr>)" (is "agrees fl fr ?s")
  using assms(1,2)
proof (rule agreesE)
  fix L R
  assume L: "node_at (ca_fs (lg_ctx s)) fl = Some (Reg L)"
    and R: "node_at (ca_fs (lg_ctx s)) fr = Some (Reg R)" and cmds: "\<And>c. c \<in> set (on_the_way s) \<Longrightarrow> well_placed fl fr L c"
    and agr: "\<And>off n i. (off, n) \<in> set (lg_written s) \<Longrightarrow> off \<le> i \<Longrightarrow> i < off + n \<Longrightarrow>
      i < length L \<and> ((\<exists>c \<in> set (on_the_way s). covers c i) \<or> i < length R \<and> R ! i = L ! i)"
  have fl: "fl \<noteq> fr" "\<not> finished (lg_ctx s)"
    using assms(1) by (simp_all add: agrees_def)
  obtain cmd where cmd: "in_flight (lg_ctx s) = Some cmd"
    using assms(3) by (auto simp: async_run_def split: option.splits)
  define off where "off = unat (ac_offset cmd)"
  define n where "n = unat (ac_size cmd)"
  have c: "ac_op cmd = WRITE" "ac_fl cmd = fl" "ac_fr cmd = fr" "0 < n \<Longrightarrow> off + n \<le> length L"
    using cmds [of cmd] cmd by (auto simp: on_the_way_def off_def n_def well_placed_def)
  then obtain fs where t: "file_transfer_loop (ca_fs (lg_ctx s)) fl off fr off n = Some (True, fs)"
      and ctx: "ca_fs ctx = fs" "in_flight ctx = None" "async_op_queue ctx = async_op_queue (lg_ctx s)" "finished ctx = finished (lg_ctx s)"
    using assms(3) cmd by (auto simp: async_run_def off_def n_def split: option.splits)
  have way: "set (on_the_way s) = insert cmd (set (on_the_way ?s))"
    using cmd ctx(2,3) by (auto simp: on_the_way_def)
  define R' where "R' = write_at R off (take n (drop off L))"
  have fs: "fs = set_node fr (Reg R') (ca_fs (lg_ctx s))"
    using transfer_effect [OF fl(1) L R c(4) t] by (simp add: R'_def)
  show ?thesis
  proof (rule agreesI [OF fl(1), where L = L and R = R'])
    fix o' m i
    assume that: "(o', m) \<in> set (lg_written ?s)" "o' \<le> i" "i < o' + m"
    then have old: "i < length L \<and> ((\<exists>c \<in> set (on_the_way s). covers c i) \<or> i < length R \<and> R ! i = L ! i)"
      using agr [of o' m i] by auto
    show "i < length L \<and> ((\<exists>c \<in> set (on_the_way ?s). covers c i) \<or> i < length R' \<and> R' ! i = L ! i)"
    proof (cases "off \<le> i \<and> i < off + n")
      case True
      then show ?thesis
        using old c(4) by (auto simp: R'_def length_write_at write_at_inside)
    next
      case False
      then have "\<not> covers cmd i"
        by (simp add: covers_def off_def n_def)
      with old False show ?thesis
        unfolding way by (auto simp: R'_def length_write_at write_at_outside)
    qed
  qed (use fl ctx cmds way L fs in auto)
qed

lemma agrees_step:
  assumes "cache_step fl fr s s'" and "agrees fl fr s"
  shows "agrees fl fr s'"
proof (cases "list_all id (lg_results s')")
  case False
  have "\<not> finished (lg_ctx s')"
    using assms by (cases rule: cache_step.cases)
      (auto simp: agrees_def send_command_def async_take_def async_run_def cf_flush_def split: option.splits list.splits async_op.splits if_splits)
  with False assms(2) show ?thesis
    by (simp add: agrees_def)
next
  case ok: True
  have fin: "\<not> finished (lg_ctx s)"
    using assms(2) by (simp add: agrees_def)
  show ?thesis
    using assms(1)
  proof cases
    case (write_local off buf fs)
    with ok assms(2) show ?thesis
      by (simp add: agrees_write)
  next
    case (hand_over cmd ctx)
    from on_the_way_send [OF hand_over(2,3) fin] show ?thesis
      by (intro agrees_frame [OF assms(2)]) (simp_all add: hand_over(1))
  next
    case (thread_takes ctx)
    from on_the_way_take [OF thread_takes(2)] fin show ?thesis
      by (intro agrees_frame [OF assms(2)]) (simp_all add: thread_takes(1))
  next
    case (thread_runs r ctx)
    then have "r" "list_all id (lg_results s)"
      using ok by simp_all
    with thread_runs agrees_run [OF assms(2)] show ?thesis
      by simp
  next
    case (flush b ctx)
    then show ?thesis
      using fin by (intro agrees_frame [OF assms(2)]) (auto simp: cf_flush_def on_the_way_def split: if_splits)
  qed
qed

text \<open>A \<^verbatim>\<open>pwrite\<close> that returns true is one local write followed by one hand-over.\<close>

lemma pwrite_steps:
  assumes "cf_pwrite buf off cf (lg_ctx s) = (Ok True, ctx)" and "cf_fl cf = Some fl" and "cf_fr cf = Some fr"
    and "lg_waiting s = None" and "off + length buf < 2 ^ 63"
  shows "rtranclp (cache_step fl fr) s (s\<lparr>lg_ctx := ctx, lg_written := (off, length buf) # lg_written s\<rparr>)"
proof -
  obtain fs where w: "cf_pwrite_loop (ca_fs (lg_ctx s)) fl buf (length buf) off = Some (True, fs)"
    and h: "send_command (write_command fl fr off (length buf)) ((lg_ctx s)\<lparr>ca_fs := fs\<rparr>) = Some ctx"
    using assms(1-3) by (auto simp: cf_pwrite_def write_command_def Let_def split: option.splits if_splits)
  let ?s = "s\<lparr>lg_ctx := (lg_ctx s)\<lparr>ca_fs := fs\<rparr>, lg_waiting := Some (write_command fl fr off (length buf)),
    lg_written := (off, length buf) # lg_written s\<rparr>"
  have "cache_step fl fr s ?s"
    by (rule write_local [OF assms(4,5) w])
  moreover have "cache_step fl fr ?s (?s\<lparr>lg_ctx := ctx, lg_waiting := None\<rparr>)"
    by (rule hand_over) (use h in simp_all)
  ultimately have "rtranclp (cache_step fl fr) s (?s\<lparr>lg_ctx := ctx, lg_waiting := None\<rparr>)"
    by (rule converse_rtranclp_into_rtranclp [OF _ r_into_rtranclp])
  then show ?thesis
    using assms(4) by (cases s) simp
qed

text \<open>A write that is larger than the queue waits for ever: no state of the queue admits it.\<close>

lemma oversize_write_waits:
  assumes "\<not> finished ctx" and "MAX_QUEUE_SIZE ctx < ac_size cmd" and "unat (async_op_size ctx) + unat (ac_size cmd) < 2 ^ 64"
  shows "send_command cmd ctx = None"
proof -
  have "unat (async_op_size ctx + ac_size cmd) = unat (async_op_size ctx) + unat (ac_size cmd)"
    using assms(3) by (simp add: unat_word_ariths)
  with assms(1,2) show ?thesis
    by (simp add: send_command_def word_less_nat_alt)
qed

section \<open>Properties\<close>

text \<open>
  C35: the cache converges. Whatever the interleaving of successful local writes, hand-overs,
  background transfers and flushes, and with overlapping writes and short transfers: when nothing is on its way any
  more and every background transfer reported success, the remote file has in every range that
  was ever written exactly the bytes of the local file.
\<close>

theorem cache_converges:
  assumes "cache_start fl fr s0" and "rtranclp (cache_step fl fr) s0 s" and "on_the_way s = []" and "list_all id (lg_results s)"
    and "(off, n) \<in> set (lg_written s)"
  shows "take n (drop off (contents (ca_fs (lg_ctx s)) fr)) = take n (drop off (contents (ca_fs (lg_ctx s)) fl))"
proof -
  have "agrees fl fr s0"
    using assms(1) by (auto simp: cache_start_def agrees_def agree_on_def on_the_way_def)
  with assms(2) have "agrees fl fr s"
    by (induction rule: rtranclp_induct) (auto intro: agrees_step)
  then show ?thesis
    using assms(4)
  proof (rule agreesE)
    fix L R
    assume files: "node_at (ca_fs (lg_ctx s)) fl = Some (Reg L)" "node_at (ca_fs (lg_ctx s)) fr = Some (Reg R)"
      and agr: "\<And>off n i. (off, n) \<in> set (lg_written s) \<Longrightarrow> off \<le> i \<Longrightarrow> i < off + n \<Longrightarrow>
        i < length L \<and> ((\<exists>c \<in> set (on_the_way s). covers c i) \<or> i < length R \<and> R ! i = L ! i)"
    have eq: "i < length L \<and> i < length R \<and> R ! i = L ! i" if "off \<le> i" "i < off + n" for i
      using agr [OF assms(5) that] assms(3) by simp
    have len: "n = 0 \<or> off + n \<le> length L \<and> off + n \<le> length R"
      using eq [of "off + n - 1"] by (cases n) auto
    have "take n (drop off R) = take n (drop off L)"
      using len eq by (intro nth_equalityI) auto
    with files show ?thesis
      by (simp add: contents_def)
  qed
qed

text \<open>
  C36: the answer of \<^verbatim>\<open>flush\<close> is inverted: it reports success exactly when none of the background
  transfers since the last flush succeeded, so a flush after successful writes reports failure
  and a flush after failed ones reports success.
\<close>

theorem flush_is_inverted:
  assumes "cache_start fl fr s0" and "rtranclp (cache_step fl fr) s0 s" and "cf_flush (lg_ctx s) = Some (ok, ctx)"
  shows "ok \<longleftrightarrow> True \<notin> set (lg_recent s)"
proof -
  have "fail_status (lg_ctx s) \<longleftrightarrow> True \<in> set (lg_recent s)"
    using assms(2,1)
  proof (induction rule: rtranclp_induct)
    case (step s1 s2)
    from step.hyps(2) show ?case
      by cases (use step.IH [OF step.prems] in \<open>auto simp: send_command_def async_take_def async_run_def cf_flush_def
          split: option.splits list.splits async_op.splits if_splits\<close>)
  qed (simp add: cache_start_def)
  with assms(3) show ?thesis
    by (auto simp: cf_flush_def split: if_splits)
qed

subsection \<open>Witnesses\<close>

text \<open>One write of two bytes at offset one, carried to the remote file.\<close>

definition sample_cache :: "byte list \<Rightarrow> byte list \<Rightarrow> bool \<Rightarrow> unit async_context" where
  "sample_cache L R st =
     \<lparr>MAX_QUEUE_SIZE = 16, async_op_size = 0, async_op_queue = [], in_flight = None, started = True, finished = False,
      fail_status = st, ca_fs = healthy [(''/s/f'', Reg L), (''/r/f'', Reg R)]\<rparr>"

definition sample_log :: "unit async_context \<Rightarrow> (nat \<times> nat) list \<Rightarrow> bool list \<Rightarrow> unit cache_log" where
  "sample_log ctx ws rs = \<lparr>lg_ctx = ctx, lg_waiting = None, lg_written = ws, lg_recent = rs, lg_results = rs\<rparr>"

lemma sample_history:
  "rtranclp (cache_step ''/s/f'' ''/r/f'') (sample_log (sample_cache [0] [] False) [] [])
     (sample_log (sample_cache [0, 7, 8] [0, 7, 8] True) [(1, Suc (Suc 0))] [True])"
    (is "rtranclp ?step ?s ?t")
proof -
  let ?c = "write_command ''/s/f'' ''/r/f'' 1 2"
  let ?q = "(sample_cache [0, 7, 8] [] False)\<lparr>async_op_size := 2\<rparr>"
  note eval = sample_cache_def sample_log_def healthy_def sys_pwrite_def sys_pread_def node_at_def set_node_def write_at_def
    contents_def clip_def Let_def
  have "cf_pwrite_loop (ca_fs (sample_cache [0] [] False)) ''/s/f'' [7, 8] (Suc (Suc 0)) (Suc 0) = Some (True, ca_fs (sample_cache [0, 7, 8] [] False))"
    by (simp add: cf_pwrite_loop.simps eval)
  then have "cf_pwrite [7, 8] 1 \<lparr>cf_scratch = ''/s'', cf_fl = Some ''/s/f'', cf_fr = Some ''/r/f''\<rparr> (lg_ctx ?s) =
      (Ok True, ?q\<lparr>async_op_queue := [?c]\<rparr>)"
    by (simp add: cf_pwrite_def send_command_def write_command_def sample_log_def) (simp add: sample_cache_def)
  then have "rtranclp ?step ?s (?s\<lparr>lg_ctx := ?q\<lparr>async_op_queue := [?c]\<rparr>, lg_written := [(1, Suc (Suc 0))]\<rparr>)"
    by (rule pwrite_steps [THEN rtranclp_trans]) (simp_all add: sample_log_def)
  also have "?step (?s\<lparr>lg_ctx := ?q\<lparr>async_op_queue := [?c]\<rparr>, lg_written := [(1, Suc (Suc 0))]\<rparr>)
      (?s\<lparr>lg_ctx := ?q\<lparr>in_flight := Some ?c\<rparr>, lg_written := [(1, Suc (Suc 0))]\<rparr>)"
    by (rule back_subst [of "?step _", OF thread_takes])
      (auto simp: async_take_def sample_cache_def)
  also have "?step (?s\<lparr>lg_ctx := ?q\<lparr>in_flight := Some ?c\<rparr>, lg_written := [(1, Suc (Suc 0))]\<rparr>) ?t"
    by (rule back_subst [of "?step _", OF thread_runs])
      (auto simp: async_run_def write_command_def file_transfer_loop.simps eval)
  finally show ?thesis .
qed

lemma sample_starts: "cache_start ''/s/f'' ''/r/f'' (sample_log (sample_cache [0] [] False) [] [])"
  by (simp add: cache_start_def sample_log_def sample_cache_def node_at_def healthy_def)

theorem cache_converges_witness:
  "cache_start ''/s/f'' ''/r/f'' (sample_log (sample_cache [0] [] False) [] []) \<and>
   take 2 (drop 1 (contents (ca_fs (sample_cache [0, 7, 8] [0, 7, 8] True)) ''/r/f'')) =
     take 2 (drop 1 (contents (ca_fs (sample_cache [0, 7, 8] [0, 7, 8] True)) ''/s/f''))"
  using cache_converges [OF sample_starts sample_history, of 1 "Suc (Suc 0)"] sample_starts
  by (simp add: sample_log_def on_the_way_def numeral_2_eq_2) (simp add: sample_cache_def)

theorem flush_is_inverted_witness:
  "cf_flush (sample_cache [0, 7, 8] [0, 7, 8] True) = Some (False, sample_cache [0, 7, 8] [0, 7, 8] False) \<and>
   (False \<longleftrightarrow> True \<notin> set (lg_recent (sample_log (sample_cache [0, 7, 8] [0, 7, 8] True) [(1, Suc (Suc 0))] [True])))"
proof (rule conjI)
  show flush: "cf_flush (sample_cache [0, 7, 8] [0, 7, 8] True) = Some (False, sample_cache [0, 7, 8] [0, 7, 8] False)"
    by (simp add: cf_flush_def sample_cache_def)
  show "False \<longleftrightarrow> True \<notin> set (lg_recent (sample_log (sample_cache [0, 7, 8] [0, 7, 8] True) [(1, Suc (Suc 0))] [True]))"
    by (rule flush_is_inverted [OF sample_starts sample_history]) (simp add: sample_log_def flush)
qed

end
