(* ===== verification/C_Api.thy ===== *)
theory C_Api
  imports Client
begin

text \<open>
  The C interface \<^verbatim>\<open>src/src/lib/veloc.cpp\<close>. The static pointer \<^verbatim>\<open>veloc_client\<close> is null, points at a
  client, or points at a client that \<^verbatim>\<open>VELOC_Finalize\<close> has deleted: the pointer is not reset. The
  files and the memory of the process outlive the client and are kept beside the pointer. A use
  of a null or stale pointer is \<open>Undefined\<close>.
\<close>

section \<open>The pointer\<close>

datatype ('x, 'q) veloc_client =
    Null "'x fsys_scheme" mem
  | Obj "'x config" "('x, 'q) link" mpi "('x, 'q) client"
  | Freed "'x fsys_scheme" mem

text \<open>What the process has around the library: the build, the environment, MPI and the queues.\<close>

record ('x, 'q) host =
  h_daos :: "'x maker option"
  h_axl :: "'x maker option"
  h_env :: "string \<Rightarrow> string option"
  h_suffix :: string
  h_connect :: "'x config \<Rightarrow> ('x, 'q) link \<times> mpi \<times> 'q"
  h_thread_multiple :: bool
  h_system_ok :: "string \<Rightarrow> bool"
  h_rank :: int
  h_ranks :: int
  h_garbage :: command_t
  h_cwd :: "string option"

definition build_client ::
    "('x, 'q) host \<Rightarrow> bool \<Rightarrow> int \<Rightarrow> string \<Rightarrow> 'x fsys_scheme \<Rightarrow> mem \<Rightarrow> unit outcome \<times> ('x, 'q) veloc_client" where
  "build_client h comm rank f fs m =
     (case new_config (h_daos h) (h_axl h) (h_env h) (h_suffix h) f False fs of
        (Inl e, fs') \<Rightarrow> (Throws e, Null fs' m)
      | (Inr cfg, fs') \<Rightarrow>
          (case h_connect h cfg of
             (lk, mp, q) \<Rightarrow>
               (case new_client cfg lk (h_thread_multiple h) (h_system_ok h) comm rank (h_ranks h) (h_garbage h) q fs' m of
                  (Ok _, st) \<Rightarrow> (Ok (), Obj cfg lk mp st)
                | (Throws e, st) \<Rightarrow> (Throws e, Null (cl_fs st) (cl_mem st))
                | (Diverges, st) \<Rightarrow> (Diverges, Null (cl_fs st) (cl_mem st)))))"

definition get_client :: "('x, 'q) host \<Rightarrow> string \<Rightarrow> ('x, 'q) veloc_client \<Rightarrow> unit outcome \<times> ('x, 'q) veloc_client" where
  "get_client h f p = (case p of Null fs m \<Rightarrow> build_client h True (h_rank h) f fs m | _ \<Rightarrow> (Ok (), p))"

definition get_client_single ::
    "('x, 'q) host \<Rightarrow> 32 word \<Rightarrow> string \<Rightarrow> ('x, 'q) veloc_client \<Rightarrow> unit outcome \<times> ('x, 'q) veloc_client" where
  "get_client_single h i f p = (case p of Null fs m \<Rightarrow> build_client h False (sint i) f fs m | _ \<Rightarrow> (Ok (), p))"

text \<open>\<^verbatim>\<open>catch (std::exception &e)\<close>: the end of the process and undefined behaviour are not caught.\<close>

definition catch_failure :: "unit outcome \<times> 's \<Rightarrow> int outcome \<times> 's" where
  "catch_failure r =
     (case r of
        (Ok _, s) \<Rightarrow> (Ok VELOC_SUCCESS, s)
      | (Throws e, s) \<Rightarrow> (if e = OutOfRange \<or> e = BadFunctionCall then Ok VELOC_FAILURE else Throws e, s)
      | (Diverges, s) \<Rightarrow> (Diverges, s))"

definition VELOC_Init :: "('x, 'q) host \<Rightarrow> string \<Rightarrow> ('x, 'q) veloc_client \<Rightarrow> int outcome \<times> ('x, 'q) veloc_client" where
  "VELOC_Init h f p = catch_failure (get_client h f p)"

definition VELOC_Init_single ::
    "('x, 'q) host \<Rightarrow> 32 word \<Rightarrow> string \<Rightarrow> ('x, 'q) veloc_client \<Rightarrow> int outcome \<times> ('x, 'q) veloc_client" where
  "VELOC_Init_single h i f p = catch_failure (get_client_single h i f p)"

section \<open>Calls through the pointer\<close>

type_synonym ('x, 'q, 'a) client_op = "'x config \<Rightarrow> ('x, 'q) link \<Rightarrow> mpi \<Rightarrow> ('x, 'q) client \<Rightarrow> 'a outcome \<times> ('x, 'q) client"

definition through :: "('x, 'q, 'a) client_op \<Rightarrow> ('x, 'q) veloc_client \<Rightarrow> 'a outcome \<times> ('x, 'q) veloc_client" where
  "through f p =
     (case p of
        Obj cfg lk mp st \<Rightarrow> (case f cfg lk mp st of (r, st') \<Rightarrow> (r, Obj cfg lk mp st'))
      | _ \<Rightarrow> (Throws Undefined, p))"

definition INT_CALL :: "('x, 'q, int) client_op \<Rightarrow> ('x, 'q) veloc_client \<Rightarrow> int outcome \<times> ('x, 'q) veloc_client" where
  "INT_CALL f p = (case p of Null _ _ \<Rightarrow> (Ok VELOC_FAILURE, p) | _ \<Rightarrow> through f p)"

definition BOOL_CALL :: "('x, 'q, bool) client_op \<Rightarrow> ('x, 'q) veloc_client \<Rightarrow> int outcome \<times> ('x, 'q) veloc_client" where
  "BOOL_CALL f p =
     (case p of
        Null _ _ \<Rightarrow> (Ok VELOC_FAILURE, p)
      | _ \<Rightarrow> apfst (map_outcome (\<lambda>b. if b then VELOC_SUCCESS else VELOC_FAILURE)) (through f p))"

definition VOID_CALL :: "(('x, 'q) client \<Rightarrow> ('x, 'q) client) \<Rightarrow> ('x, 'q) veloc_client \<Rightarrow> int outcome \<times> ('x, 'q) veloc_client" where
  "VOID_CALL f p =
     (case p of Null _ _ \<Rightarrow> (Ok VELOC_FAILURE, p) | _ \<Rightarrow> through (\<lambda>_ _ _ st. (Ok VELOC_SUCCESS, f st)) p)"

text \<open>An operation that always returns.\<close>

abbreviation total :: "bool \<times> 's \<Rightarrow> bool outcome \<times> 's" where "total r \<equiv> apfst Ok r"

definition VELOC_Mem_protect where
  "VELOC_Mem_protect i ptr count base_size =
     BOOL_CALL (\<lambda>_ _ _ st. total (mem_protect i ptr count base_size default_mem_group st))"

definition VELOC_Region_protect where
  "VELOC_Region_protect i ptr count base_size nm = BOOL_CALL (\<lambda>_ _ _ st. total (mem_protect i ptr count base_size nm st))"

definition VELOC_Mem_unprotect where
  "VELOC_Mem_unprotect i = BOOL_CALL (\<lambda>_ _ _ st. total (mem_unprotect i default_mem_group st))"

definition VELOC_Region_unprotect where
  "VELOC_Region_unprotect i nm = BOOL_CALL (\<lambda>_ _ _ st. total (mem_unprotect i nm st))"

definition VELOC_Mem_clear where
  "VELOC_Mem_clear = VOID_CALL (mem_clear default_mem_group)"

definition VELOC_Region_clear where
  "VELOC_Region_clear nm = VOID_CALL (mem_clear nm)"

definition VELOC_Checkpoint_begin where
  "VELOC_Checkpoint_begin nm v = BOOL_CALL (\<lambda>_ _ _. checkpoint_begin nm v)"

definition VELOC_Checkpoint_mem where
  "VELOC_Checkpoint_mem = BOOL_CALL (\<lambda>cfg _ _. checkpoint_mem cfg VELOC_CKPT_ALL [])"

text \<open>The loop that fills the set; \<open>ids\<close> is the array, and reading behind its end is undefined.\<close>

definition id_set :: "int list \<Rightarrow> int \<Rightarrow> int list option" where
  "id_set ids no_ids = (if nat no_ids > length ids then None else Some (fold insort_insert (take (nat no_ids) ids) []))"

definition VELOC_Checkpoint_selective where
  "VELOC_Checkpoint_selective mode ids no_ids p =
     (case id_set ids no_ids of
        None \<Rightarrow> (Throws Undefined, p)
      | Some s \<Rightarrow> BOOL_CALL (\<lambda>cfg _ _. checkpoint_mem cfg mode s) p)"

text \<open>The argument of \<^verbatim>\<open>checkpoint_end\<close> and \<^verbatim>\<open>restart_end\<close> is not used by the client.\<close>

definition VELOC_Checkpoint_end where
  "VELOC_Checkpoint_end (success :: int) = BOOL_CALL checkpoint_end"

definition VELOC_Checkpoint_wait where
  "VELOC_Checkpoint_wait = BOOL_CALL (\<lambda>_ lk _. checkpoint_wait lk)"

definition VELOC_Checkpoint_finished where
  "VELOC_Checkpoint_finished = BOOL_CALL (\<lambda>cfg lk _ st. (Ok (checkpoint_finished cfg lk st), st))"

definition VELOC_Restart_test where
  "VELOC_Restart_test nm v = INT_CALL (\<lambda>_ lk mp. restart_test lk mp nm v (- 1))"

text \<open>The result and the routed name; here the pointer is not tested.\<close>

definition VELOC_Route_file ::
    "('x, 'q) host \<Rightarrow> string \<Rightarrow> ('x, 'q) veloc_client \<Rightarrow> (int \<times> string) outcome \<times> ('x, 'q) veloc_client" where
  "VELOC_Route_file h orig p =
     apfst (map_outcome (\<lambda>cn. (if cn = '''' \<or> hd cn = CHR 0x00 then VELOC_FAILURE else VELOC_SUCCESS, cn)))
       (through (\<lambda>cfg _ _. route_file cfg (h_cwd h) orig) p)"

definition VELOC_Cleanup where
  "VELOC_Cleanup nm = BOOL_CALL (\<lambda>cfg _ _. cleanup cfg nm)"

definition VELOC_Restart_begin where
  "VELOC_Restart_begin nm v = BOOL_CALL (\<lambda>_ lk mp. restart_begin lk mp nm v (- 1))"

definition VELOC_Recover_mem where
  "VELOC_Recover_mem = BOOL_CALL (\<lambda>cfg _ _. recover_mem cfg VELOC_CKPT_ALL [])"

definition VELOC_Recover_selective where
  "VELOC_Recover_selective mode ids no_ids p =
     (case id_set ids no_ids of
        None \<Rightarrow> (Throws Undefined, p)
      | Some s \<Rightarrow> BOOL_CALL (\<lambda>cfg _ _. recover_mem cfg mode s) p)"

text \<open>The 64-bit size is returned as an \<^verbatim>\<open>int\<close>.\<close>

definition size_as_int :: "size_t \<Rightarrow> int" where
  "size_as_int n = sint (ucast n :: 32 word)"

definition VELOC_Recover_size where
  "VELOC_Recover_size i = INT_CALL (\<lambda>cfg _ _ st. apfst (map_outcome size_as_int) (recover_size cfg i st))"

definition VELOC_Restart_end where
  "VELOC_Restart_end (success :: int) = BOOL_CALL (\<lambda>_ _ _. restart_end)"

definition VELOC_Restart where
  "VELOC_Restart nm v = BOOL_CALL (\<lambda>cfg lk mp. restart cfg lk mp nm v (- 1))"

definition VELOC_Checkpoint where
  "VELOC_Checkpoint nm v = BOOL_CALL (\<lambda>cfg lk mp. checkpoint cfg lk mp nm v)"

text \<open>\<^verbatim>\<open>delete\<close> of a stale pointer is undefined.\<close>

definition delete_client :: "('x, 'q) veloc_client \<Rightarrow> unit outcome \<times> ('x, 'q) veloc_client" where
  "delete_client p =
     (case p of Obj cfg lk mp st \<Rightarrow> (Ok (), Freed (cl_fs st) (cl_mem st)) | _ \<Rightarrow> (Throws Undefined, p))"

definition VELOC_Finalize :: "int \<Rightarrow> ('x, 'q) veloc_client \<Rightarrow> int outcome \<times> ('x, 'q) veloc_client" where
  "VELOC_Finalize drain p =
     (case p of
        Null _ _ \<Rightarrow> (Ok VELOC_FAILURE, p)
      | _ \<Rightarrow>
          (case (if drain \<noteq> 0 then VELOC_Checkpoint_wait p else (Ok VELOC_SUCCESS, p)) of
             (Ok ret, p') \<Rightarrow> apfst (map_outcome (\<lambda>_. ret)) (delete_client p')
           | r \<Rightarrow> r))"

section \<open>Sequences of calls\<close>

datatype c_call =
    Init string
  | Init_single "32 word" string
  | Finalize int
  | C_mem_protect int nat size_t size_t
  | C_region_protect int nat size_t size_t string
  | C_mem_unprotect int
  | C_region_unprotect int string
  | C_mem_clear
  | C_region_clear string
  | C_checkpoint_begin string int
  | C_checkpoint_mem
  | C_checkpoint_selective int "int list" int
  | C_checkpoint_end int
  | C_checkpoint_wait
  | C_checkpoint_finished
  | C_checkpoint string int
  | C_route_file string
  | C_cleanup string
  | C_restart_test string int
  | C_restart_begin string int
  | C_recover_mem
  | C_recover_selective int "int list" int
  | C_recover_size int
  | C_restart_end int
  | C_restart string int

fun c_api :: "('x, 'q) host \<Rightarrow> c_call \<Rightarrow> ('x, 'q) veloc_client \<Rightarrow> int outcome \<times> ('x, 'q) veloc_client" where
  "c_api h (Init f) = VELOC_Init h f"
| "c_api h (Init_single i f) = VELOC_Init_single h i f"
| "c_api h (Finalize drain) = VELOC_Finalize drain"
| "c_api h (C_mem_protect i p n b) = VELOC_Mem_protect i p n b"
| "c_api h (C_region_protect i p n b nm) = VELOC_Region_protect i p n b nm"
| "c_api h (C_mem_unprotect i) = VELOC_Mem_unprotect i"
| "c_api h (C_region_unprotect i nm) = VELOC_Region_unprotect i nm"
| "c_api h C_mem_clear = VELOC_Mem_clear"
| "c_api h (C_region_clear nm) = VELOC_Region_clear nm"
| "c_api h (C_checkpoint_begin nm v) = VELOC_Checkpoint_begin nm v"
| "c_api h C_checkpoint_mem = VELOC_Checkpoint_mem"
| "c_api h (C_checkpoint_selective mode ids n) = VELOC_Checkpoint_selective mode ids n"
| "c_api h (C_checkpoint_end ok) = VELOC_Checkpoint_end ok"
| "c_api h C_checkpoint_wait = VELOC_Checkpoint_wait"
| "c_api h C_checkpoint_finished = VELOC_Checkpoint_finished"
| "c_api h (C_checkpoint nm v) = VELOC_Checkpoint nm v"
| "c_api h (C_route_file orig) = (\<lambda>p. apfst (map_outcome fst) (VELOC_Route_file h orig p))"
| "c_api h (C_cleanup nm) = VELOC_Cleanup nm"
| "c_api h (C_restart_test nm v) = VELOC_Restart_test nm v"
| "c_api h (C_restart_begin nm v) = VELOC_Restart_begin nm v"
| "c_api h C_recover_mem = VELOC_Recover_mem"
| "c_api h (C_recover_selective mode ids n) = VELOC_Recover_selective mode ids n"
| "c_api h (C_recover_size i) = VELOC_Recover_size i"
| "c_api h (C_restart_end ok) = VELOC_Restart_end ok"
| "c_api h (C_restart nm v) = VELOC_Restart nm v"

text \<open>The calls that return, with their results, up to the first one that does not.\<close>

fun c_run :: "('x, 'q) host \<Rightarrow> c_call list \<Rightarrow> ('x, 'q) veloc_client \<Rightarrow> (c_call \<times> int) list \<times> ('x, 'q) veloc_client" where
  "c_run h [] p = ([], p)"
| "c_run h (c # cs) p =
     (case c_api h c p of
        (Ok r, p') \<Rightarrow> (case c_run h cs p' of (log, p'') \<Rightarrow> ((c, r) # log, p''))
      | (_, p') \<Rightarrow> ([], p'))"

text \<open>
  The life cycle as an automaton over calls and results. Before \<^verbatim>\<open>VELOC_Init\<close> every call fails;
  once it succeeded every result is possible, and \<^verbatim>\<open>VELOC_Finalize\<close> ends the client; after that
  only \<^verbatim>\<open>VELOC_Init\<close> returns at all, and it reports success.
\<close>

datatype phase = Uninitialized | Running_client | Finalized

definition is_init :: "c_call \<Rightarrow> bool" where
  "is_init c = (case c of Init _ \<Rightarrow> True | Init_single _ _ \<Rightarrow> True | _ \<Rightarrow> False)"

definition is_finalize :: "c_call \<Rightarrow> bool" where
  "is_finalize c = (case c of Finalize _ \<Rightarrow> True | _ \<Rightarrow> False)"

fun phase_step :: "phase \<Rightarrow> c_call \<Rightarrow> int \<Rightarrow> phase option" where
  "phase_step Uninitialized c r =
     (if is_init c \<and> r = VELOC_SUCCESS then Some Running_client
      else if r = VELOC_FAILURE then Some Uninitialized else None)"
| "phase_step Running_client c r =
     (if is_finalize c then Some Finalized
      else if is_init c \<and> r \<noteq> VELOC_SUCCESS then None else Some Running_client)"
| "phase_step Finalized c r = (if is_init c \<and> r = VELOC_SUCCESS then Some Finalized else None)"

fun phase_run :: "phase \<Rightarrow> (c_call \<times> int) list \<Rightarrow> phase option" where
  "phase_run ph [] = Some ph"
| "phase_run ph ((c, r) # log) = (case phase_step ph c r of None \<Rightarrow> None | Some ph' \<Rightarrow> phase_run ph' log)"

definition phase_of :: "('x, 'q) veloc_client \<Rightarrow> phase" where
  "phase_of p = (case p of Null _ _ \<Rightarrow> Uninitialized | Obj _ _ _ _ \<Rightarrow> Running_client | Freed _ _ \<Rightarrow> Finalized)"

definition pointer_wf :: "('x, 'q) veloc_client \<Rightarrow> bool" where
  "pointer_wf p = (case p of Obj _ _ _ st \<Rightarrow> client_wf st | _ \<Rightarrow> True)"

section \<open>The life cycle\<close>

definition keeps_wf :: "('x, 'q, 'a) client_op \<Rightarrow> bool" where
  "keeps_wf f \<longleftrightarrow> (\<forall>cfg lk mp st. client_wf st \<longrightarrow> client_wf (snd (f cfg lk mp st)))"

lemma through_keeps:
  assumes "pointer_wf p" and "keeps_wf f"
  shows "phase_of (snd (through f p)) = phase_of p" and "pointer_wf (snd (through f p))"
    and "fst (through f p) = Ok r \<Longrightarrow> phase_of p = Running_client"
proof -
  have "pointer_wf (snd (through f p)) \<and> phase_of (snd (through f p)) = phase_of p \<and>
      (\<forall>r. fst (through f p) = Ok r \<longrightarrow> phase_of p = Running_client)"
    using assms by (cases p) (simp_all add: through_def pointer_wf_def phase_of_def keeps_wf_def case_prod_unfold)
  then show "phase_of (snd (through f p)) = phase_of p" "pointer_wf (snd (through f p))"
      "fst (through f p) = Ok r \<Longrightarrow> phase_of p = Running_client"
    by blast+
qed

text \<open>What a call other than \<^verbatim>\<open>VELOC_Init\<close> and \<^verbatim>\<open>VELOC_Finalize\<close> does to the pointer.\<close>

definition quiet :: "int outcome \<times> ('x, 'q) veloc_client \<Rightarrow> ('x, 'q) veloc_client \<Rightarrow> bool" where
  "quiet res p \<longleftrightarrow> phase_of (snd res) = phase_of p \<and> pointer_wf (snd res) \<and>
     (\<forall>r. fst res = Ok r \<longrightarrow> phase_of p = Uninitialized \<and> r = VELOC_FAILURE \<or> phase_of p = Running_client)"

lemma through_quiet:
  assumes "pointer_wf p" and "keeps_wf f"
  shows "quiet (apfst (map_outcome g) (through f p)) p"
  using through_keeps [OF assms] by (cases "fst (through f p)") (auto simp: quiet_def)

lemma null_quiet: "quiet (Ok VELOC_FAILURE, Null fs m) (Null fs m)"
  by (simp add: quiet_def phase_of_def pointer_wf_def)

lemma bool_quiet: "pointer_wf p \<Longrightarrow> keeps_wf f \<Longrightarrow> quiet (BOOL_CALL f p) p"
  using through_quiet [of p f] by (cases p) (simp_all add: BOOL_CALL_def null_quiet)

lemma int_quiet: "pointer_wf p \<Longrightarrow> keeps_wf f \<Longrightarrow> quiet (INT_CALL f p) p"
  using through_quiet [of p f id] by (cases p) (simp_all add: INT_CALL_def null_quiet outcome.map_id0)

lemma void_quiet: "pointer_wf p \<Longrightarrow> (\<And>st. client_wf st \<Longrightarrow> client_wf (f st)) \<Longrightarrow> quiet (VOID_CALL f p) p"
  using through_quiet [of p "\<lambda>_ _ _ st. (Ok VELOC_SUCCESS, f st)" id]
  by (cases p) (simp_all add: VOID_CALL_def null_quiet outcome.map_id0 keeps_wf_def)

lemmas quiet_rules = bool_quiet int_quiet void_quiet

lemma ops_keep_wf:
  "keeps_wf (\<lambda>_ _ _ st. total (mem_protect i ptr n b nm st))" "keeps_wf (\<lambda>_ _ _ st. total (mem_unprotect i nm st))"
  "keeps_wf (\<lambda>_ _ _. checkpoint_begin nm v)" "keeps_wf (\<lambda>cfg _ _. checkpoint_mem cfg mode ids)" "keeps_wf checkpoint_end"
  "keeps_wf (\<lambda>_ lk _. checkpoint_wait lk)" "keeps_wf (\<lambda>cfg lk _ st. (Ok (checkpoint_finished cfg lk st), st))"
  "keeps_wf (\<lambda>_ lk mp. restart_test lk mp nm v t)" "keeps_wf (\<lambda>cfg _ _. cleanup cfg nm)"
  "keeps_wf (\<lambda>_ lk mp. restart_begin lk mp nm v t)" "keeps_wf (\<lambda>cfg _ _. recover_mem cfg mode ids)"
  "keeps_wf (\<lambda>cfg _ _ st. apfst (map_outcome size_as_int) (recover_size cfg i st))" "keeps_wf (\<lambda>_ _ _. restart_end)"
  "keeps_wf (\<lambda>cfg lk mp. restart cfg lk mp nm v t)" "keeps_wf (\<lambda>cfg lk mp. checkpoint cfg lk mp nm v)"
  "keeps_wf (\<lambda>cfg _ _. route_file cfg cwd orig)"
  by (auto simp: keeps_wf_def checkpoint_def restart_def intro!: and_then_wf intro: client_ops_wf)

lemmas call_defs = VELOC_Mem_protect_def VELOC_Region_protect_def VELOC_Mem_unprotect_def VELOC_Region_unprotect_def
  VELOC_Mem_clear_def VELOC_Region_clear_def VELOC_Checkpoint_begin_def VELOC_Checkpoint_mem_def
  VELOC_Checkpoint_selective_def VELOC_Checkpoint_end_def VELOC_Checkpoint_wait_def VELOC_Checkpoint_finished_def
  VELOC_Restart_test_def VELOC_Route_file_def VELOC_Cleanup_def VELOC_Restart_begin_def VELOC_Recover_mem_def
  VELOC_Recover_selective_def VELOC_Recover_size_def VELOC_Restart_end_def VELOC_Restart_def VELOC_Checkpoint_def

lemma undefined_quiet [simp]: "quiet (Throws e, p) p \<longleftrightarrow> pointer_wf p"
  by (simp add: quiet_def)

lemma apfst_map_outcome: "apfst (map_outcome f) (apfst (map_outcome g) r) = apfst (map_outcome (f \<circ> g)) r"
  by (cases r) (simp add: outcome.map_comp)

lemma calls_quiet:
  assumes "pointer_wf p" and "\<not> is_init c" and "\<not> is_finalize c"
  shows "quiet (c_api h c p) p"
  using assms by (cases c)
    (auto simp: is_init_def is_finalize_def call_defs apfst_map_outcome ops_keep_wf
      intro!: quiet_rules through_quiet ops_keep_wf protect_wf(4) split: option.split)

lemma build_client_step:
  assumes "build_client h comm rank f fs m = (r, p)"
  shows "phase_of p = (if r = Ok () then Running_client else Uninitialized)" and "pointer_wf p"
proof -
  have wf: "client_wf st" if "new_client cfg lk tm ok comm rank ranks cur q fs' m = (r, st)"
    for cfg lk tm ok ranks cur q and fs' :: "'a fsys_scheme" and r and st :: "('a, 'b) client"
    using new_client_wf [of cfg lk tm ok comm rank ranks cur q fs' m] that by simp
  with assms show "phase_of p = (if r = Ok () then Running_client else Uninitialized)" "pointer_wf p"
    by (auto simp: build_client_def phase_of_def pointer_wf_def split: prod.splits sum.splits outcome.splits)
qed

text \<open>The transitions of the pointer: one of the automaton when the call returns, none otherwise.\<close>

definition follows :: "c_call \<Rightarrow> ('x, 'q) veloc_client \<Rightarrow> int outcome \<times> ('x, 'q) veloc_client \<Rightarrow> bool" where
  "follows c p res \<longleftrightarrow> pointer_wf (snd res) \<and>
     (case fst res of
        Ok r \<Rightarrow> phase_step (phase_of p) c r = Some (phase_of (snd res))
      | _ \<Rightarrow> phase_of (snd res) = phase_of p)"

lemma init_follows:
  assumes "is_init c" and "pointer_wf p"
  shows "follows c p (c_api h c p)"
proof -
  obtain comm rank f where call: "c_api h c p = catch_failure (case p of Null fs m \<Rightarrow> build_client h comm rank f fs m | _ \<Rightarrow> (Ok (), p))"
    using assms(1) by (cases c) (auto simp: is_init_def VELOC_Init_def VELOC_Init_single_def get_client_def get_client_single_def)
  show ?thesis
  proof (cases p)
    case (Null fs m)
    obtain r0 p0 where b: "build_client h comm rank f fs m = (r0, p0)"
      by fastforce
    with build_client_step [OF b] assms(1) call Null show ?thesis
      by (auto simp: follows_def catch_failure_def phase_of_def [of "Null fs m"] split: outcome.splits if_splits)
  qed (use assms call in \<open>auto simp: follows_def catch_failure_def phase_of_def is_finalize_def is_init_def split: c_call.splits\<close>)
qed

lemma finalize_follows:
  assumes "pointer_wf p"
  shows "follows (Finalize drain) p (VELOC_Finalize drain p)"
proof (cases p)
  case (Obj cfg lk mp st)
  obtain r st' where w: "checkpoint_wait lk st = (r, st')"
    by fastforce
  moreover from w have "client_wf st'"
    using assms Obj checkpoint_wait_wf [of st lk] by (simp add: pointer_wf_def)
  ultimately show ?thesis
    using assms Obj by (cases r)
      (auto simp: follows_def VELOC_Finalize_def VELOC_Checkpoint_wait_def BOOL_CALL_def through_def delete_client_def phase_of_def
        pointer_wf_def is_finalize_def)
qed (use assms in \<open>auto simp: follows_def VELOC_Finalize_def VELOC_Checkpoint_wait_def BOOL_CALL_def through_def
    delete_client_def phase_of_def pointer_wf_def is_init_def\<close>)

lemma quiet_follows:
  assumes "quiet res p" and "\<not> is_init c" and "\<not> is_finalize c"
  shows "follows c p res"
  using assms by (cases "fst res") (auto simp: quiet_def follows_def)

lemma c_api_follows:
  assumes "pointer_wf p"
  shows "follows c p (c_api h c p)"
proof -
  consider "is_init c" | drain where "c = Finalize drain" | "\<not> is_init c" "\<not> is_finalize c"
    by (cases c) (auto simp: is_init_def is_finalize_def)
  then show ?thesis
    using assms by cases (auto simp: init_follows finalize_follows quiet_follows calls_quiet)
qed

lemma c_run_follows:
  assumes "pointer_wf p"
  shows "phase_run (phase_of p) (fst (c_run h calls p)) = Some (phase_of (snd (c_run h calls p))) \<and>
    pointer_wf (snd (c_run h calls p))"
  using assms
proof (induction calls arbitrary: p)
  case (Cons c calls)
  obtain r p' where call: "c_api h c p = (r, p')"
    by fastforce
  with c_api_follows [OF Cons.prems, of c h] Cons.IH [of p'] show ?case
    by (cases r) (simp_all add: follows_def case_prod_unfold)
qed simp

section \<open>Properties\<close>


end
