(* ===== verification/Storage_Libs.thy ===== *)
theory Storage_Libs
  imports Config
begin

text \<open>
  The two storage classes over external libraries, \<^verbatim>\<open>src/src/storage/daos_module.cpp\<close> and
  \<^verbatim>\<open>src/src/storage/axl_module.cpp\<close>. The libraries are records of their calls. DAOS has a store of
  its own, which is the extension of the file system's record, so its calls see nothing of the
  files; AXL moves files. \<open>daos_documented\<close> and \<open>axl_documented\<close> state what the modules rely on,
  and under them both classes keep the contract of \<open>Storage\<close>. Closing handles, unmapping and
  finalising the libraries leave nothing behind and are not modelled.
\<close>

section \<open>DAOS\<close>

record daos_obj_id_t =
  oid_lo :: "64 word"
  oid_hi :: "64 word"

type_synonym daos_handle_t = "64 word"

text \<open>
  Every call returns 0 or an error code. \<^verbatim>\<open>daos_kv_get\<close> is used in two ways, without a buffer to
  learn the size and with a buffer of a given size. The enumeration of the keys by an anchor is
  the list of the answers to successive calls, up to the one that moves the anchor to its end.
\<close>

record 'x daos_lib =
  daos_init :: "'x \<Rightarrow> int \<times> 'x"
  daos_pool_connect :: "string \<Rightarrow> 'x \<Rightarrow> int \<times> daos_handle_t \<times> 'x"
  daos_cont_open :: "daos_handle_t \<Rightarrow> string \<Rightarrow> 'x \<Rightarrow> int \<times> daos_handle_t \<times> 'x"
  daos_obj_generate_oid :: "daos_handle_t \<Rightarrow> daos_obj_id_t \<Rightarrow> daos_obj_id_t"
  daos_kv_open :: "daos_handle_t \<Rightarrow> daos_obj_id_t \<Rightarrow> 'x \<Rightarrow> int \<times> daos_handle_t"
  daos_kv_list :: "daos_handle_t \<Rightarrow> 'x \<Rightarrow> (int \<times> string list) list"
  daos_kv_put :: "daos_handle_t \<Rightarrow> string \<Rightarrow> byte list \<Rightarrow> 'x \<Rightarrow> int \<times> 'x"
  daos_kv_size :: "daos_handle_t \<Rightarrow> string \<Rightarrow> 'x \<Rightarrow> int \<times> nat"
  daos_kv_get :: "daos_handle_t \<Rightarrow> string \<Rightarrow> nat \<Rightarrow> 'x \<Rightarrow> int \<times> byte list"
  daos_kv_remove :: "daos_handle_t \<Rightarrow> string \<Rightarrow> 'x \<Rightarrow> int \<times> 'x"

definition generate_kv_id :: "'x daos_lib \<Rightarrow> daos_handle_t \<Rightarrow> int \<Rightarrow> daos_obj_id_t" where
  "generate_kv_id lib coh uid = daos_obj_generate_oid lib coh \<lparr>oid_lo = word_of_int uid, oid_hi = 0\<rparr>"

fun daos_key_loop :: "re_atom list \<Rightarrow> string list \<Rightarrow> int list \<Rightarrow> unit res \<times> int list" where
  "daos_key_loop ex [] result = (Inr (), result)"
| "daos_key_loop ex (key # keys) result =
     (case command_match key ex of
        Inl e \<Rightarrow> (Inl e, result)
      | Inr None \<Rightarrow> daos_key_loop ex keys result
      | Inr (Some (_, v)) \<Rightarrow> daos_key_loop ex keys (insort_insert v result))"

text \<open>An error of the enumeration ends it without notice: what was found so far stays.\<close>

fun daos_list_loop :: "re_atom list \<Rightarrow> (int \<times> string list) list \<Rightarrow> int list \<Rightarrow> unit res \<times> int list" where
  "daos_list_loop ex [] result = (Inr (), result)"
| "daos_list_loop ex ((rc, keys) # answers) result =
     (if rc \<noteq> 0 then (Inr (), result)
      else (case daos_key_loop ex keys result of
              (Inl e, result') \<Rightarrow> (Inl e, result')
            | (Inr _, result') \<Rightarrow> daos_list_loop ex answers result'))"

definition daos_get_versions ::
    "'x daos_lib \<Rightarrow> daos_handle_t \<Rightarrow> command_t \<Rightarrow> 'x fsys_scheme \<Rightarrow> int list \<Rightarrow> unit res \<times> int list" where
  "daos_get_versions lib coh cmd fs result =
     (case daos_kv_open lib coh (generate_kv_id lib coh (unique_id cmd)) (fsys.more fs) of
        (rc, oh) \<Rightarrow>
          if rc \<noteq> 0 then (Inr (), result)
          else (case regex (cname cmd) of
                  Inl e \<Rightarrow> (Inl e, result)
                | Inr ex \<Rightarrow> daos_list_loop ex (daos_kv_list lib oh (fsys.more fs)) result))"

text \<open>
  \<^verbatim>\<open>mmap\<close> and \<^verbatim>\<open>posix_fallocate\<close> refuse the length 0. A file whose transfers fail is refused here
  too.
\<close>

definition sys_mmap :: "'x fsys_scheme \<Rightarrow> string \<Rightarrow> nat \<Rightarrow> bool" where
  "sys_mmap fs f n \<longleftrightarrow> 0 < n \<and> \<not> io_error fs f"

definition sys_fallocate :: "'x fsys_scheme \<Rightarrow> string \<Rightarrow> nat \<Rightarrow> 'x fsys_scheme option" where
  "sys_fallocate fs f n =
     (if n = 0 \<or> io_error fs f then None
      else Some (set_node f (Reg (contents fs f @ replicate (n - length (contents fs f)) 0)) fs))"

definition daos_flush ::
    "'x daos_lib \<Rightarrow> daos_handle_t \<Rightarrow> string \<Rightarrow> command_t \<Rightarrow> 'x fsys_scheme \<Rightarrow> bool outcome \<times> 'x fsys_scheme" where
  "daos_flush lib coh scratch cmd fs =
     (case daos_kv_open lib coh (generate_kv_id lib coh (unique_id cmd)) (fsys.more fs) of
        (rc, oh) \<Rightarrow>
          if rc \<noteq> 0 then (Ok False, fs)
          else
            let source = filename cmd scratch; fsize = file_size fs source in
            (case sys_open_rd fs source of
               None \<Rightarrow> (Ok False, fs)
             | Some fi \<Rightarrow>
                 if fsize = - 1 \<or> \<not> sys_mmap fs fi (nat fsize) then (Ok False, fs)
                 else (case daos_kv_put lib oh (stem cmd) (take (nat fsize) (contents fs fi)) (fsys.more fs) of
                         (rc, x) \<Rightarrow> (Ok (rc = 0), fsys.more_update (\<lambda>_. x) fs))))"

definition daos_restore ::
    "'x daos_lib \<Rightarrow> daos_handle_t \<Rightarrow> string \<Rightarrow> command_t \<Rightarrow> 'x fsys_scheme \<Rightarrow> bool outcome \<times> 'x fsys_scheme" where
  "daos_restore lib coh scratch cmd fs =
     (case daos_kv_open lib coh (generate_kv_id lib coh (unique_id cmd)) (fsys.more fs) of
        (rc, oh) \<Rightarrow>
          if rc \<noteq> 0 then (Ok False, fs)
          else (case daos_kv_size lib oh (stem cmd) (fsys.more fs) of
                  (rc, sz) \<Rightarrow>
                    if rc \<noteq> 0 then (Ok False, fs)
                    else (case sys_open_wr True fs (filename cmd scratch) of
                            None \<Rightarrow> (Ok False, fs)
                          | Some (fo, fs1) \<Rightarrow>
                              (case sys_fallocate fs1 fo sz of
                                 None \<Rightarrow> (Ok False, fs1)
                               | Some fs2 \<Rightarrow>
                                   if \<not> sys_mmap fs2 fo sz then (Ok False, fs2)
                                   else (case daos_kv_get lib oh (stem cmd) sz (fsys.more fs2) of
                                           (rc, bs) \<Rightarrow>
                                             (Ok (rc = 0), set_node fo (Reg (write_at (contents fs2 fo) 0 (take sz bs))) fs2))))))"

definition daos_exists :: "'x daos_lib \<Rightarrow> daos_handle_t \<Rightarrow> command_t \<Rightarrow> 'x fsys_scheme \<Rightarrow> bool" where
  "daos_exists lib coh cmd fs =
     (case daos_kv_open lib coh (generate_kv_id lib coh (unique_id cmd)) (fsys.more fs) of
        (rc, oh) \<Rightarrow> rc = 0 \<and> fst (daos_kv_size lib oh (stem cmd) (fsys.more fs)) = 0)"

definition daos_remove ::
    "'x daos_lib \<Rightarrow> daos_handle_t \<Rightarrow> command_t \<Rightarrow> 'x fsys_scheme \<Rightarrow> bool \<times> 'x fsys_scheme" where
  "daos_remove lib coh cmd fs =
     (case daos_kv_open lib coh (generate_kv_id lib coh (unique_id cmd)) (fsys.more fs) of
        (rc, oh) \<Rightarrow>
          if rc \<noteq> 0 then (False, fs)
          else (case daos_kv_remove lib oh (stem cmd) (fsys.more fs) of
                  (rc, x) \<Rightarrow> (rc = 0, fsys.more_update (\<lambda>_. x) fs)))"

definition daos_module :: "'x daos_lib \<Rightarrow> daos_handle_t \<Rightarrow> string \<Rightarrow> 'x storage_module" where
  "daos_module lib coh scratch =
     \<lparr>sm_get_versions = daos_get_versions lib coh,
      sm_remove = daos_remove lib coh,
      sm_flush = daos_flush lib coh scratch,
      sm_restore = daos_restore lib coh scratch,
      sm_exists = daos_exists lib coh\<rparr>"

definition new_daos_module :: "'x daos_lib \<Rightarrow> 'x maker" where
  "new_daos_module lib scratch pool cont fs =
     (case daos_init lib (fsys.more fs) of
        (rc, x) \<Rightarrow>
          if rc \<noteq> 0 then (Inl Fatal, fsys.more_update (\<lambda>_. x) fs)
          else (case daos_pool_connect lib pool x of
                  (rc, poh, x) \<Rightarrow>
                    if rc \<noteq> 0 then (Inl Fatal, fsys.more_update (\<lambda>_. x) fs)
                    else (case daos_cont_open lib poh cont x of
                            (rc, coh, x) \<Rightarrow>
                              (if rc \<noteq> 0 then Inl Fatal else Inr (daos_module lib coh scratch),
                               fsys.more_update (\<lambda>_. x) fs))))"

section \<open>The contract of the DAOS module\<close>

text \<open>
  What the module relies on. \<open>kv\<close> is the content of the store, \<open>obj\<close> the object a handle stands
  for, \<open>up\<close> that the service answers: a put that reports success is seen by later calls, sizes
  and values are those of the last put, an enumeration that is not cut short yields all keys.
\<close>

definition daos_documented ::
    "'x daos_lib \<Rightarrow> daos_handle_t \<Rightarrow> ('x \<Rightarrow> daos_obj_id_t \<Rightarrow> string \<Rightarrow> byte list option) \<Rightarrow> ('x \<Rightarrow> bool) \<Rightarrow>
     (daos_handle_t \<Rightarrow> daos_obj_id_t) \<Rightarrow> bool" where
  "daos_documented lib coh kv up obj \<longleftrightarrow>
     (\<forall>oid x h. daos_kv_open lib coh oid x = (0, h) \<longrightarrow> obj h = oid) \<and>
     (\<forall>i x. up x \<longrightarrow> fst (daos_kv_open lib coh (generate_kv_id lib coh i) x) = 0) \<and>
     (\<forall>h k bs x x'. daos_kv_put lib h k bs x = (0, x') \<longrightarrow> kv x' (obj h) k = Some bs \<and> (up x \<longrightarrow> up x')) \<and>
     (\<forall>h k x n. daos_kv_size lib h k x = (0, n) \<longrightarrow> map_option length (kv x (obj h) k) = Some n) \<and>
     (\<forall>h k x. up x \<and> kv x (obj h) k \<noteq> None \<longrightarrow> fst (daos_kv_size lib h k x) = 0) \<and>
     (\<forall>h k n x bs. daos_kv_get lib h k n x = (0, bs) \<and> map_option length (kv x (obj h) k) = Some n \<longrightarrow> kv x (obj h) k = Some bs) \<and>
     (\<forall>h x. up x \<longrightarrow> list_all (\<lambda>a. fst a = 0) (daos_kv_list lib h x)) \<and>
     (\<forall>h x. list_all (\<lambda>a. fst a = 0) (daos_kv_list lib h x) \<longrightarrow>
        set (concat (map snd (daos_kv_list lib h x))) = dom (kv x (obj h)))"

lemmas daos_lawsD = daos_documented_def [THEN iffD1]

lemmas daos_open_obj = daos_lawsD [THEN conjunct1, rule_format]
lemmas daos_open_up = daos_lawsD [THEN conjunct2, THEN conjunct1, rule_format]
lemmas daos_put_seen = daos_lawsD [THEN conjunct2, THEN conjunct2, THEN conjunct1, rule_format]
lemmas daos_size_right = daos_lawsD [THEN conjunct2, THEN conjunct2, THEN conjunct2, THEN conjunct1, rule_format]
lemmas daos_size_up = daos_lawsD [THEN conjunct2, THEN conjunct2, THEN conjunct2, THEN conjunct2, THEN conjunct1, rule_format]
lemmas daos_get_right = daos_lawsD [THEN conjunct2, THEN conjunct2, THEN conjunct2, THEN conjunct2, THEN conjunct2, THEN conjunct1, rule_format]
lemmas daos_list_up = daos_lawsD [THEN conjunct2, THEN conjunct2, THEN conjunct2, THEN conjunct2, THEN conjunct2, THEN conjunct2, THEN conjunct1, rule_format]
lemmas daos_list_all = daos_lawsD [THEN conjunct2, THEN conjunct2, THEN conjunct2, THEN conjunct2, THEN conjunct2, THEN conjunct2, THEN conjunct2, rule_format]

definition daos_ready :: "('x \<Rightarrow> bool) \<Rightarrow> string \<Rightarrow> command_t \<Rightarrow> 'x fsys_scheme \<Rightarrow> bool" where
  "daos_ready up scratch c fs \<longleftrightarrow> wf_command c \<and> up (fsys.more fs) \<and>
     node_at fs (filename c scratch) = Some (Reg (contents fs (filename c scratch)))"

definition daos_stored ::
    "'x daos_lib \<Rightarrow> daos_handle_t \<Rightarrow> ('x \<Rightarrow> daos_obj_id_t \<Rightarrow> string \<Rightarrow> byte list option) \<Rightarrow> ('x \<Rightarrow> bool) \<Rightarrow>
     command_t \<Rightarrow> byte list \<Rightarrow> 'x fsys_scheme \<Rightarrow> bool" where
  "daos_stored lib coh kv up c bs fs \<longleftrightarrow> wf_command c \<and> up (fsys.more fs) \<and>
     kv (fsys.more fs) (generate_kv_id lib coh (unique_id c)) (stem c) = Some bs"

lemma more_nodes [simp]: "fsys.more (set_node p n fs) = fsys.more fs" "fsys.more (del_node p fs) = fsys.more fs"
    "node_at (fsys.more_update g fs) = node_at fs"
  by (simp_all add: set_node_def del_node_def node_at_def fun_eq_iff)

lemma daos_flush_stores:
  assumes "daos_documented lib coh kv up obj" and "daos_ready up scratch c fs" and "daos_flush lib coh scratch c fs = (Ok True, fs')"
  shows "daos_stored lib coh kv up c (contents fs (filename c scratch)) fs'"
proof -
  let ?p = "filename c scratch" and ?oid = "generate_kv_id lib coh (unique_id c)"
  have c: "wf_command c" "up (fsys.more fs)" "node_at fs ?p = Some (Reg (contents fs ?p))"
    using assms(2) by (simp_all add: daos_ready_def)
  obtain oh fi x where op: "daos_kv_open lib coh ?oid (fsys.more fs) = (0, oh)" and rd: "sys_open_rd fs ?p = Some fi"
      and put: "daos_kv_put lib oh (stem c) (take (nat (file_size fs ?p)) (contents fs fi)) (fsys.more fs) = (0, x)"
      and fs': "fs' = fsys.more_update (\<lambda>_. x) fs"
    using assms(3) by (auto simp: daos_flush_def Let_def split: prod.splits option.splits if_splits)
  have "fi = ?p"
    using open_rd_reg [OF rd c(3)] .
  moreover have "nat (file_size fs ?p) = length (contents fs ?p)"
    using c(3) real_path_self [of fs ?p] by (simp add: file_size_def sys_stat_def)
  ultimately have "kv x (obj oh) (stem c) = Some (contents fs ?p) \<and> (up (fsys.more fs) \<longrightarrow> up x)"
    using daos_put_seen [OF assms(1) put] by simp
  moreover have "obj oh = ?oid"
    by (rule daos_open_obj [OF assms(1) op])
  ultimately show ?thesis
    using c fs' by (simp add: daos_stored_def)
qed

lemma daos_handle:
  assumes "daos_documented lib coh kv up obj" and "daos_stored lib coh kv up c bs fs"
  obtains oh where "daos_kv_open lib coh (generate_kv_id lib coh (unique_id c)) (fsys.more fs) = (0, oh)"
    and "kv (fsys.more fs) (obj oh) (stem c) = Some bs"
proof -
  obtain oh where op: "daos_kv_open lib coh (generate_kv_id lib coh (unique_id c)) (fsys.more fs) = (0, oh)"
    using daos_open_up [OF assms(1)] assms(2) unfolding daos_stored_def by (metis prod.collapse)
  with assms(2) daos_open_obj [OF assms(1) op] show ?thesis
    by (intro that [of oh]) (simp_all add: daos_stored_def)
qed

lemma daos_restore_reads:
  assumes "daos_documented lib coh kv up obj" and "daos_stored lib coh kv up c bs fs"
    and "node_at fs (filename c scratch) = None" and "daos_restore lib coh scratch c fs = (Ok True, fs')"
  shows "node_at fs' (filename c scratch) = Some (Reg bs)"
proof -
  obtain oh where op: "daos_kv_open lib coh (generate_kv_id lib coh (unique_id c)) (fsys.more fs) = (0, oh)"
    and kv: "kv (fsys.more fs) (obj oh) (stem c) = Some bs"
    by (rule daos_handle [OF assms(1,2)])
  obtain sz fo fs1 fs2 ds where sz: "daos_kv_size lib oh (stem c) (fsys.more fs) = (0, sz)"
      and wr: "sys_open_wr True fs (filename c scratch) = Some (fo, fs1)" and al: "sys_fallocate fs1 fo sz = Some fs2"
      and get: "daos_kv_get lib oh (stem c) sz (fsys.more fs2) = (0, ds)"
      and fs': "fs' = set_node fo (Reg (write_at (contents fs2 fo) 0 (take sz ds))) fs2"
    using assms(4) op by (auto simp: daos_restore_def split: prod.splits option.splits if_splits)
  have fo: "fo = filename c scratch" "fs1 = set_node fo (Reg []) fs"
    using open_wr_plain [OF wr] open_wr_True [OF wr] assms(3) by auto
  then have fs2: "fsys.more fs2 = fsys.more fs" "contents fs2 fo = replicate sz 0"
    using al by (auto simp: sys_fallocate_def contents_def split: if_splits)
  have len: "map_option length (kv (fsys.more fs) (obj oh) (stem c)) = Some sz"
    by (rule daos_size_right [OF assms(1) sz])
  have "kv (fsys.more fs) (obj oh) (stem c) = Some ds"
    using daos_get_right [OF assms(1), of oh "stem c" sz "fsys.more fs2" ds] get len fs2(1) by simp
  with kv len show ?thesis
    by (simp add: fs' fo(1) fs2(2) [unfolded fo(1)] write_at_cover)
qed

lemma daos_stored_exists:
  assumes "daos_documented lib coh kv up obj" and "daos_stored lib coh kv up c bs fs"
  shows "daos_exists lib coh c fs"
proof (rule daos_handle [OF assms])
  fix oh
  assume "daos_kv_open lib coh (generate_kv_id lib coh (unique_id c)) (fsys.more fs) = (0, oh)"
    and "kv (fsys.more fs) (obj oh) (stem c) = Some bs"
  moreover from this(2) have "fst (daos_kv_size lib oh (stem c) (fsys.more fs)) = 0"
    using assms(2) by (intro daos_size_up [OF assms(1)]) (simp add: daos_stored_def)
  ultimately show ?thesis
    by (simp add: daos_exists_def)
qed

lemma key_loop_finds:
  assumes "daos_key_loop ex keys r = (Inr (), r')"
  shows "set r \<subseteq> set r'" and "k \<in> set keys \<Longrightarrow> command_match k ex = Inr (Some (i, v)) \<Longrightarrow> v \<in> set r'"
proof -
  have "set r \<subseteq> set r' \<and> (\<forall>k \<in> set keys. command_match k ex = Inr (Some (i, v)) \<longrightarrow> v \<in> set r')"
    using assms by (induction keys arbitrary: r)
      (fastforce simp: set_insort_insert split: sum.splits option.splits)+
  then show "set r \<subseteq> set r'" "k \<in> set keys \<Longrightarrow> command_match k ex = Inr (Some (i, v)) \<Longrightarrow> v \<in> set r'"
    by blast+
qed

lemma list_loop_finds:
  assumes "daos_list_loop ex answers r = (Inr (), r')" and "list_all (\<lambda>a. fst a = 0) answers"
  shows "set r \<subseteq> set r' \<and> (\<forall>k \<in> set (concat (map snd answers)). command_match k ex = Inr (Some (i, v)) \<longrightarrow> v \<in> set r')"
  using assms
proof (induction ex answers r rule: daos_list_loop.induct)
  case (2 ex rc keys answers r)
  then obtain r1 where k: "daos_key_loop ex keys r = (Inr (), r1)" and l: "daos_list_loop ex answers r1 = (Inr (), r')"
    by (auto split: prod.splits sum.splits)
  have "set r1 \<subseteq> set r' \<and> (\<forall>k \<in> set (concat (map snd answers)). command_match k ex = Inr (Some (i, v)) \<longrightarrow> v \<in> set r')"
    using 2 k l by simp
  with key_loop_finds [OF k] show ?case by auto
qed simp

lemma daos_stored_listed:
  assumes "daos_documented lib coh kv up obj" and "daos_stored lib coh kv up c bs fs" and "daos_get_versions lib coh c fs r = (Inr (), r')"
  shows "version c \<in> set r'"
proof -
  obtain oh where op: "daos_kv_open lib coh (generate_kv_id lib coh (unique_id c)) (fsys.more fs) = (0, oh)"
    and kv: "kv (fsys.more fs) (obj oh) (stem c) = Some bs"
    by (rule daos_handle [OF assms(1,2)])
  have c: "wf_command c" "up (fsys.more fs)" "validate_name (cname c)"
    using assms(2) by (auto simp: daos_stored_def wf_command_def)
  let ?l = "daos_kv_list lib oh (fsys.more fs)"
  have all: "list_all (\<lambda>a. fst a = 0) ?l"
    by (rule daos_list_up [OF assms(1) c(2)])
  have "stem c \<in> set (concat (map snd ?l))"
    unfolding daos_list_all [OF assms(1) all] using kv by blast
  moreover have "daos_list_loop (map atom_of (cname c)) ?l r = (Inr (), r')"
    using assms(3) op validate_name_regex [OF c(3)] by (simp add: daos_get_versions_def)
  ultimately show ?thesis
    using list_loop_finds [OF _ all] command_match_stem [OF c(1)] by blast
qed

lemma daos_contract:
  assumes "daos_documented lib coh kv up obj"
  shows "storage_contract (daos_module lib coh scratch) scratch (daos_ready up scratch) (daos_stored lib coh kv up)"
proof
  show "daos_stored lib coh kv up (c\<lparr>command := k\<rparr>) = daos_stored lib coh kv up c" for c k
    by (simp add: daos_stored_def fun_eq_iff stem_def)
  show "\<exists>ok fs'. sm_flush (daos_module lib coh scratch) c fs = (Ok ok, fs')" for c fs
    by (auto simp: daos_module_def daos_flush_def Let_def split: prod.split option.split)
qed (use daos_flush_stores [OF assms] daos_restore_reads [OF assms] daos_stored_exists [OF assms] daos_stored_listed [OF assms]
    in \<open>auto simp: daos_module_def daos_stored_def\<close>)

section \<open>AXL\<close>

datatype axl_xfer_t = AXL_XFER_DEFAULT | AXL_XFER_NATIVE | AXL_XFER_SYNC | AXL_XFER_ASYNC_DW | AXL_XFER_ASYNC_BBAPI

definition axl_type_strs :: "(string \<times> axl_xfer_t) list" where
  "axl_type_strs =
     [(''default'', AXL_XFER_DEFAULT), (''native'', AXL_XFER_NATIVE), (''AXL_XFER_SYNC'', AXL_XFER_SYNC),
      (''AXL_XFER_ASYNC_DW'', AXL_XFER_ASYNC_DW), (''AXL_XFER_ASYNC_BBAPI'', AXL_XFER_ASYNC_BBAPI)]"

record 'x axl_lib =
  AXL_Init :: int
  AXL_Create :: "axl_xfer_t \<Rightarrow> string \<Rightarrow> 'x fsys_scheme \<Rightarrow> int \<times> 'x fsys_scheme"
  AXL_Add :: "int \<Rightarrow> string \<Rightarrow> string \<Rightarrow> 'x fsys_scheme \<Rightarrow> int \<times> 'x fsys_scheme"
  AXL_Dispatch :: "int \<Rightarrow> 'x fsys_scheme \<Rightarrow> int \<times> 'x fsys_scheme"
  AXL_Wait :: "int \<Rightarrow> 'x fsys_scheme \<Rightarrow> int \<times> 'x fsys_scheme"
  AXL_Free :: "int \<Rightarrow> 'x fsys_scheme \<Rightarrow> int \<times> 'x fsys_scheme"

text \<open>One call of the sequence: a result other than 0 is the jump to the error message.\<close>

definition axl_then ::
    "('x fsys_scheme \<Rightarrow> int \<times> 'x fsys_scheme) \<Rightarrow> ('x fsys_scheme \<Rightarrow> bool \<times> 'x fsys_scheme) \<Rightarrow>
     'x fsys_scheme \<Rightarrow> bool \<times> 'x fsys_scheme" where
  "axl_then f g fs = (case f fs of (result, fs') \<Rightarrow> if result \<noteq> 0 then (False, fs') else g fs')"

definition axl_transfer_file ::
    "'x axl_lib \<Rightarrow> axl_xfer_t \<Rightarrow> string \<Rightarrow> string \<Rightarrow> 'x fsys_scheme \<Rightarrow> bool \<times> 'x fsys_scheme" where
  "axl_transfer_file lib ty source dest fs =
     (case AXL_Create lib ty source fs of
        (i, fs1) \<Rightarrow>
          if i < 0 then (False, fs1)
          else axl_then (AXL_Add lib i source dest) (axl_then (AXL_Dispatch lib i)
                 (axl_then (AXL_Wait lib i) (axl_then (AXL_Free lib i) (Pair True)))) fs1)"

definition axl_flush ::
    "'x axl_lib \<Rightarrow> axl_xfer_t \<Rightarrow> string \<Rightarrow> string \<Rightarrow> command_t \<Rightarrow> 'x fsys_scheme \<Rightarrow> bool outcome \<times> 'x fsys_scheme" where
  "axl_flush lib ty scratch persistent cmd fs =
     (if original cmd = '''' then
        apfst Ok (axl_transfer_file lib ty (filename cmd scratch) (filename cmd persistent) fs)
      else
        (case axl_transfer_file lib ty (filename cmd scratch) (original cmd) fs of
           (ok, fs1) \<Rightarrow>
             if \<not> ok then (Ok False, fs1)
             else apfst Ok (sys_symlink (snd (sys_unlink fs1 (filename cmd persistent))) (original cmd) (filename cmd persistent))))"

definition axl_restore ::
    "'x axl_lib \<Rightarrow> axl_xfer_t \<Rightarrow> string \<Rightarrow> string \<Rightarrow> command_t \<Rightarrow> 'x fsys_scheme \<Rightarrow> bool outcome \<times> 'x fsys_scheme" where
  "axl_restore lib ty scratch persistent cmd fs =
     apfst Ok (axl_transfer_file lib ty (filename cmd persistent) (filename cmd scratch) fs)"

text \<open>The class inherits the other operations of the POSIX module.\<close>

definition axl_module :: "'x axl_lib \<Rightarrow> axl_xfer_t \<Rightarrow> string \<Rightarrow> string \<Rightarrow> 'x storage_module" where
  "axl_module lib ty scratch persistent =
     (posix_module scratch persistent)
       \<lparr>sm_flush := axl_flush lib ty scratch persistent, sm_restore := axl_restore lib ty scratch persistent\<rparr>"

definition new_axl_module :: "'x axl_lib \<Rightarrow> 'x maker" where
  "new_axl_module lib scratch persistent axl_type_str fs =
     (case new_posix_module scratch persistent fs of
        (Inl e, fs1) \<Rightarrow> (Inl e, fs1)
      | (Inr _, fs1) \<Rightarrow>
          (case map_of axl_type_strs axl_type_str of
             None \<Rightarrow> (Inl Fatal, fs1)
           | Some ty \<Rightarrow> (if AXL_Init lib \<noteq> 0 then Inl Fatal else Inr (axl_module lib ty scratch persistent), fs1)))"

section \<open>The contract of the AXL module\<close>

text \<open>
  What the module relies on: a transfer whose calls all report success has copied the source,
  and changed no other file. The library's own records are in the extension of the state.
\<close>

definition axl_documented :: "'x axl_lib \<Rightarrow> axl_xfer_t \<Rightarrow> bool" where
  "axl_documented lib ty \<longleftrightarrow>
     (\<forall>s d bs fs i fs1 fs2 fs3 fs4 fs5. AXL_Create lib ty s fs = (i, fs1) \<and> 0 \<le> i \<and> AXL_Add lib i s d fs1 = (0, fs2) \<and>
        AXL_Dispatch lib i fs2 = (0, fs3) \<and> AXL_Wait lib i fs3 = (0, fs4) \<and> AXL_Free lib i fs4 = (0, fs5) \<and>
        node_at fs s = Some (Reg bs) \<longrightarrow> fsys.truncate fs5 = set_node d (Reg bs) (fsys.truncate fs))"

lemma axl_transfer_copies:
  assumes "axl_documented lib ty" and "axl_transfer_file lib ty s d fs = (True, fs')" and "node_at fs s = Some (Reg bs)"
  shows "fsys.truncate fs' = set_node d (Reg bs) (fsys.truncate fs)"
proof -
  obtain i fs1 fs2 fs3 fs4 where "AXL_Create lib ty s fs = (i, fs1)" "0 \<le> i" "AXL_Add lib i s d fs1 = (0, fs2)"
      "AXL_Dispatch lib i fs2 = (0, fs3)" "AXL_Wait lib i fs3 = (0, fs4)" "AXL_Free lib i fs4 = (0, fs')"
    using assms(2) by (auto simp: axl_transfer_file_def axl_then_def split: prod.splits if_splits)
  with assms(1,3) show ?thesis
    unfolding axl_documented_def by blast
qed

lemma truncate_nodes [simp]: "node_at (fsys.truncate fs) = node_at fs" "fs_wf (fsys.truncate fs) = fs_wf fs"
    "deny_read (fsys.truncate fs) = deny_read fs" "contents (fsys.truncate fs) = contents fs"
    "sys_opendir (fsys.truncate fs) = sys_opendir fs"
  by (simp_all add: fsys.truncate_def node_at_def fun_eq_iff fs_wf_def contents_def sys_opendir_def is_dir_def)

lemma posix_stored_truncate [simp]:
  "posix_stored scratch persistent c bs (fsys.truncate fs) = posix_stored scratch persistent c bs fs"
  by (simp add: posix_stored_def)

lemma axl_contract:
  assumes "axl_documented lib ty"
  shows "storage_contract (axl_module lib ty scratch persistent) scratch (posix_ready scratch persistent)
    (posix_stored scratch persistent)"
proof
  fix c and fs fs' :: "'a fsys_scheme"
  assume r: "posix_ready scratch persistent c fs"
    and "sm_flush (axl_module lib ty scratch persistent) c fs = (Ok True, fs')"
  then have "fsys.truncate fs' = set_node (filename c persistent) (Reg (contents fs (filename c scratch))) (fsys.truncate fs)"
    by (intro axl_transfer_copies [OF assms])
      (auto simp: axl_module_def axl_flush_def posix_ready_def apfst_def map_prod_def split: prod.splits)
  moreover from r have "posix_stored scratch persistent c (contents fs (filename c scratch))
      (set_node (filename c persistent) (Reg (contents fs (filename c scratch))) (fsys.truncate fs))"
    by (auto simp: posix_stored_def posix_ready_def)
  ultimately show "posix_stored scratch persistent c (contents fs (filename c scratch)) fs'"
    by (metis posix_stored_truncate)
next
  fix c bs and fs fs' :: "'a fsys_scheme"
  assume "posix_stored scratch persistent c bs fs" and "node_at fs (filename c scratch) = None"
    and "sm_restore (axl_module lib ty scratch persistent) c fs = (Ok True, fs')"
  then have "fsys.truncate fs' = set_node (filename c scratch) (Reg bs) (fsys.truncate fs)"
    by (intro axl_transfer_copies [OF assms])
      (auto simp: axl_module_def axl_restore_def posix_stored_def apfst_def map_prod_def split: prod.splits)
  then have "node_at (fsys.truncate fs') (filename c scratch) = Some (Reg bs)"
    by simp
  then show "node_at fs' (filename c scratch) = Some (Reg bs)"
    by simp
next
  fix c and fs :: "'a fsys_scheme"
  assume "posix_ready scratch persistent c fs"
  then show "\<exists>ok fs'. sm_flush (axl_module lib ty scratch persistent) c fs = (Ok ok, fs')"
    by (cases "axl_transfer_file lib ty (filename c scratch) (filename c persistent) fs")
      (simp add: axl_module_def axl_flush_def posix_ready_def)
qed (simp_all add: axl_module_def posix_module_def posix_stored_exists posix_stored_listed posix_stored_lose posix_stored_kind)

section \<open>Properties\<close>


text \<open>A store that is a table from objects and keys to values; an object has its number as handle.\<close>

type_synonym table_store = "((daos_handle_t \<times> string) \<times> byte list) list"

definition table_daos :: "table_store daos_lib" where
  "table_daos =
     \<lparr>daos_init = Pair 0, daos_pool_connect = (\<lambda>_ x. (0, 1, x)), daos_cont_open = (\<lambda>_ _ x. (0, 1, x)),
      daos_obj_generate_oid = (\<lambda>_ oid. oid),
      daos_kv_open = (\<lambda>_ oid x. (if oid_hi oid = 0 then 0 else 1, oid_lo oid)),
      daos_kv_list = (\<lambda>h x. [(0, map (snd \<circ> fst) (filter (\<lambda>e. fst (fst e) = h) x))]),
      daos_kv_put = (\<lambda>h k bs x. (0, ((h, k), bs) # x)),
      daos_kv_size = (\<lambda>h k x. case map_of x (h, k) of None \<Rightarrow> (1, 0) | Some bs \<Rightarrow> (0, length bs)),
      daos_kv_get = (\<lambda>h k n x. case map_of x (h, k) of None \<Rightarrow> (1, []) | Some bs \<Rightarrow> (0, take n bs)),
      daos_kv_remove = (\<lambda>h k x. (0, filter (\<lambda>e. fst e \<noteq> (h, k)) x))\<rparr>"

definition table_kv :: "table_store \<Rightarrow> daos_obj_id_t \<Rightarrow> string \<Rightarrow> byte list option" where
  "table_kv x oid k = map_of x (oid_lo oid, k)"

lemma table_documented: "daos_documented table_daos 1 table_kv (\<lambda>_. True) (\<lambda>h. \<lparr>oid_lo = h, oid_hi = 0\<rparr>)"
proof -
  have "set (map (snd \<circ> fst) (filter (\<lambda>e. fst (fst e) = h) x)) = dom (\<lambda>k. map_of x (h, k))" for h :: daos_handle_t and x :: table_store
    by (induction x) (auto split: if_splits)
  then show ?thesis
    by (auto simp: daos_documented_def table_daos_def generate_kv_id_def table_kv_def split: option.splits if_splits)
qed

definition sample_daos_fs :: "table_store fsys_scheme" where
  "sample_daos_fs = fsys.extend (healthy [(''/s'', Dir), (''/s/heat.2d-3-12.dat'', Reg [4, 5, 6])]) []"

lemma sample_daos_ready: "daos_ready (\<lambda>_. True) ''/s'' sample_command sample_daos_fs"
  using wf_sample_command
  by (simp add: daos_ready_def sample_name sample_daos_fs_def contents_def node_at_def healthy_def fsys.defs)

lemma sample_daos_facts:
  "node_at sample_daos_fs ''/s/heat.2d-3-12.dat'' = Some (Reg [4, 5, 6])" "node_at sample_daos_fs ''/s'' = Some Dir"
  "faultless sample_daos_fs" "fsys.more sample_daos_fs = []"
  by (simp_all add: sample_daos_fs_def node_at_def healthy_def fsys.defs faultless_def)

lemma sample_daos_flush:
  "daos_flush table_daos 1 ''/s'' sample_command sample_daos_fs =
     (Ok True, fsys.more_update (\<lambda>_. [((3, stem sample_command), [4, 5, 6])]) sample_daos_fs)"
proof -
  have "sys_open_rd sample_daos_fs ''/s/heat.2d-3-12.dat'' = Some ''/s/heat.2d-3-12.dat''"
    "file_size sample_daos_fs ''/s/heat.2d-3-12.dat'' = 3" "\<not> io_error sample_daos_fs p" for p
    using real_path_self [of sample_daos_fs "''/s/heat.2d-3-12.dat''"] sample_daos_facts
    by (simp_all add: sys_open_rd_def file_size_def sys_stat_def faultless_def)
  then show ?thesis
    using sample_daos_facts
    by (simp add: daos_flush_def sample_name sys_mmap_def table_daos_def generate_kv_id_def contents_def)
      (simp add: sample_command_def)
qed

lemma faultless_more [simp]: "faultless (fsys.more_update f fs) = faultless fs"
  by (simp add: faultless_def)

lemma sample_daos_restore:
  assumes "daos_flush table_daos 1 ''/s'' sample_command sample_daos_fs = (Ok True, fs1)"
  shows "fst (daos_restore table_daos 1 ''/s'' sample_command (del_node ''/s/heat.2d-3-12.dat'' fs1)) = Ok True"
proof -
  let ?fs = "del_node ''/s/heat.2d-3-12.dat'' fs1"
  have fs1: "fs1 = fsys.more_update (\<lambda>_. [((3, stem sample_command), [4, 5, 6])]) sample_daos_fs"
    using assms sample_daos_flush by simp
  have ok: "faultless ?fs" "fsys.more ?fs = [((3, stem sample_command), [4, 5, 6])]" "\<not> io_error ?fs p" for p
    using sample_daos_facts by (simp_all add: fs1 faultless_def)
  have "sys_open_wr True ?fs ''/s/heat.2d-3-12.dat'' =
      Some (''/s/heat.2d-3-12.dat'', set_node ''/s/heat.2d-3-12.dat'' (Reg []) ?fs)"
    using sample_daos_facts by (intro open_wr_new [OF ok(1)]) (simp_all add: is_dir_def dirname_def fs1)
  moreover have "unique_id sample_command = 3"
    by (simp add: sample_command_def)
  ultimately show ?thesis
    using ok by (simp add: daos_restore_def sample_name sys_mmap_def sys_fallocate_def table_daos_def generate_kv_id_def contents_def)
qed


end
