(* ===== verification/Inspect.thy ===== *)
theory Inspect
  imports Client
begin

text \<open>
  The tool \<^verbatim>\<open>src/src/tools/veloc-inspect.cpp\<close>, which prints the header of a checkpoint file or the
  bytes of one region. The command line is the sequence of the answers of \<^verbatim>\<open>getopt_long\<close>: the
  option character and its argument. The result is the exit code and what goes to the standard
  output.
\<close>

section \<open>The tool\<close>

text \<open>\<^verbatim>\<open>sscanf\<close>: \<open>None\<close> when there is no number; a number out of range is undefined.\<close>

definition scan_number :: "string \<Rightarrow> (bool \<times> nat) option" where
  "scan_number s =
     (let t = lskip s; neg = (t \<noteq> '''' \<and> hd t = CHR ''-'');
          body = (if t \<noteq> '''' \<and> (hd t = CHR ''-'' \<or> hd t = CHR ''+'') then tl t else t);
          ds = takeWhile is_digit body
      in if ds = '''' then None else Some (neg, text_nat ds))"

definition scan_d :: "string \<Rightarrow> int res option" where
  "scan_d s =
     map_option (\<lambda>(neg, n). let i = (if neg then - int n else int n) in if is_int32 i then Inr i else Inl Undefined)
       (scan_number s)"

definition scan_lu :: "string \<Rightarrow> size_t res option" where
  "scan_lu s =
     map_option (\<lambda>(neg, n). if n < 2 ^ 64 then Inr (if neg then - of_nat n else of_nat n) else Inl Undefined) (scan_number s)"

record options =
  o_header :: bool
  o_id :: int
  o_size :: size_t
  o_ckpt_name :: string

text \<open>The loop over the options; \<open>None\<close> is \<^verbatim>\<open>exit_with_usage\<close>.\<close>

fun parse_options :: "(char \<times> string) list \<Rightarrow> options \<Rightarrow> options res option" where
  "parse_options [] os = Some (Inr os)"
| "parse_options ((ret, optarg) # rest) os =
     (if ret = CHR ''h'' then parse_options rest (os\<lparr>o_header := True\<rparr>)
      else if ret = CHR ''e'' then
        (case scan_d optarg of
           None \<Rightarrow> None
         | Some (Inl e) \<Rightarrow> Some (Inl e)
         | Some (Inr i) \<Rightarrow> parse_options rest (os\<lparr>o_id := i\<rparr>))
      else if ret = CHR ''s'' then
        (case scan_lu optarg of
           None \<Rightarrow> None
         | Some (Inl e) \<Rightarrow> Some (Inl e)
         | Some (Inr n) \<Rightarrow> parse_options rest (os\<lparr>o_size := n\<rparr>))
      else if ret = CHR ''c'' then parse_options rest (os\<lparr>o_ckpt_name := optarg\<rparr>)
      else parse_options rest os)"

definition print_text :: "string \<Rightarrow> byte list" where
  "print_text s = map of_char s"

definition newline :: string where
  "newline = [CHR 0x0A]"

definition header_text :: "string \<Rightarrow> region_sizes \<Rightarrow> string" where
  "header_text nm info =
     ''Header for '' @ nm @ '':'' @ newline @
     concat (map (\<lambda>(i, n). ''id = '' @ to_string i @ '', size = '' @ to_string (uint n) @ newline) info) @
     ''Total checkpoint size = '' @ to_string (uint (sum_list (map snd info))) @ newline"

text \<open>The position of a region: the sizes of the regions before it are added up.\<close>

fun seek_region :: "int \<Rightarrow> region_sizes \<Rightarrow> size_t \<Rightarrow> size_t option" where
  "seek_region i [] off = None"
| "seek_region i ((j, n) # es) off = (if j = i then Some off else seek_region i es (off + n))"

text \<open>
  Reading nothing goes through the first element of an empty vector, which is undefined. A read
  that falls short raises the failure of the stream.
\<close>

definition extract_region :: "'x fsys_scheme \<Rightarrow> string \<Rightarrow> int \<Rightarrow> size_t \<Rightarrow> size_t \<Rightarrow> region_sizes \<Rightarrow> int outcome \<times> byte list" where
  "extract_region fs ckpt_name i sz hs info =
     (case sys_open_rd fs ckpt_name of
        None \<Rightarrow> (Ok (- 1), [])
      | Some f \<Rightarrow>
          (case seek_region i info hs of
             None \<Rightarrow> (Ok (- 1), [])
           | Some seek_offset \<Rightarrow>
               let region_size = (case map_of info i of None \<Rightarrow> 0 | Some n \<Rightarrow> n)
               in if region_size < sz then (Ok (- 1), [])
                  else
                    let n = unat (if sz = 0 then region_size else sz);
                        bs = (if io_error fs f then [] else take n (drop (unat seek_offset) (contents fs f)))
                    in if n = 0 then (Throws Undefined, [])
                       else if length bs < n then (Ok (- 1), [])
                       else (Ok 0, bs)))"

definition inspect_main :: "(char \<times> string) list \<Rightarrow> 'x fsys_scheme \<Rightarrow> int outcome \<times> byte list" where
  "inspect_main opts fs =
     (case parse_options opts \<lparr>o_header = False, o_id = - 1, o_size = 0, o_ckpt_name = ''''\<rparr> of
        None \<Rightarrow> (Ok (- 1), [])
      | Some (Inl e) \<Rightarrow> (Throws e, [])
      | Some (Inr os) \<Rightarrow>
          if o_ckpt_name os = '''' \<or> \<not> o_header os \<and> o_id os < 0 then (Ok (- 1), [])
          else (case read_header fs (o_ckpt_name os) of
                  (hs, info) \<Rightarrow>
                    if hs = 0 then (Ok (- 1), [])
                    else if o_header os then (Ok 0, print_text (header_text (o_ckpt_name os) info))
                    else extract_region fs (o_ckpt_name os) (o_id os) (o_size os) hs info))"

section \<open>Extraction from a checkpoint\<close>

lemma scan_d_to_string:
  assumes "0 \<le> i" and "is_int32 i"
  shows "scan_d (to_string i) = Some (Inr i)"
proof -
  obtain d ds where t: "to_string i = d # ds"
    using to_string_nonempty [of i] by (cases "to_string i") auto
  have all: "list_all is_digit (to_string i)"
    by (rule to_string_digits [OF assms(1)])
  then have d: "is_digit d"
    by (simp add: t)
  then have "\<not> isspace d" "d \<noteq> CHR ''-''" "d \<noteq> CHR ''+''"
    by (auto simp: is_digit_def isspace_def less_eq_char_def)
  moreover have "takeWhile is_digit (to_string i) = to_string i"
    using all by (simp add: takeWhile_eq_all_conv list_all_iff)
  moreover have "text_nat (to_string i) = nat i"
    using assms(1) by (simp add: to_string_def text_nat_nat_text)
  ultimately have "scan_number (to_string i) = Some (False, nat i)"
    using t by (simp add: scan_number_def Let_def lskip_def)
  with assms show ?thesis
    by (simp add: scan_d_def)
qed

text \<open>The regions before a region take as many bytes as the tool skips.\<close>

lemma seek_image:
  assumes "i \<notin> fst ` set before"
  shows "seek_region i (sizes_of (before @ (i, r) # after)) off =
    Some (off + of_nat (length (concat (map (region_bytes m) before))))"
  using assms
proof (induction before arbitrary: off)
  case (Cons e before)
  then show ?case
    by (auto simp: sizes_of_def algebra_simps)
qed (simp add: sizes_of_def)


definition sample_file :: fsys where
  "sample_file = healthy [(''/c'', Reg (image_of sample_mem sample_regions))]"


end
