(* ===== verification/Backend_Main.thy ===== *)
theory Backend_Main
  imports Work_Queue
begin

text \<open>
  The program \<^verbatim>\<open>veloc-backend\<close>, \<^verbatim>\<open>src/src/backend/main.cpp\<close>, up to the point where it serves. The
  file \<^verbatim>\<open>/dev/shm/veloc-backend-ready-<uid>\<close> holds the process id of the backend of a user; it is
  locked from the check to the moment the id is written. What the process asks the system for is
  the record \<open>backend_env\<close>. Without erasure coding the program forks: the model follows the child,
  while the parent waits for its signal. Signals themselves are not modelled.
\<close>

section \<open>The program\<close>

record 'x backend_env =
  be_uid :: int
  be_pid :: int
  be_child :: int
  be_flock_ok :: bool
  be_fork_ok :: bool
  be_setsid_ok :: bool
  be_alive :: "int \<Rightarrow> bool"
  be_daos :: "'x maker option"
  be_axl :: "'x maker option"
  be_getenv :: "string \<Rightarrow> string option"
  be_suffix :: string
  be_modules :: "'x mod_env"
  be_cores :: int
  be_world :: "int \<times> int"

datatype 'x backend_process = Exited int | Serving int "'x config" "'x modules server"

definition ready_file :: "int \<Rightarrow> string" where
  "ready_file uid = ''/dev/shm/veloc-backend-ready-'' @ to_string uid"

text \<open>The check for another instance: the descriptor, and whether one is running.\<close>

definition check_instance :: "'x backend_env \<Rightarrow> 'x fsys_scheme \<Rightarrow> (string \<times> bool) res \<times> 'x fsys_scheme" where
  "check_instance env fs =
     (case sys_open_wr False fs (ready_file (be_uid env)) of
        None \<Rightarrow> (Inl Fatal, fs)
      | Some (ready_fd, fs1) \<Rightarrow>
          if \<not> be_flock_ok env then (Inl Fatal, fs1)
          else if contents fs1 ready_fd = [] then (Inr (ready_fd, False), fs1)
          else (case sys_pread fs1 ready_fd 4 0 of
                  None \<Rightarrow> (Inl Fatal, fs1)
                | Some bs \<Rightarrow>
                    if length bs \<noteq> 4 then (Inl Fatal, fs1)
                    else (Inr (ready_fd, be_alive env (dec_int bs)), fs1)))"

definition disable_ec :: "string list \<Rightarrow> bool" where
  "disable_ec argv \<longleftrightarrow> ''--disable-ec'' \<in> set (tl argv)"

definition config_argument :: "string list \<Rightarrow> string" where
  "config_argument argv = (if length argv > 1 \<and> argv ! 1 \<noteq> ''--disable-ec'' then argv ! 1 else '''')"

definition write_pid :: "int \<Rightarrow> string \<Rightarrow> 'x fsys_scheme \<Rightarrow> unit res \<times> 'x fsys_scheme" where
  "write_pid pid ready_fd fs =
     (case sys_pwrite fs ready_fd (enc_int pid) 0 of
        None \<Rightarrow> (Inl Fatal, fs)
      | Some (k, fs') \<Rightarrow> (if k \<noteq> 4 then Inl Fatal else Inr (), fs'))"

definition backend_main :: "'x backend_env \<Rightarrow> string list \<Rightarrow> 'x fsys_scheme \<Rightarrow> 'x backend_process res \<times> 'x fsys_scheme" where
  "backend_main env argv fs =
     (if length argv > 3 then (Inr (Exited (- 1)), fs)
      else (case check_instance env fs of
          (Inl e, fs1) \<Rightarrow> (Inl e, fs1)
        | (Inr (ready_fd, running), fs1) \<Rightarrow>
            if running then (Inr (Exited 0), fs1)
            else (case new_config (be_daos env) (be_axl env) (be_getenv env) (be_suffix env) (config_argument argv) True fs1 of
                (Inl e, fs2) \<Rightarrow> (Inl e, fs2)
              | (Inr cfg, fs2) \<Rightarrow>
                  if cfg_sync cfg then (Inl Fatal, fs2)
                  else
                    let ec_active = \<not> disable_ec argv
                    in if \<not> ec_active \<and> (\<not> be_fork_ok env \<or> \<not> be_setsid_ok env) then (Inl Fatal, fs2)
                       else
                         let pid = (if ec_active then be_pid env else be_child env)
                         in (case start_main_loop (be_modules env) (be_cores env) cfg
                                    (if ec_active then Some (be_world env) else None) fs2 of
                               (Inl e, fs3) \<Rightarrow> (Inl e, fs3)
                             | (Inr srv, fs3) \<Rightarrow>
                                 (case write_pid pid ready_fd fs3 of
                                    (Inl e, fs4) \<Rightarrow> (Inl e, fs4)
                                  | (Inr _, fs4) \<Rightarrow> (Inr (Serving pid cfg srv), fs4))))))"

section \<open>One instance\<close>

lemma enc_int_nonempty: "enc_int i \<noteq> []"
  by (metis length_enc_int list.size(3) zero_neq_numeral)

lemma write_pid_node:
  assumes "write_pid pid q fs = (Inr (), fs')"
  shows "\<exists>rest. node_at fs' q = Some (Reg (enc_int pid @ rest))"
proof -
  have "fs' = set_node q (Reg (write_at (contents fs q) 0 (enc_int pid))) fs"
    using assms by (auto simp: write_pid_def sys_pwrite_def Let_def split: option.splits if_splits)
  moreover have "write_at (contents fs q) 0 (enc_int pid) = enc_int pid @ drop 4 (contents fs q)"
    using enc_int_nonempty by (simp add: write_at_def)
  ultimately show ?thesis by auto
qed

text \<open>The system calls of the check work: the file opens, and four bytes are read at once.\<close>

definition can_check :: "'x backend_env \<Rightarrow> 'x fsys_scheme \<Rightarrow> bool" where
  "can_check env fs \<longleftrightarrow> be_flock_ok env \<and> \<not> deny_write fs (ready_file (be_uid env)) \<and>
     \<not> io_error fs (ready_file (be_uid env)) \<and> rd_chunk fs 4 = 4"

text \<open>What \<^verbatim>\<open>write_pid\<close> leaves is what the next check reads.\<close>

lemma check_after_write:
  assumes "node_at fs (ready_file (be_uid env)) = Some (Reg (enc_int pid @ rest))" and "is_int32 pid" and "can_check env fs"
  shows "check_instance env fs = (Inr (ready_file (be_uid env), be_alive env pid), fs)"
proof -
  let ?r = "ready_file (be_uid env)"
  have "sys_pread fs ?r 4 0 = Some (enc_int pid)"
    using assms(1,3) by (simp add: sys_pread_def contents_def Let_def can_check_def clip_def)
  moreover have "sys_open_wr False fs ?r = Some (?r, fs)"
    using assms(1,3) real_path_self [of fs ?r] by (simp add: sys_open_wr_def can_check_def)
  ultimately show ?thesis
    using assms enc_int_nonempty by (simp add: check_instance_def contents_def can_check_def codec_simps)
qed

section \<open>Properties\<close>

text \<open>
  C40: a user has one backend. When a backend has come up, every later start by the same user,
  with whatever arguments and configuration, ends with code 0 and leaves all files alone as long
  as that process is alive and the system calls of the check do not fail.
\<close>

theorem backend_single_instance:
  assumes "backend_main env argv fs = (Inr (Serving pid cfg srv), fs')" and "plain fs (ready_file (be_uid env))" and "is_int32 pid"
    and "be_uid env' = be_uid env" and "be_alive env' pid" and "can_check env' fs'" and "length argv' \<le> 3"
  shows "backend_main env' argv' fs' = (Inr (Exited 0), fs')"
proof -
  obtain q running fs1 fs3 where ci: "check_instance env fs = (Inr (q, running), fs1)" and w: "write_pid pid q fs3 = (Inr (), fs')"
    using assms(1) by (auto simp: backend_main_def Let_def split: if_splits prod.splits sum.splits)
  have "\<exists>fs0. sys_open_wr False fs (ready_file (be_uid env)) = Some (q, fs0)"
    using ci by (auto simp: check_instance_def split: option.splits if_splits)
  then have "q = ready_file (be_uid env)"
    using open_wr_plain [of False fs "ready_file (be_uid env)" q] assms(2) by (auto simp: plain_iff)
  then obtain rest where "node_at fs' (ready_file (be_uid env')) = Some (Reg (enc_int pid @ rest))"
    using write_pid_node [OF w] assms(4) by auto
  from check_after_write [OF this assms(3,6)] assms(5,7) show ?thesis
    by (simp add: backend_main_def)
qed

definition sample_backend_env :: "unit backend_env" where
  "sample_backend_env =
     \<lparr>be_uid = 7, be_pid = 76, be_child = 77, be_flock_ok = True, be_fork_ok = True, be_setsid_ok = True,
      be_alive = (\<lambda>p. p = 77), be_daos = None, be_axl = None, be_getenv = sample_env, be_suffix = [],
      be_modules = sample_menv, be_cores = 2, be_world = (0, 1)\<rparr>"

definition sample_backend_fs :: fsys where
  "sample_backend_fs = healthy [(''/dev/shm'', Dir), (''/s'', Dir), (''/p'', Dir), (''/m'', Dir)]"

lemma sample_backend_serves:
  "case backend_main sample_backend_env [''veloc-backend'', ''--disable-ec''] sample_backend_fs of
     (Inr (Serving pid _ _), fs') \<Rightarrow> pid = 77 \<and> can_check sample_backend_env fs'
   | _ \<Rightarrow> False"
  by code_simp

theorem backend_single_instance_witness:
  "\<exists>cfg srv fs'. backend_main sample_backend_env [''veloc-backend'', ''--disable-ec''] sample_backend_fs = (Inr (Serving 77 cfg srv), fs') \<and>
     backend_main sample_backend_env [''veloc-backend'', ''/etc/veloc.cfg''] fs' = (Inr (Exited 0), fs')"
proof -
  obtain cfg srv fs' where run: "backend_main sample_backend_env [''veloc-backend'', ''--disable-ec''] sample_backend_fs = (Inr (Serving 77 cfg srv), fs')"
      and ok: "can_check sample_backend_env fs'"
    using sample_backend_serves by (auto split: prod.splits sum.splits backend_process.splits)
  have "plain sample_backend_fs (ready_file (be_uid sample_backend_env))"
    by code_simp
  moreover have "is_int32 77" "be_alive sample_backend_env 77"
    by (simp_all add: is_int32_def sample_backend_env_def)
  ultimately have "backend_main sample_backend_env [''veloc-backend'', ''/etc/veloc.cfg''] fs' = (Inr (Exited 0), fs')"
    using ok by (intro backend_single_instance [OF run]) simp_all
  with run show ?thesis by blast
qed

end
