(* ===== verification/Spec2Isabelle.thy ===== *)
theory Spec2Isabelle
  imports Service Posix_Cache C_Api Storage_Libs Inspect Backend_Main
begin

text \<open>
  \<^bold>\<open>VELOC: a verification development.\<close>

  VELOC is a checkpoint/restart library. An application protects regions of its memory (or routes
  its own files) through a client library; a checkpoint is written to node-local scratch storage,
  and a chain of modules copies it to persistent storage, protects it with erasure codes, records
  its checksum and removes old versions. The chain runs in the process (synchronous mode) or in a
  backend process that receives commands through a queue (asynchronous mode). A restart goes the
  other way. All files named below are under \<^verbatim>\<open>src/src\<close> unless they start with \<^verbatim>\<open>src/\<close>.

  \<^bold>\<open>The theories\<close>

  \<^item> \<open>Veloc_Prelude\<close>: integers and byte buffers of the LP64 platform, outcomes of calls (a value, an
    exception or the end of the process, not returning), \<^verbatim>\<open>std::map\<close> as ordered association lists,
    little-endian encodings, decimal text. Locales \<open>ordered_map\<close> and \<open>byte_codec\<close>.
  \<^item> \<open>Posix_Fs\<close>: the system calls on files, with every fault and short transfer as a choice of the
    environment that the state carries.
  \<^item> \<open>Command\<close>: \<^verbatim>\<open>common/command.cpp\<close>, the commands, their file names, the regular expression that
    recognises them; names are parsed back.
  \<^item> \<open>File_Util\<close>, \<open>Ckpt_Util\<close>: \<^verbatim>\<open>common/file_util.cpp\<close> and \<^verbatim>\<open>common/ckpt_util.cpp\<close>. Transfers copy the
    range they are asked to, in both builds; the header parser accepts the layout the client
    writes and rejects truncated files.
  \<^item> \<open>Storage\<close>: \<^verbatim>\<open>storage/{storage,posix,posix_agg}_module.cpp\<close>. The locale \<open>storage_contract\<close> (what is
    flushed exists, is listed and is restored) is interpreted on both classes.
  \<^item> \<open>Storage_Libs\<close>: \<^verbatim>\<open>storage/daos_module.cpp\<close> and \<^verbatim>\<open>storage/axl_module.cpp\<close> over the calls of DAOS and
    AXL; both satisfy \<open>storage_contract\<close> when the libraries behave as documented.
  \<^item> \<open>Comm_Queue\<close>: the queues of \<^verbatim>\<open>common/{ipc,socket,thallium}_queue.hpp\<close>. The locales \<open>comm_backend\<close> and
    \<open>status_backend\<close> (order, no loss, no duplication, completion status) are interpreted on them.
  \<^item> \<open>Ini_Reader\<close>, \<open>Config\<close>: \<^verbatim>\<open>common/INIReader.h\<close> and \<^verbatim>\<open>common/config.cpp\<close>: files of well-formed lines are
    read back, accepted configurations are complete.
  \<^item> \<open>Watchdog\<close>, \<open>Transfer_Module\<close>, \<open>Chksum_Module\<close>, \<open>Versioning_Module\<close>, \<open>Client_Aggregator\<close>, \<open>Ec_Module\<close>: the
    modules of the same names in \<^verbatim>\<open>modules/\<close>, one handler each, with what they promise: intervals,
    detected corruption, retained versions, complete groups, agreement of the ranks. The locale
    \<open>version_store\<close> is the part of the storage the versioning module uses.
  \<^item> \<open>Module_Manager\<close>: \<^verbatim>\<open>modules/module_manager.cpp\<close>, the chain; a checkpoint and a restart through it
    give the bytes back, and under arbitrary faults never wrong bytes.
  \<^item> \<open>Work_Queue\<close>: \<^verbatim>\<open>backend/work_queue.cpp\<close>, the main loop and its threads as a step relation. Locale
    \<open>forward_simulation\<close>: with one thread the loop refines a serial server; in general at most
    \<^verbatim>\<open>max_parallelism\<close> commands are worked on.
  \<^item> \<open>Backend_Main\<close>: \<^verbatim>\<open>backend/main.cpp\<close>, the start of the backend; one instance per user.
  \<^item> \<open>Client\<close>: \<^verbatim>\<open>lib/client.cpp\<close>, all operations over the application's memory, with a type invariant
    kept by every call and the round trip of the memory phase.
  \<^item> \<open>C_Api\<close>: \<^verbatim>\<open>lib/veloc.cpp\<close>, the C interface over the static client pointer; its sequences of calls
    are those of a life-cycle automaton.
  \<^item> \<open>Posix_Cache\<close>: \<^verbatim>\<open>lib/posix_cache.cpp\<close>, cached files and their background thread as a step relation;
    remote and local file converge.
  \<^item> \<open>Inspect\<close>: \<^verbatim>\<open>tools/veloc-inspect.cpp\<close>, which prints the regions of a checkpoint.
  \<^item> \<open>Service\<close>: client, queue, main loop and chain together. The locale \<open>checkpoint_service\<close> is what the
    client relies on; its interpretation discharges it for the whole stack, and the theorem below
    states the result for the memory of the application.

  \<^bold>\<open>Conventions\<close>

  A handler that runs under a lock is one function; threads are interleavings of such functions
  in \<open>inductive\<close> step relations, and their theorems hold for every reachable state. Loops that may
  not end are \<open>partial_function (option)\<close>; theorems that a transfer returns are proved as such.
  There is no fuel. \<^verbatim>\<open>size_t\<close> is a 64-bit word and wraps; lengths of files are bounded by \<open>2 ^ 63\<close>, as
  \<^verbatim>\<open>off_t\<close> demands. A symbolic link is followed 40 times at most, as Linux does. SHA-256, the ER, AXL and
  DAOS libraries, MPI, the clock and the application's serialisers are arguments; what is assumed of
  them is a hypothesis of the theorem that needs it.

  \<^bold>\<open>Not modelled\<close>

  \<^item> Setting up and tearing down shared memory segments, sockets and RPC engines (Boost, libc, Thallium):
    the handlers start from connected queues.
  \<^item> Signals: \<^verbatim>\<open>user_handler\<close> and \<^verbatim>\<open>exit_handler\<close> of \<^verbatim>\<open>backend/main.cpp\<close>, and the condition variable by which
    \<^verbatim>\<open>start_main_loop\<close> reports that it is ready.
  \<^item> CPU affinity and priorities, log messages (\<^verbatim>\<open>common/debug.hpp\<close>) and benchmark timers: no effect on
    results.
  \<^item> \<^verbatim>\<open>GetInteger\<close> and \<^verbatim>\<open>GetReal\<close> of the INI reader, which nothing calls; destructors that only free memory
    or finalise a library.
  \<^item> The serialisation adapters \<^verbatim>\<open>src/include/veloc/{boost,cereal,bitsery}.hpp\<close> and the Python wrapper: thin
    layers over third-party code.
\<close>

section \<open>From memory to memory\<close>

text \<open>
  C1: the whole system. A client with its backend checkpoints its protected memory, in
  synchronous or asynchronous mode, and waits: both calls succeed when no system call fails and
  no file is in the way. After that any process of the same rank may be started, with whatever
  memory, after the loss of the local file: if it protects the same regions and has a backend
  with the same storage, its restart succeeds, every protected byte is what it was at the
  checkpoint, and no other byte is touched.
\<close>

theorem checkpoint_restart_end_to_end:
  assumes "\<not> checkpoint_in_progress st" and "\<not> aggregated st" and "mk_command (cl_rank st) CHECKPOINT v nm = Inr c"
    and "fst (get_current_ckpt_regions (st\<lparr>current_ckpt := c\<rparr>)) = rs" and "rs \<noteq> []" and "raw_regions rs"
    and "stack_serves env cfg scratch persistent meta active (cl_rank st) (cl_queue st) c"
    and "due (env_now env) c (md_transfer (snd (cl_queue st)))"
    and "node_at (cl_fs st) (filename c scratch) = None"
    and "prepared scratch persistent meta c (image_of (cl_mem st) rs)
      (set_node (filename c scratch) (Reg (image_of (cl_mem st) rs)) (cl_fs st))"
  shows "\<exists>st1 st2. checkpoint cfg (local_link env cfg (cl_rank st)) mp nm v st = (Ok True, st1) \<and>
    checkpoint_wait (local_link env cfg (cl_rank st)) st1 = (Ok True, st2) \<and>
    (\<forall>st' env' mp'. cl_fs st' = del_node (filename c scratch) (cl_fs st2) \<and> cl_rank st' = cl_rank st \<and>
       \<not> checkpoint_in_progress st' \<and> fst (get_current_ckpt_regions (st'\<lparr>current_ckpt := c\<rparr>)) = rs \<and>
       env_sha256 env' = env_sha256 env \<and> stack_serves env' cfg scratch persistent meta active (cl_rank st) (cl_queue st') c \<and>
       (cl_comm st' \<longrightarrow> mpi_lor mp' VELOC_SUCCESS = VELOC_SUCCESS) \<longrightarrow>
       (\<exists>st3. restart cfg (local_link env' cfg (cl_rank st)) mp' nm v (- 1) st' = (Ok True, st3) \<and>
          cl_mem st3 = (\<lambda>a. if \<exists>(i, r) \<in> set rs. in_region a r then cl_mem st a else cl_mem st' a)))"
proof -
  let ?p = "filename c scratch" and ?bs = "image_of (cl_mem st) rs"
  have c: "wf_command c" "cname c = nm" "version c = v"
    using assms(3,10) by (auto simp: mk_command_def prepared_def split: if_splits)
  then have nm: "validate_name nm" "0 \<le> v"
    by (auto simp: wf_command_def)
  have cfg: "cfg_get cfg ''scratch'' = Inr scratch"
    using assms(7) by (simp add: stack_serves_def)
  have fs: "faultless (cl_fs st)" "is_dir (cl_fs st) (dirname ?p)"
    using assms(9,10) c(1) by (auto simp: prepared_def dirname_files is_dir_def split: if_splits)
  have rd: "stack_ready env scratch persistent meta (cl_queue st) c ?bs (set_node ?p (Reg ?bs) (cl_fs st))"
    using assms(8,10) by (simp add: stack_ready_def)
  obtain st1 st2 where st: "checkpoint cfg (local_link env cfg (cl_rank st)) mp nm v st = (Ok True, st1)"
      "checkpoint_wait (local_link env cfg (cl_rank st)) st1 = (Ok True, st2)"
      "saved_remote (env_sha256 env) scratch persistent meta active c ?bs (del_node ?p (cl_fs st2))"
    using stack.checkpoint_protects [OF assms(1-3) nm cfg assms(4-6) fs(1) assms(9) fs(2) assms(7) rd] by blast
  have "\<exists>st3. restart cfg (local_link env' cfg (cl_rank st)) mp' nm v (- 1) st' = (Ok True, st3) \<and>
      cl_mem st3 = (\<lambda>a. if \<exists>(i, r) \<in> set rs. in_region a r then cl_mem st a else cl_mem st' a)"
    if "cl_fs st' = del_node ?p (cl_fs st2)" "cl_rank st' = cl_rank st" "\<not> checkpoint_in_progress st'"
      "fst (get_current_ckpt_regions (st'\<lparr>current_ckpt := c\<rparr>)) = rs" "env_sha256 env' = env_sha256 env"
      "stack_serves env' cfg scratch persistent meta active (cl_rank st) (cl_queue st') c"
      "cl_comm st' \<longrightarrow> mpi_lor mp' VELOC_SUCCESS = VELOC_SUCCESS" for st' env' mp'
  proof (rule stack.restart_recovers [OF _ that(3) _ nm cfg that(6,4) assms(6)])
    show "saved_remote (env_sha256 env') scratch persistent meta active c ?bs (cl_fs st')"
      using st(3) that(1,5) by simp
  qed (use assms(3) that in simp_all)
  with st(1,2) show ?thesis by blast
qed

definition stack_fs :: fsys where
  "stack_fs = healthy [(''/s'', Dir), (''/p'', Dir), (''/m'', Dir)]"

definition stack_client :: "fsys \<Rightarrow> mem \<Rightarrow> (unit, client_queue backend \<times> unit modules) client" where
  "stack_client fs m = \<lparr>cl_rank = 3, no_ranks = 4, cl_comm = True, mem_regions = (\<lambda>_. sample_regions), observers = [], notified = [],
     current_ckpt = sample_command, checkpoint_in_progress = False, aggregated = False, region_info = [], header_size = 0,
     cl_queue = (\<lparr>clients = [(3, new_queue)], next_it = 0\<rparr>, sample_modules), cl_fs = fs, cl_mem = m\<rparr>"

lemma stack_client_serves: "stack_serves sample_menv sample_cfg ''/s'' ''/p'' ''/m'' True 3 (cl_queue (stack_client fs m)) sample_command"
  using sample_cfg_get sample_cfg_storage
  by (simp add: stack_serves_def stack_client_def keeps_all_def sample_modules_def sample_menv_def sample_hash_def)

lemma stack_client_prepared:
  "prepared ''/s'' ''/p'' ''/m'' sample_command (image_of sample_mem sample_regions)
     (set_node (filename sample_command ''/s'') (Reg (image_of sample_mem sample_regions)) stack_fs)"
proof -
  have "length (image_of sample_mem sample_regions) = 35"
    by (simp add: image_of_def ckpt_header_def sizes_of_def sample_regions_def enc_entry_def)
  then have "image_of sample_mem sample_regions \<noteq> [] \<and> length (image_of sample_mem sample_regions) < 2 ^ 63"
    by (auto simp del: length_0_conv)
  then show ?thesis
    using wf_sample_command by (simp add: prepared_def stack_fs_def sample_name sample_meta_names is_dir_def)
qed

theorem checkpoint_restart_end_to_end_witness:
  "\<exists>st1 st2 st3. checkpoint sample_cfg (local_link sample_menv sample_cfg 3) sample_mpi ''heat.2d'' 12 (stack_client stack_fs sample_mem) = (Ok True, st1) \<and>
     checkpoint_wait (local_link sample_menv sample_cfg 3) st1 = (Ok True, st2) \<and>
     restart sample_cfg (local_link sample_menv sample_cfg 3) sample_mpi ''heat.2d'' 12 (- 1)
       (stack_client (del_node (filename sample_command ''/s'') (cl_fs st2)) (\<lambda>_. 0)) = (Ok True, st3) \<and>
     cl_mem st3 17 = 17 \<and> cl_mem st3 32 = 32 \<and> cl_mem st3 18 = 0"
proof -
  let ?st = "stack_client stack_fs sample_mem"
  have mk: "mk_command (cl_rank ?st) CHECKPOINT 12 ''heat.2d'' = Inr sample_command"
    by (simp add: mk_command_def stack_client_def sample_command_def)
  have rs: "fst (get_current_ckpt_regions (stack_client fs m\<lparr>current_ckpt := sample_command\<rparr>)) = sample_regions" for fs m
    by (simp add: get_current_ckpt_regions_def Let_def stack_client_def)
  have f: "\<not> checkpoint_in_progress (stack_client fs m)" "\<not> aggregated (stack_client fs m)" "cl_rank (stack_client fs m) = 3"
      "cl_fs (stack_client fs m) = fs" "cl_mem (stack_client fs m) = m" for fs m
    by (simp_all add: stack_client_def)
  have due: "due (env_now sample_menv) sample_command (md_transfer (snd (cl_queue ?st)))"
    by (simp add: due_def stack_client_def sample_modules_def)
  have no: "node_at (cl_fs ?st) (filename sample_command ''/s'') = None" "sample_regions \<noteq> []"
    by (simp_all add: f stack_fs_def sample_name sample_regions_def)
  have sv: "stack_serves sample_menv sample_cfg ''/s'' ''/p'' ''/m'' True (cl_rank ?st) (cl_queue ?st) sample_command"
    using stack_client_serves by (simp add: f)
  have pr: "prepared ''/s'' ''/p'' ''/m'' sample_command (image_of (cl_mem ?st) sample_regions)
      (set_node (filename sample_command ''/s'') (Reg (image_of (cl_mem ?st) sample_regions)) (cl_fs ?st))"
    using stack_client_prepared by (simp add: f)
  obtain st1 st2 where st: "checkpoint sample_cfg (local_link sample_menv sample_cfg 3) sample_mpi ''heat.2d'' 12 ?st = (Ok True, st1)"
      "checkpoint_wait (local_link sample_menv sample_cfg 3) st1 = (Ok True, st2)"
      and all: "\<And>st' env' mp'. cl_fs st' = del_node (filename sample_command ''/s'') (cl_fs st2) \<and> cl_rank st' = cl_rank ?st \<and>
         \<not> checkpoint_in_progress st' \<and> fst (get_current_ckpt_regions (st'\<lparr>current_ckpt := sample_command\<rparr>)) = sample_regions \<and>
         env_sha256 env' = env_sha256 sample_menv \<and>
         stack_serves env' sample_cfg ''/s'' ''/p'' ''/m'' True (cl_rank ?st) (cl_queue st') sample_command \<and>
         (cl_comm st' \<longrightarrow> mpi_lor mp' VELOC_SUCCESS = VELOC_SUCCESS) \<Longrightarrow>
         \<exists>st3. restart sample_cfg (local_link env' sample_cfg (cl_rank ?st)) mp' ''heat.2d'' 12 (- 1) st' = (Ok True, st3) \<and>
            cl_mem st3 = (\<lambda>a. if \<exists>(i, r) \<in> set sample_regions. in_region a r then cl_mem ?st a else cl_mem st' a)"
    using checkpoint_restart_end_to_end [OF f(1,2) mk rs no(2) sample_raw sv due no(1) pr, of sample_mpi] unfolding f(3) by blast
  let ?st' = "stack_client (del_node (filename sample_command ''/s'') (cl_fs st2)) (\<lambda>_. 0)"
  have "mpi_lor sample_mpi VELOC_SUCCESS = VELOC_SUCCESS"
    by (simp add: sample_mpi_def)
  then have "\<exists>st3. restart sample_cfg (local_link sample_menv sample_cfg 3) sample_mpi ''heat.2d'' 12 (- 1) ?st' = (Ok True, st3) \<and>
      cl_mem st3 = (\<lambda>a. if \<exists>(i, r) \<in> set sample_regions. in_region a r then cl_mem ?st a else cl_mem ?st' a)"
    using all [of ?st' sample_menv sample_mpi] stack_client_serves f rs by simp
  with st show ?thesis
    by (auto simp: f sample_regions_def in_region_def sample_mem_def)
qed

end
